(* ===== verification/Prelude.thy ===== *)
theory Prelude
  imports Main "HOL-Library.Word" "HOL-Library.Char_ord" "HOL-Library.List_Lexorder"
begin

text \<open>
  Shared vocabulary of the development: the collections of simplification rules the
  components fill, the names of the Go types that several components use, and generic
  facts on lists, options and association lists.

  A Go string is a sequence of bytes, which is what Isabelle's \<^typ>\<open>string\<close> is
  (a list of 8-bit characters), so Go's byte-wise string order is the lexicographic
  order of List_Lexorder on characters ordered by code.  A Go \<^verbatim>\<open>uint64\<close> is a
  \<^typ>\<open>64 word\<close>, an \<^verbatim>\<open>int64\<close> the same word read with \<^const>\<open>sint\<close>.
\<close>

section \<open>Collections\<close>

named_theorems event_simps \<open>field projections of events built by the code\<close>

section \<open>Go types\<close>

type_synonym u64 = "64 word"
type_synonym u32 = "32 word"
type_synonym EntryID = u64

abbreviation c_quote :: char where "c_quote \<equiv> CHR 0x22"
abbreviation c_bsl :: char where "c_bsl \<equiv> CHR 0x5C"

text \<open>The code of a byte, as a natural number below 256.\<close>

abbreviation ord :: "char \<Rightarrow> nat" where "ord c \<equiv> of_char c"

lemma ord_less_256 [simp]: "ord c < 256"
  by (fact nat_of_char_less_256)

lemma ord_le_255 [simp]: "ord c \<le> 255"
  using ord_less_256 [of c] by linarith

section \<open>Decimal numerals (strconv.FormatUint and strconv.FormatInt in base 10)\<close>

definition digit_char :: "nat \<Rightarrow> char" where
  "digit_char d = char_of (48 + d)"

definition is_digit :: "char \<Rightarrow> bool" where
  "is_digit c \<longleftrightarrow> 48 \<le> ord c \<and> ord c \<le> 57"

fun dec_nat :: "nat \<Rightarrow> string" where
  "dec_nat n = (if n < 10 then [digit_char n] else dec_nat (n div 10) @ [digit_char (n mod 10)])"

declare dec_nat.simps [simp del]

definition dec_int :: "int \<Rightarrow> string" where
  "dec_int i = (if i < 0 then CHR ''-'' # dec_nat (nat (- i)) else dec_nat (nat i))"

lemma is_digit_digit_char [simp]: "d < 10 \<Longrightarrow> is_digit (digit_char d)"
  by (simp add: is_digit_def digit_char_def)

lemma ord_digit_char [simp]: "d < 10 \<Longrightarrow> ord (digit_char d) = 48 + d"
  by (simp add: digit_char_def)

lemma digit_char_inj: "d < 10 \<Longrightarrow> e < 10 \<Longrightarrow> digit_char d = digit_char e \<Longrightarrow> d = e"
  by (metis add_left_cancel ord_digit_char)

lemma dec_nat_step:
  "n < 10 \<Longrightarrow> dec_nat n = [digit_char n]"
  "10 \<le> n \<Longrightarrow> dec_nat n = dec_nat (n div 10) @ [digit_char (n mod 10)]"
  by (simp_all add: dec_nat.simps)

lemma dec_nat_digits: "c \<in> set (dec_nat n) \<Longrightarrow> is_digit c"
proof (induction n rule: dec_nat.induct)
  case (1 n)
  then show ?case by (subst (asm) dec_nat.simps) (auto split: if_splits)
qed

lemma dec_nat_nonempty [simp]: "dec_nat n \<noteq> []"
  by (subst dec_nat.simps) simp

lemma dec_nat_inj: "dec_nat m = dec_nat n \<Longrightarrow> m = n"
proof (induction m arbitrary: n rule: dec_nat.induct)
  case (1 m)
  show ?case
  proof (cases "m < 10 \<or> n < 10")
    case True
    with "1.prems" show ?thesis
      by (subst (asm) (1 2) dec_nat.simps)
        (auto split: if_splits dest: digit_char_inj simp: append_eq_Cons_conv Cons_eq_append_conv)
  next
    case False
    with "1.prems" have "dec_nat (m div 10) = dec_nat (n div 10)"
      and "digit_char (m mod 10) = digit_char (n mod 10)"
      by (subst (asm) (1 2) dec_nat.simps; simp)+
    with False "1.IH" have "m div 10 = n div 10" "m mod 10 = n mod 10"
      by (auto intro: digit_char_inj)
    then show ?thesis by (metis div_mult_mod_eq)
  qed
qed

lemma unat_inj: "unat a = unat b \<Longrightarrow> a = b"
  by (rule unsigned_word_eqI)

section \<open>Lists\<close>

lemma those_map_iff:
  "those (map f xs) = Some ys \<longleftrightarrow> list_all2 (\<lambda>x y. f x = Some y) xs ys"
proof (induction xs arbitrary: ys)
  case (Cons x xs)
  then show ?case by (cases ys) (auto split: option.splits)
qed auto

lemma those_map_None: "those (map f xs) = None \<longleftrightarrow> (\<exists>x \<in> set xs. f x = None)"
  by (induction xs) (auto split: option.splits)

lemma foldr_max_le: "foldr max (xs::nat list) 0 \<le> d \<longleftrightarrow> (\<forall>x \<in> set xs. x \<le> d)"
  by (induction xs) auto

text \<open>Sorting by key commutes with anything that keeps the keys.\<close>

lemma insort_key_all2:
  assumes "list_all2 R xs ys" "R x y" "\<And>a b. R a b \<Longrightarrow> f a = g b"
  shows "list_all2 R (insort_key f x xs) (insort_key g y ys)"
proof -
  have fg: "f x = g y" using assms(2,3) by blast
  from assms(1) show ?thesis
    by (induction rule: list_all2_induct) (auto simp: assms(2,3) fg)
qed

lemma sort_key_all2:
  assumes "list_all2 R xs ys" "\<And>a b. R a b \<Longrightarrow> f a = g b"
  shows "list_all2 R (sort_key f xs) (sort_key g ys)"
  using assms(1) by (induction rule: list_all2_induct) (auto intro!: insort_key_all2 assms(2))

lemma insort_key_map_values:
  "insort_key fst (k, f v) (map (\<lambda>(k, v). (k, f v)) xs)
     = map (\<lambda>(k, v). (k, f v)) (insort_key fst (k, v) xs)"
  by (induction xs) auto

lemma sort_key_map_values:
  "sort_key fst (map (\<lambda>(k, v). (k, f v)) xs) = map (\<lambda>(k, v). (k, f v)) (sort_key fst xs)"
  by (induction xs) (auto simp: insort_key_map_values)

text \<open>Appending an element that is not smaller than the others does not disturb the order.\<close>

lemma insort_key_before: "f x \<le> f y \<Longrightarrow> insort_key f x (zs @ [y]) = insort_key f x zs @ [y]"
  by (induction zs) auto

lemma sort_key_snoc: "\<forall>x \<in> set xs. f x \<le> f y \<Longrightarrow> sort_key f (xs @ [y]) = sort_key f xs @ [y]"
  by (induction xs) (auto simp: insort_key_before)

lemma find_SomeD: "find P xs = Some x \<Longrightarrow> x \<in> set xs \<and> P x"
  by (induction xs) (auto split: if_splits)

end
