(* ===== verification/Errors.thy ===== *)
theory Errors
  imports Prelude
begin

text \<open>
  \<^verbatim>\<open>errors.go\<close>: the sentinel errors, and Go's error chains as far as callers see
  them through \<^verbatim>\<open>errors.Is\<close>.  \<^verbatim>\<open>fmt.Errorf\<close> with \<^verbatim>\<open>%w\<close> verbs builds a wrapper
  around the wrapped errors; a cause formatted with \<^verbatim>\<open>%v\<close> (or an error of another
  package returned as it is) is text only and matches no sentinel.
\<close>

datatype sentinel =
    ErrClosed
  | ErrInvalidEvent
  | ErrChainIDRequired
  | ErrEntryNotFound
  | ErrChainCorrupted
  | ErrBackendUnavailable
  | ErrReplicaSetRequired

datatype goerror =
    Sentinel sentinel
  | Errorf string "goerror list"
  | Native string

type_synonym 'a result = "goerror + 'a"

fun errors_Is :: "goerror \<Rightarrow> sentinel \<Rightarrow> bool" where
  "errors_Is (Sentinel s) t = (s = t)"
| "errors_Is (Errorf msg causes) t = list_ex (\<lambda>e. errors_Is e t) causes"
| "errors_Is (Native msg) t = False"

text \<open>Does a result report an error that wraps the given sentinel?\<close>

definition fails_with :: "'a result \<Rightarrow> sentinel \<Rightarrow> bool" where
  "fails_with r s = (case r of Inl e \<Rightarrow> errors_Is e s | Inr _ \<Rightarrow> False)"

lemma fails_with_simps [simp]:
  "fails_with (Inl e) s = errors_Is e s"
  "fails_with (Inr x) s = False"
  by (simp_all add: fails_with_def)

text \<open>Run the continuation on success, propagate an error after wrapping it.\<close>

definition wrap_err :: "string \<Rightarrow> 'a result \<Rightarrow> 'a result" where
  "wrap_err msg r = (case r of Inl e \<Rightarrow> Inl (Errorf msg [e]) | Inr x \<Rightarrow> Inr x)"

lemma wrap_err_simps [simp]:
  "wrap_err msg (Inl e) = Inl (Errorf msg [e])"
  "wrap_err msg (Inr x) = Inr x"
  by (simp_all add: wrap_err_def)

text \<open>A loop that runs a fallible step on each element and returns at the first error.\<close>

fun collect :: "'a result list \<Rightarrow> 'a list result" where
  "collect [] = Inr []"
| "collect (Inl e # rs) = Inl e"
| "collect (Inr x # rs) = (case collect rs of Inl e \<Rightarrow> Inl e | Inr xs \<Rightarrow> Inr (x # xs))"

lemma collect_Inr [simp]: "collect (map Inr xs) = Inr xs"
  by (induction xs) auto

lemma collect_map_Inr: "list_all2 (\<lambda>x y. f x = Inr y) xs ys \<Longrightarrow> collect (map f xs) = Inr ys"
  by (induction rule: list_all2_induct) auto

definition map_result :: "('a \<Rightarrow> 'b) \<Rightarrow> 'a result \<Rightarrow> 'b result" where
  "map_result f r = (case r of Inl e \<Rightarrow> Inl e | Inr x \<Rightarrow> Inr (f x))"

lemma map_result_simps [simp]:
  "map_result f (Inl e) = Inl e"
  "map_result f (Inr x) = Inr (f x)"
  by (simp_all add: map_result_def)

end
