(* ===== verification/GoUtf8.thy ===== *)
theory GoUtf8
  imports Prelude
begin

text \<open>
  The part of Go's \<^verbatim>\<open>unicode/utf8\<close> that \<^verbatim>\<open>encoding/json\<close> relies on.
  \<open>decode_rune\<close> returns the rune and its width, or \<open>None\<close> where Go's
  \<^verbatim>\<open>DecodeRune\<close> returns \<^verbatim>\<open>(RuneError, 1)\<close> on an ill-formed sequence;
  \<open>encode_rune\<close> is \<^verbatim>\<open>EncodeRune\<close>, which writes U+FFFD for surrogates and
  out-of-range values.  \<open>to_valid\<close> replaces every ill-formed byte by U+FFFD, which is
  what a string becomes when it passes through the JSON encoder and decoder.
\<close>

section \<open>Decoding and encoding one rune\<close>

definition cont :: "char \<Rightarrow> bool" where
  "cont c \<longleftrightarrow> 0x80 \<le> ord c \<and> ord c \<le> 0xBF"

definition in_range :: "nat \<Rightarrow> nat \<Rightarrow> char \<Rightarrow> bool" where
  "in_range lo hi c \<longleftrightarrow> lo \<le> ord c \<and> ord c \<le> hi"

definition low6 :: "char \<Rightarrow> nat" where
  "low6 c = ord c - 0x80"

text \<open>The admissible second bytes after a three-byte or a four-byte lead byte.\<close>

definition second3 :: "nat \<Rightarrow> char \<Rightarrow> bool" where
  "second3 b0 = in_range (if b0 = 0xE0 then 0xA0 else 0x80) (if b0 = 0xED then 0x9F else 0xBF)"

definition second4 :: "nat \<Rightarrow> char \<Rightarrow> bool" where
  "second4 b0 = in_range (if b0 = 0xF0 then 0x90 else 0x80) (if b0 = 0xF4 then 0x8F else 0xBF)"

text \<open>The continuation after a two-, three- or four-byte lead byte.\<close>

fun decode2 :: "nat \<Rightarrow> string \<Rightarrow> (nat \<times> nat) option" where
  "decode2 b0 (c1 # t) =
     (if cont c1 then Some ((b0 - 0xC0) * 64 + low6 c1, 2) else None)"
| "decode2 b0 [] = None"

fun decode3 :: "nat \<Rightarrow> string \<Rightarrow> (nat \<times> nat) option" where
  "decode3 b0 (c1 # c2 # t) =
     (if second3 b0 c1 \<and> cont c2
      then Some (((b0 - 0xE0) * 64 + low6 c1) * 64 + low6 c2, 3) else None)"
| "decode3 b0 t = None"

fun decode4 :: "nat \<Rightarrow> string \<Rightarrow> (nat \<times> nat) option" where
  "decode4 b0 (c1 # c2 # c3 # t) =
     (if second4 b0 c1 \<and> cont c2 \<and> cont c3
      then Some ((((b0 - 0xF0) * 64 + low6 c1) * 64 + low6 c2) * 64 + low6 c3, 4) else None)"
| "decode4 b0 t = None"

fun decode_rune :: "string \<Rightarrow> (nat \<times> nat) option" where
  "decode_rune [] = None"
| "decode_rune (c0 # t) =
     (if ord c0 < 0x80 then Some (ord c0, 1)
      else if 0xC2 \<le> ord c0 \<and> ord c0 \<le> 0xDF then decode2 (ord c0) t
      else if 0xE0 \<le> ord c0 \<and> ord c0 \<le> 0xEF then decode3 (ord c0) t
      else if 0xF0 \<le> ord c0 \<and> ord c0 \<le> 0xF4 then decode4 (ord c0) t
      else None)"

definition is_surrogate :: "nat \<Rightarrow> bool" where
  "is_surrogate r \<longleftrightarrow> 0xD800 \<le> r \<and> r < 0xE000"

definition encode_rune :: "nat \<Rightarrow> string" where
  "encode_rune r =
     (if r < 0x80 then [char_of r]
      else if r < 0x800 then [char_of (0xC0 + r div 64), char_of (0x80 + r mod 64)]
      else if is_surrogate r \<or> 0x10FFFF < r then [CHR 0xEF, CHR 0xBF, CHR 0xBD]
      else if r < 0x10000 then
        [char_of (0xE0 + r div 64 div 64), char_of (0x80 + r div 64 mod 64), char_of (0x80 + r mod 64)]
      else [char_of (0xF0 + r div 64 div 64 div 64), char_of (0x80 + r div 64 div 64 mod 64),
            char_of (0x80 + r div 64 mod 64), char_of (0x80 + r mod 64)])"

abbreviation rune_error :: nat where "rune_error \<equiv> 0xFFFD"

lemma char_of_ord: "n = ord c \<Longrightarrow> char_of n = c"
  by simp

lemma low6_bounds:
  assumes "cont c"
  shows "low6 c < 64" "0x80 + low6 c = ord c"
  using assms by (auto simp: cont_def low6_def)

lemma second_cont:
  "second3 b c \<Longrightarrow> cont c" "second4 b c \<Longrightarrow> cont c"
  by (auto simp: second3_def second4_def in_range_def cont_def split: if_splits)

lemma snoc6:
  assumes "(y::nat) < 64"
  shows "(x * 64 + y) div 64 = x" "(x * 64 + y) mod 64 = y"
  using assms by auto

lemma encode_rune_3:
  assumes "r = (a * 64 + b) * 64 + c" "b < 64" "c < 64"
    and "0x800 \<le> r" "r < 0x10000" "\<not> is_surrogate r"
  shows "encode_rune r = [char_of (0xE0 + a), char_of (0x80 + b), char_of (0x80 + c)]"
proof -
  have "r mod 64 = c" "r div 64 = a * 64 + b" "(a * 64 + b) div 64 = a" "(a * 64 + b) mod 64 = b"
    unfolding assms(1) by (rule snoc6 [OF assms(3)] snoc6 [OF assms(2)])+
  with assms(4-6) show ?thesis by (simp add: encode_rune_def)
qed

lemma encode_rune_4:
  assumes "r = ((a * 64 + b) * 64 + c) * 64 + d" "b < 64" "c < 64" "d < 64"
    and "0x10000 \<le> r" "r \<le> 0x10FFFF"
  shows "encode_rune r
    = [char_of (0xF0 + a), char_of (0x80 + b), char_of (0x80 + c), char_of (0x80 + d)]"
proof -
  have "r mod 64 = d" "r div 64 = (a * 64 + b) * 64 + c" "((a * 64 + b) * 64 + c) div 64 = a * 64 + b"
      "((a * 64 + b) * 64 + c) mod 64 = c" "(a * 64 + b) div 64 = a" "(a * 64 + b) mod 64 = b"
    unfolding assms(1) by (rule snoc6 [OF assms(4)] snoc6 [OF assms(3)] snoc6 [OF assms(2)])+
  with assms(5,6) show ?thesis by (simp add: encode_rune_def is_surrogate_def)
qed

lemma encode_decode_2:
  assumes "0xC2 \<le> ord c0" "ord c0 \<le> 0xDF" "cont c1"
  shows "encode_rune ((ord c0 - 0xC0) * 64 + low6 c1) = [c0, c1]"
proof -
  note l = low6_bounds [OF assms(3)]
  have "0x80 \<le> (ord c0 - 0xC0) * 64 + low6 c1" "(ord c0 - 0xC0) * 64 + low6 c1 < 0x800"
    using assms l(1) by linarith+
  then show ?thesis using assms(1,2) l
    by (simp add: encode_rune_def snoc6 char_of_ord)
qed

lemma encode_decode_3:
  assumes "0xE0 \<le> ord c0" "ord c0 \<le> 0xEF" "second3 (ord c0) c1" "cont c2"
  shows "encode_rune (((ord c0 - 0xE0) * 64 + low6 c1) * 64 + low6 c2) = [c0, c1, c2]"
proof -
  let ?r = "((ord c0 - 0xE0) * 64 + low6 c1) * 64 + low6 c2"
  note l = low6_bounds [OF second_cont(1) [OF assms(3)]] low6_bounds [OF assms(4)]
  have e: "ord c0 = 0xE0 \<Longrightarrow> 32 \<le> low6 c1" "ord c0 = 0xED \<Longrightarrow> low6 c1 < 32"
    using assms(3) by (auto simp: second3_def in_range_def low6_def)
  have "0x800 \<le> ?r"
  proof (cases "ord c0 = 0xE0")
    case True
    with e(1) show ?thesis by simp
  next
    case False
    with assms(1) have "1 \<le> ord c0 - 0xE0" by simp
    from mult_le_mono1 [OF this, of 4096] show ?thesis by simp
  qed
  moreover have "?r < 0x10000" using assms(2) l by (simp add: algebra_simps)
  moreover have "\<not> is_surrogate ?r"
  proof (cases "ord c0 = 0xED")
    case True
    with e(2) l show ?thesis by (simp add: is_surrogate_def)
  next
    case False
    with l show ?thesis by (auto simp: is_surrogate_def)
  qed
  ultimately have "encode_rune ?r = [char_of (0xE0 + (ord c0 - 0xE0)), char_of (0x80 + low6 c1),
      char_of (0x80 + low6 c2)]"
    using l by (intro encode_rune_3) auto
  then show ?thesis using assms(1) l by simp
qed

lemma encode_decode_4:
  assumes "0xF0 \<le> ord c0" "ord c0 \<le> 0xF4" "second4 (ord c0) c1" "cont c2" "cont c3"
  shows "encode_rune ((((ord c0 - 0xF0) * 64 + low6 c1) * 64 + low6 c2) * 64 + low6 c3)
           = [c0, c1, c2, c3]"
proof -
  let ?r = "(((ord c0 - 0xF0) * 64 + low6 c1) * 64 + low6 c2) * 64 + low6 c3"
  note l = low6_bounds [OF second_cont(2) [OF assms(3)]] low6_bounds [OF assms(4)]
    low6_bounds [OF assms(5)]
  have e: "ord c0 = 0xF0 \<Longrightarrow> 16 \<le> low6 c1" "ord c0 = 0xF4 \<Longrightarrow> low6 c1 < 16"
    using assms(3) by (auto simp: second4_def in_range_def low6_def)
  have "0x10000 \<le> ?r"
  proof (cases "ord c0 = 0xF0")
    case True
    with e(1) show ?thesis by simp
  next
    case False
    with assms(1) have "1 \<le> ord c0 - 0xF0" by simp
    from mult_le_mono1 [OF this, of 262144] show ?thesis by simp
  qed
  moreover have "?r \<le> 0x10FFFF"
  proof (cases "ord c0 = 0xF4")
    case True
    with e(2) l show ?thesis by simp
  next
    case False
    with assms(2) have "ord c0 - 0xF0 \<le> 3" by simp
    from mult_le_mono1 [OF this, of 262144] l show ?thesis by (simp add: algebra_simps)
  qed
  ultimately have "encode_rune ?r = [char_of (0xF0 + (ord c0 - 0xF0)), char_of (0x80 + low6 c1),
      char_of (0x80 + low6 c2), char_of (0x80 + low6 c3)]"
    using l by (intro encode_rune_4) auto
  then show ?thesis using assms(1) l by simp
qed

text \<open>A decoded rune re-encodes to the bytes it was read from.\<close>

fun_cases decode2_SomeE: "decode2 b t = Some p"
fun_cases decode3_SomeE: "decode3 b t = Some p"
fun_cases decode4_SomeE: "decode4 b t = Some p"

lemma decode_rune_Some:
  assumes "decode_rune s = Some (r, n)"
  shows "encode_rune r = take n s \<and> 1 \<le> n \<and> n \<le> length s"
  using assms
  by (cases s)
    (auto split: if_splits elim!: decode2_SomeE decode3_SomeE decode4_SomeE
      simp: encode_decode_2 encode_decode_3 [simplified] encode_decode_4 [simplified]
        encode_rune_def [of "ord c" for c])

lemma decode_rune_append:
  assumes "decode_rune s = Some (r, n)"
  shows "decode_rune (take n s @ t) = Some (r, n)"
  using assms
  by (cases s) (auto split: if_splits elim!: decode2_SomeE decode3_SomeE decode4_SomeE)

section \<open>Replacing ill-formed bytes\<close>

fun prefix_rune :: "string \<Rightarrow> string \<times> string" where
  "prefix_rune [] = ([], [])"
| "prefix_rune (c # cs) = (case decode_rune (c # cs) of
       None \<Rightarrow> (encode_rune rune_error, cs)
     | Some (r, n) \<Rightarrow> (encode_rune r, drop (n - 1) cs))"

lemma prefix_rune_shorter: "prefix_rune (c # cs) = (x, y) \<Longrightarrow> length y \<le> length cs"
  by (auto split: option.splits)

declare decode_rune.simps [simp del] prefix_rune.simps [simp del]

function to_valid :: "string \<Rightarrow> string" where
  "to_valid [] = []"
| "to_valid (c # cs) = (let (r, rest) = prefix_rune (c # cs) in r @ to_valid rest)"
  by pat_completeness auto
termination
  by (relation "measure length") (auto dest: prefix_rune_shorter [OF sym] simp: less_Suc_eq_le)

declare to_valid.simps [simp del]

definition valid_utf8 :: "string \<Rightarrow> bool" where
  "valid_utf8 s \<longleftrightarrow> to_valid s = s"

lemma to_valid_Nil [simp]: "to_valid [] = []"
  by (simp add: to_valid.simps)

lemma to_valid_rune:
  assumes "decode_rune (c # cs) = Some (r, n)"
  shows "to_valid (c # cs) = take n (c # cs) @ to_valid (drop n (c # cs))"
  using decode_rune_Some [OF assms] assms
  by (subst to_valid.simps) (cases n, auto simp: prefix_rune.simps)

lemma to_valid_bad:
  assumes "decode_rune (c # cs) = None"
  shows "to_valid (c # cs) = encode_rune rune_error @ to_valid cs"
  using assms by (subst to_valid.simps) (simp add: prefix_rune.simps)

lemma to_valid_append:
  assumes "decode_rune s = Some (r, n)"
  shows "to_valid (take n s @ t) = take n s @ to_valid t"
proof -
  note d = decode_rune_Some [OF assms] and a = decode_rune_append [OF assms, of t]
  obtain c cs where s: "s = c # cs" using assms by (cases s) (auto simp: decode_rune.simps)
  obtain k where n: "n = Suc k" using d by (cases n) auto
  from a have "decode_rune (c # take k cs @ t) = Some (r, n)" by (simp add: s n)
  from to_valid_rune [OF this] d show ?thesis by (simp add: s n)
qed

lemma decode_rune_error [simp]:
  "decode_rune (encode_rune rune_error @ t) = Some (rune_error, 3)"
  by (simp add: encode_rune_def is_surrogate_def decode_rune.simps second3_def in_range_def
    cont_def low6_def)

lemma to_valid_error [simp]:
  "to_valid (encode_rune rune_error @ t) = encode_rune rune_error @ to_valid t"
  using to_valid_append [of "encode_rune rune_error" rune_error 3 t]
    decode_rune_error [of "[]"] by (simp add: encode_rune_def is_surrogate_def)

lemma to_valid_induct [case_names Nil Bad Rune]:
  assumes "P []"
    and "\<And>c cs. decode_rune (c # cs) = None \<Longrightarrow> P cs \<Longrightarrow> P (c # cs)"
    and "\<And>c cs r n. decode_rune (c # cs) = Some (r, n) \<Longrightarrow> P (drop n (c # cs)) \<Longrightarrow> P (c # cs)"
  shows "P s"
proof (induction s rule: length_induct)
  case (1 s)
  show ?case
  proof (cases s)
    case Nil
    with assms(1) show ?thesis by simp
  next
    case (Cons c cs)
    show ?thesis
    proof (cases "decode_rune (c # cs)")
      case None
      with 1 Cons assms(2) show ?thesis by simp
    next
      case (Some p)
      obtain r n where p: "p = (r, n)" by (cases p)
      from decode_rune_Some Some p have "1 \<le> n" by auto
      then have "length (drop n (c # cs)) < length s" using Cons by (cases n) auto
      with 1 have "P (drop n (c # cs))" by blast
      with assms(3) Some p Cons show ?thesis by blast
    qed
  qed
qed

text \<open>Repairing is idempotent: what the decoder hands back is valid UTF-8.\<close>

lemma to_valid_idem: "to_valid (to_valid s) = to_valid s"
proof (induction s rule: to_valid_induct)
  case Nil
  show ?case by simp
next
  case (Bad c cs)
  then show ?case by (simp add: to_valid_bad)
next
  case (Rune c cs r n)
  then show ?case by (simp add: to_valid_rune to_valid_append del: take_Cons drop_Cons)
qed

lemma valid_utf8_to_valid [simp]: "valid_utf8 (to_valid s)"
  by (simp add: valid_utf8_def to_valid_idem)

text \<open>An encoded rune is decoded again, so text built from runes is valid.\<close>

lemma ord_char_of: "n < 256 \<Longrightarrow> ord (char_of n) = n"
  by simp

lemma low6_char_of: "(n::nat) < 64 \<Longrightarrow> low6 (char_of (0x80 + n)) = n"
  by (simp add: low6_def)

lemma cont_char_of: "(n::nat) < 64 \<Longrightarrow> cont (char_of (0x80 + n))"
  by (simp add: cont_def)

lemma decode_rune_encode:
  assumes "\<not> is_surrogate r" "r \<le> 0x10FFFF"
  shows "decode_rune (encode_rune r @ t) = Some (r, length (encode_rune r))"
proof -
  consider "r < 0x80" | "0x80 \<le> r" "r < 0x800" | "0x800 \<le> r" "r < 0x10000"
    | "0x10000 \<le> r" by linarith
  then show ?thesis
  proof cases
    case 1
    then show ?thesis by (simp add: encode_rune_def decode_rune.simps)
  next
    case 2
    then have "2 \<le> r div 64" "r div 64 < 32" by auto
    with 2 show ?thesis
      by (simp add: encode_rune_def decode_rune.simps cont_char_of low6_char_of)
  next
    case 3
    define x where "x = r div 64 div 64"
    define y where "y = r div 64 mod 64"
    define z where "z = r mod 64"
    have r: "(x * 64 + y) * 64 + z = r" "x < 16" "y < 64" "z < 64"
      using 3 by (auto simp: x_def y_def z_def)
    have e: "encode_rune r = [char_of (0xE0 + x), char_of (0x80 + y), char_of (0x80 + z)]"
      using r assms 3 by (intro encode_rune_3) auto
    have "second3 (0xE0 + x) (char_of (0x80 + y))"
      using r assms(1) 3 by (auto simp: second3_def in_range_def is_surrogate_def)
    with r show ?thesis
      by (simp add: e decode_rune.simps cont_char_of low6_char_of)
  next
    case 4
    define w where "w = r div 64 div 64 div 64"
    define x where "x = r div 64 div 64 mod 64"
    define y where "y = r div 64 mod 64"
    define z where "z = r mod 64"
    have r: "((w * 64 + x) * 64 + y) * 64 + z = r" "w < 5" "x < 64" "y < 64" "z < 64"
      using assms by (auto simp: w_def x_def y_def z_def)
    have e: "encode_rune r
        = [char_of (0xF0 + w), char_of (0x80 + x), char_of (0x80 + y), char_of (0x80 + z)]"
      using r assms 4 by (intro encode_rune_4) auto
    have "second4 (0xF0 + w) (char_of (0x80 + x))"
      using r assms(2) 4 by (auto simp: second4_def in_range_def)
    with r show ?thesis
      by (simp add: e decode_rune.simps cont_char_of low6_char_of)
  qed
qed

lemma encode_rune_rune_error: "encode_rune rune_error = [CHR 0xEF, CHR 0xBF, CHR 0xBD]"
  by (simp add: encode_rune_def is_surrogate_def char_of_ord)

lemma encode_rune_bad: "is_surrogate r \<or> 0x10FFFF < r \<Longrightarrow> encode_rune r = encode_rune rune_error"
  unfolding encode_rune_rune_error by (auto simp: encode_rune_def is_surrogate_def)

lemma to_valid_encode_rune [simp]: "to_valid (encode_rune r @ t) = encode_rune r @ to_valid t"
proof (cases "is_surrogate r \<or> 0x10FFFF < r")
  case True
  from encode_rune_bad [OF this] show ?thesis by (simp only: to_valid_error)
next
  case False
  with decode_rune_encode [of r "[]"]
  have "decode_rune (encode_rune r) = Some (r, length (encode_rune r))" by simp
  from to_valid_append [OF this] show ?thesis by simp
qed

text \<open>ASCII text is valid.\<close>

lemma to_valid_ascii: "\<forall>c \<in> set s. ord c < 0x80 \<Longrightarrow> to_valid s = s"
proof (induction s)
  case (Cons c s)
  then have "decode_rune (c # s) = Some (ord c, 1)" by (simp add: decode_rune.simps)
  from to_valid_rune [OF this] Cons show ?case by simp
qed simp

end
