(* ===== verification/GoJsonString.thy ===== *)
theory GoJsonString
  imports GoUtf8
begin

text \<open>
  JSON string literals as \<^verbatim>\<open>encoding/json\<close> writes and reads them (the default encoder,
  with HTML escaping; the scanner together with \<^verbatim>\<open>unquote\<close>).  The main fact is
  \<open>unquote_quote\<close>: reading back a written literal gives the string with ill-formed
  UTF-8 replaced by U+FFFD.
\<close>

section \<open>Writing (appendString)\<close>

definition hex_digit :: "nat \<Rightarrow> char" where
  "hex_digit n = (if n < 10 then char_of (48 + n) else char_of (87 + n))"

definition html_safe :: "char \<Rightarrow> bool" where
  "html_safe c \<longleftrightarrow> 0x20 \<le> ord c \<and> ord c < 0x80 \<and>
     c \<notin> {c_quote, c_bsl, CHR ''<'', CHR ''>'', CHR ''&''}"

definition escape_char :: "char \<Rightarrow> string" where
  "escape_char c =
     (if c = c_bsl \<or> c = c_quote then [c_bsl, c]
      else if c = CHR 0x08 then [c_bsl, CHR ''b'']
      else if c = CHR 0x0C then [c_bsl, CHR ''f'']
      else if c = CHR 0x0A then [c_bsl, CHR ''n'']
      else if c = CHR 0x0D then [c_bsl, CHR ''r'']
      else if c = CHR 0x09 then [c_bsl, CHR ''t'']
      else [c_bsl, CHR ''u'', CHR ''0'', CHR ''0'',
            hex_digit (ord c div 16), hex_digit (ord c mod 16)])"

definition quote_rune :: "nat \<Rightarrow> string \<Rightarrow> string" where
  "quote_rune r bytes =
     (if r = 0x2028 \<or> r = 0x2029
      then [c_bsl, CHR ''u'', CHR ''2'', CHR ''0'', CHR ''2'', hex_digit (r mod 16)]
      else bytes)"

fun quote_body :: "string \<Rightarrow> string" where
  "quote_body [] = []"
| "quote_body (c # cs) =
     (if ord c < 0x80
      then (if html_safe c then [c] else escape_char c) @ quote_body cs
      else (case decode_rune (c # cs) of
          None \<Rightarrow> [c_bsl] @ ''ufffd'' @ quote_body cs
        | Some (r, n) \<Rightarrow> quote_rune r (take n (c # cs)) @ quote_body (drop (n - 1) cs)))"

definition quote_string :: "string \<Rightarrow> string" where
  "quote_string s = [c_quote] @ quote_body s @ [c_quote]"

section \<open>Reading (scanner and unquote)\<close>

definition hex_value :: "char \<Rightarrow> nat option" where
  "hex_value c =
     (if 48 \<le> ord c \<and> ord c \<le> 57 then Some (ord c - 48)
      else if 97 \<le> ord c \<and> ord c \<le> 102 then Some (ord c - 87)
      else if 65 \<le> ord c \<and> ord c \<le> 70 then Some (ord c - 55)
      else None)"

fun getu4 :: "string \<Rightarrow> (nat \<times> string) option" where
  "getu4 (a # b # c # d # rest) =
     (case (hex_value a, hex_value b, hex_value c, hex_value d) of
        (Some x, Some y, Some z, Some w) \<Rightarrow> Some (((x * 16 + y) * 16 + z) * 16 + w, rest)
      | _ \<Rightarrow> None)"
| "getu4 _ = None"

definition simple_escape :: "char \<Rightarrow> char option" where
  "simple_escape e =
     (if e = c_quote \<or> e = c_bsl \<or> e = CHR ''/'' then Some e
      else if e = CHR ''b'' then Some (CHR 0x08)
      else if e = CHR ''f'' then Some (CHR 0x0C)
      else if e = CHR ''n'' then Some (CHR 0x0A)
      else if e = CHR ''r'' then Some (CHR 0x0D)
      else if e = CHR ''t'' then Some (CHR 0x09)
      else None)"

text \<open>utf16.DecodeRune: a high surrogate followed by a low one.\<close>

definition utf16_pair :: "nat \<Rightarrow> nat \<Rightarrow> nat option" where
  "utf16_pair r1 r2 =
     (if 0xD800 \<le> r1 \<and> r1 < 0xDC00 \<and> 0xDC00 \<le> r2 \<and> r2 < 0xE000
      then Some ((r1 - 0xD800) * 1024 + (r2 - 0xDC00) + 0x10000) else None)"

fun second_u4 :: "string \<Rightarrow> (nat \<times> string) option" where
  "second_u4 (a # b # s) = (if a = c_bsl \<and> b = CHR ''u'' then getu4 s else None)"
| "second_u4 _ = None"

text \<open>After \<^verbatim>\<open>\u\<close>: the rune meant and the remaining input.\<close>

definition read_u4 :: "string \<Rightarrow> (nat \<times> string) option" where
  "read_u4 s = (case getu4 s of None \<Rightarrow> None | Some (r, rest) \<Rightarrow>
     if is_surrogate r then
       (case second_u4 rest of
          Some (r2, rest2) \<Rightarrow> (case utf16_pair r r2 of
              Some q \<Rightarrow> Some (q, rest2) | None \<Rightarrow> Some (rune_error, rest))
        | None \<Rightarrow> Some (rune_error, rest))
     else Some (r, rest))"

lemma getu4_length: "getu4 s = Some (r, rest) \<Longrightarrow> length rest < length s"
  by (cases s rule: getu4.cases) (auto split: option.splits)

lemma second_u4_length: "second_u4 s = Some (r, rest) \<Longrightarrow> length rest < length s"
  by (cases s rule: second_u4.cases) (auto split: if_splits dest: getu4_length)

lemma read_u4_length: "read_u4 s = Some (r, rest) \<Longrightarrow> length rest < length s"
  by (auto simp: read_u4_def split: option.splits if_splits
      dest!: getu4_length second_u4_length)

definition prepend :: "string \<Rightarrow> (string \<times> string) option \<Rightarrow> (string \<times> string) option" where
  "prepend x p = (case p of None \<Rightarrow> None | Some (y, rest) \<Rightarrow> Some (x @ y, rest))"

text \<open>
  The text after the opening quote: the value and what follows the closing quote, or
  \<open>None\<close> for a literal the scanner rejects (a control character, a bad escape, no
  closing quote).
\<close>

function unquote :: "string \<Rightarrow> (string \<times> string) option" where
  "unquote [] = None"
| "unquote (c # cs) =
     (if c = c_quote then Some ([], cs)
      else if ord c < 0x20 then None
      else if c = c_bsl then
        (case cs of [] \<Rightarrow> None | e # es \<Rightarrow>
           if e = CHR ''u'' then
             (case read_u4 es of None \<Rightarrow> None
              | Some (r, rest) \<Rightarrow> prepend (encode_rune r) (unquote rest))
           else (case simple_escape e of None \<Rightarrow> None
              | Some d \<Rightarrow> prepend [d] (unquote es)))
      else (case decode_rune (c # cs) of
          None \<Rightarrow> prepend (encode_rune rune_error) (unquote cs)
        | Some (r, n) \<Rightarrow> prepend (encode_rune r) (unquote (drop (n - 1) cs))))"
  by pat_completeness auto
termination
  by (relation "measure length") (auto dest: read_u4_length)

declare quote_body.simps(2) [simp del] unquote.simps [simp del]

lemma prepend_simps [simp]:
  "prepend x None = None" "prepend x (Some (y, rest)) = Some (x @ y, rest)"
  by (simp_all add: prepend_def)

lemma prepend_eq_Some: "prepend x p = Some (y, rest) \<longleftrightarrow> (\<exists>z. p = Some (z, rest) \<and> y = x @ z)"
  by (auto simp: prepend_def split: option.splits)

section \<open>Reading back what was written\<close>

lemma hex_value_hex_digit: "n < 16 \<Longrightarrow> hex_value (hex_digit n) = Some n"
  by (simp add: hex_value_def hex_digit_def)

lemma hex_value_0 [simp]: "hex_value (CHR ''0'') = Some 0" "hex_value (CHR ''2'') = Some 2"
  by (simp_all add: hex_value_def)

lemma unquote_ascii:
  assumes "html_safe c"
  shows "unquote (c # t) = prepend [c] (unquote t)"
proof -
  have "decode_rune (c # t) = Some (ord c, 1)" "encode_rune (ord c) = [c]"
    using assms by (auto simp: html_safe_def decode_rune.simps encode_rune_def)
  then show ?thesis using assms by (subst unquote.simps) (simp add: html_safe_def)
qed

lemma read_u4_00:
  "n < 0x80 \<Longrightarrow> read_u4 (CHR ''0'' # CHR ''0'' # hex_digit (n div 16) # hex_digit (n mod 16) # t)
     = Some (n, t)"
  by (simp add: read_u4_def hex_value_hex_digit is_surrogate_def)

lemma unquote_escape:
  assumes "ord c < 0x80"
  shows "unquote (escape_char c @ t) = prepend [c] (unquote t)"
  using assms
  by (auto simp: escape_char_def unquote.simps(2) [of c_bsl] simple_escape_def read_u4_00
      encode_rune_def)

lemma unquote_error_text:
  "unquote ([c_bsl] @ ''ufffd'' @ t) = prepend (encode_rune rune_error) (unquote t)"
  by (simp add: unquote.simps(2) [of c_bsl] read_u4_def hex_value_def is_surrogate_def)

lemma unquote_line_separator:
  assumes "r = 0x2028 \<or> r = 0x2029"
  shows "unquote ([c_bsl, CHR ''u'', CHR ''2'', CHR ''0'', CHR ''2'', hex_digit (r mod 16)] @ t)
    = prepend (encode_rune r) (unquote t)"
  using assms
  by (auto simp: unquote.simps(2) [of c_bsl] read_u4_def hex_value_hex_digit is_surrogate_def)

lemma unquote_rune:
  assumes "decode_rune (c # cs) = Some (r, n)" "0x80 \<le> ord c"
  shows "unquote (take n (c # cs) @ t) = prepend (take n (c # cs)) (unquote t)"
proof -
  note d = decode_rune_Some [OF assms(1)] and a = decode_rune_append [OF assms(1), of t]
  then obtain k where n: "n = Suc k" by (cases n) auto
  have l: "length (take k cs) = k" using d n by simp
  have "c \<noteq> c_quote" "c \<noteq> c_bsl" using assms(2) by auto
  moreover have "decode_rune (c # take k cs @ t) = Some (r, Suc k)" using a n by simp
  moreover have "drop k (take k cs @ t) = t" using l by (metis append_eq_conv_conj)
  ultimately show ?thesis using assms(2) d n
    by (simp add: unquote.simps(2) [of c "take k cs @ t"])
qed

lemma unquote_quote_body:
  "unquote (quote_body s @ c_quote # t) = Some (to_valid s, t)"
proof (induction s rule: to_valid_induct)
  case Nil
  show ?case by (simp add: unquote.simps)
next
  case (Bad c cs)
  then have "\<not> ord c < 0x80" by (simp add: decode_rune.simps split: if_splits)
  with Bad show ?case
    using unquote_error_text [of "quote_body cs @ c_quote # t"]
    by (simp add: quote_body.simps(2) to_valid_bad)
next
  case (Rune c cs r n)
  note d = decode_rune_Some [OF Rune(1)]
  then obtain k where n: "n = Suc k" by (cases n) auto
  show ?case
  proof (cases "ord c < 0x80")
    case True
    then have "r = ord c" "n = 1" using Rune(1) by (simp_all add: decode_rune.simps)
    with True Rune show ?thesis
      using to_valid_rune [OF Rune(1)]
      by (simp add: quote_body.simps(2) unquote_ascii unquote_escape)
  next
    case False
    have "unquote (quote_rune r (take n (c # cs)) @ quote_body (drop k cs) @ c_quote # t)
        = prepend (take n (c # cs)) (unquote (quote_body (drop k cs) @ c_quote # t))"
      using d unquote_line_separator [of r] unquote_rune [OF Rune(1)] False
      by (simp add: quote_rune_def del: take_Cons)
    with False Rune n show ?thesis
      by (simp add: quote_body.simps(2) to_valid_rune [OF Rune(1)] del: take_Cons)
  qed
qed

theorem unquote_quote:
  "unquote (quote_body s @ [c_quote] @ t) = Some (to_valid s, t)"
  using unquote_quote_body by simp

text \<open>Whatever text is read, the resulting string is valid UTF-8.\<close>

lemma to_valid_single: "ord c < 0x80 \<Longrightarrow> to_valid (c # t) = c # to_valid t"
  using to_valid_rune [of c t "ord c" 1] by (simp add: decode_rune.simps)

lemma simple_escape_ascii: "simple_escape e = Some d \<Longrightarrow> ord d < 0x80"
  by (auto simp: simple_escape_def split: if_splits)

definition rune_text :: "string \<Rightarrow> bool" where
  "rune_text u \<longleftrightarrow> (\<forall>t. to_valid (u @ t) = u @ to_valid t)"

lemma rune_text_intros:
  "rune_text (encode_rune r)" "ord d < 0x80 \<Longrightarrow> rune_text [d]"
  by (simp_all add: rune_text_def to_valid_single)

lemma unquote_piece:
  assumes "unquote (c # cs) = Some (x, rest)" "c \<noteq> c_quote"
  shows "\<exists>u z s'. x = u @ z \<and> rune_text u \<and> length s' \<le> length cs \<and> unquote s' = Some (z, rest)"
proof -
  from assms consider
      r s' where "prepend (encode_rune r) (unquote s') = Some (x, rest)" "length s' \<le> length cs"
    | d s' where "prepend [d] (unquote s') = Some (x, rest)" "ord d < 0x80" "length s' \<le> length cs"
    by (subst (asm) unquote.simps)
      (auto split: if_splits list.splits option.splits dest!: read_u4_length simple_escape_ascii)
  then show ?thesis
    by cases (metis prepend_eq_Some rune_text_intros)+
qed

lemma unquote_step:
  assumes "unquote s = Some (x, rest)"
  obtains (Close) "x = []" "s = c_quote # rest"
  | (Piece) u z s' where "length s' < length s" "unquote s' = Some (z, rest)" "x = u @ z"
      "rune_text u"
proof (cases s)
  case Nil
  with assms show ?thesis by (simp add: unquote.simps)
next
  case (Cons c cs)
  show ?thesis
  proof (cases "c = c_quote")
    case True
    with assms Cons Close show ?thesis by (simp add: unquote.simps)
  next
    case False
    with assms Cons unquote_piece [of c cs x rest] Piece show ?thesis
      by (auto simp: less_Suc_eq_le)
  qed
qed

lemma unquote_valid: "unquote s = Some (x, rest) \<Longrightarrow> valid_utf8 x"
proof (induction s arbitrary: x rule: length_induct)
  case (1 s)
  from "1.prems" show ?case
  proof (cases rule: unquote_step)
    case (Piece u z s')
    with "1.IH" show ?thesis by (auto simp: valid_utf8_def rune_text_def)
  qed (simp add: valid_utf8_def)
qed

lemma unquote_shorter: "unquote s = Some (x, rest) \<Longrightarrow> length rest < length s"
proof (induction s arbitrary: x rule: length_induct)
  case (1 s)
  from "1.prems" show ?case
  proof (cases rule: unquote_step)
    case (Piece u z s')
    with "1.IH" show ?thesis by fastforce
  qed simp
qed

text \<open>A written literal read back and written again: for valid text nothing changes.\<close>

lemma quote_string_inj:
  assumes "quote_string s = quote_string t" "valid_utf8 s" "valid_utf8 t"
  shows "s = t"
proof -
  from assms(1) have "quote_body s = quote_body t" by (simp add: quote_string_def)
  then have "Some (to_valid s, []) = Some (to_valid t, [])"
    using unquote_quote [of s "[]"] unquote_quote [of t "[]"] by simp
  with assms(2,3) show ?thesis by (simp add: valid_utf8_def)
qed

end
