(* ===== verification/GoJson.thy ===== *)
theory GoJson
  imports GoJsonString
begin

text \<open>
  Go values held in an \<^verbatim>\<open>any\<close>, and \<^verbatim>\<open>encoding/json\<close> as the program uses it:
  \<^verbatim>\<open>json.Marshal\<close> (\<open>marshal\<close>) and a \<^verbatim>\<open>json.Decoder\<close> with \<^verbatim>\<open>UseNumber\<close> decoding one
  value (\<open>json_decode\<close>).  The decoder ignores what follows the first value and rejects
  nesting deeper than the scanner's limit of 10000.

  A Go map is represented by an association list with distinct keys; the order of the
  list carries no meaning for a map built by a caller, and is the sorted order for a map
  built by the decoder.  A float is represented by the text \<^verbatim>\<open>strconv\<close> gives for it,
  so the non-finite ones (\<^verbatim>\<open>NaN\<close>, \<^verbatim>\<open>+Inf\<close>) are the texts that are no JSON numbers.
  A struct is the list of the fields the encoder emits, in order.  \<open>GNilPtr\<close> is a
  non-nil interface holding a nil pointer, map or slice; \<open>GUnsupported\<close> is a channel,
  a function or another value \<^verbatim>\<open>Marshal\<close> refuses.
\<close>

datatype goval =
    GNil
  | GNilPtr
  | GBool bool
  | GInt int
  | GFloat string
  | GNumber string
  | GString string
  | GSlice "goval list"
  | GMap "(string \<times> goval) list"
  | GStruct "(string \<times> goval) list"
  | GUnsupported

section \<open>Maps as sorted association lists\<close>

fun map_set :: "string \<Rightarrow> 'a \<Rightarrow> (string \<times> 'a) list \<Rightarrow> (string \<times> 'a) list" where
  "map_set k v [] = [(k, v)]"
| "map_set k v (p # m) =
     (if k < fst p then (k, v) # p # m
      else if k = fst p then (k, v) # m
      else p # map_set k v m)"

definition build_map :: "(string \<times> 'a) list \<Rightarrow> (string \<times> 'a) list" where
  "build_map ps = foldl (\<lambda>m (k, v). map_set k v m) [] ps"

definition sorted_keys :: "(string \<times> 'a) list \<Rightarrow> bool" where
  "sorted_keys m \<longleftrightarrow> sorted_wrt (<) (map fst m)"

lemma keys_map_set [simp]: "fst ` set (map_set k v m) = insert k (fst ` set m)"
  by (induction m) auto

lemma sorted_keys_Nil [simp]: "sorted_keys []"
  by (simp add: sorted_keys_def)

lemma sorted_keys_Cons:
  "sorted_keys ((k, v) # m) \<longleftrightarrow> (\<forall>k' \<in> fst ` set m. k < k') \<and> sorted_keys m"
  by (auto simp: sorted_keys_def)

lemma sorted_keys_map_set [simp]: "sorted_keys m \<Longrightarrow> sorted_keys (map_set k v m)"
proof (induction m)
  case (Cons p m)
  then show ?case
    by (cases p) (auto simp: sorted_keys_Cons simp flip: image_iff dest: less_trans)
qed (simp add: sorted_keys_Cons)

lemma map_of_map_set [simp]: "map_of (map_set k v m) = (map_of m)(k \<mapsto> v)"
  by (induction m) (auto simp: fun_eq_iff)

lemma set_map_set: "set (map_set k v m) \<subseteq> insert (k, v) (set m)"
  by (induction m) auto

lemma foldl_map_set_sorted:
  "sorted_keys m \<Longrightarrow> sorted_keys (foldl (\<lambda>m (k, v). map_set k v m) m ps)"
  by (induction ps arbitrary: m) auto

lemma sorted_keys_build_map [simp]: "sorted_keys (build_map ps)"
  by (simp add: build_map_def foldl_map_set_sorted)

lemma map_set_last:
  "(\<forall>k' \<in> fst ` set m. k' < k) \<Longrightarrow> map_set k v m = m @ [(k, v)]"
  by (induction m) (auto dest: less_not_sym)

lemma build_map_snoc: "build_map (ps @ [(k, v)]) = map_set k v (build_map ps)"
  by (simp add: build_map_def)

lemma sorted_keys_snoc:
  "sorted_keys (m @ [(k, v)]) \<longleftrightarrow> sorted_keys m \<and> (\<forall>k' \<in> fst ` set m. k' < k)"
  by (auto simp: sorted_keys_def sorted_wrt_append)

lemma build_map_sorted: "sorted_keys m \<Longrightarrow> build_map m = m"
proof (induction m rule: rev_induct)
  case (snoc p m)
  then show ?case
    by (cases p) (simp add: build_map_snoc sorted_keys_snoc map_set_last)
qed (simp add: build_map_def)

lemma set_build_map: "set (build_map ps) \<subseteq> set ps"
proof (induction ps rule: rev_induct)
  case (snoc p ps)
  then show ?case
    using set_map_set [of "fst p" "snd p" "build_map ps"]
    by (cases p) (auto simp: build_map_snoc)
qed (simp add: build_map_def)

lemma keys_build_map: "fst ` set (build_map ps) = fst ` set ps"
proof (induction ps rule: rev_induct)
  case (snoc p ps)
  then show ?case by (cases p) (simp add: build_map_snoc)
qed (simp add: build_map_def)

lemma sorted_keys_distinct: "sorted_keys m \<Longrightarrow> distinct (map fst m)"
  by (simp add: sorted_keys_def strict_sorted_iff)

lemma sorted_keys_sort_key [simp]:
  "distinct (map fst m) \<Longrightarrow> sorted_keys (sort_key fst m)"
  unfolding sorted_keys_def strict_sorted_iff
  by (auto simp: distinct_map)

lemma sort_key_sorted: "sorted_keys m \<Longrightarrow> sort_key fst m = m"
  by (simp add: sorted_keys_def sort_key_id_if_sorted strict_sorted_iff)

section \<open>Numbers\<close>

text \<open>The number grammar of the scanner: the literal read and the remaining input.\<close>

fun scan_int :: "string \<Rightarrow> (string \<times> string) option" where
  "scan_int [] = None"
| "scan_int (c # cs) =
     (if c = CHR ''0'' then Some ([c], cs)
      else if is_digit c then Some (c # takeWhile is_digit cs, dropWhile is_digit cs)
      else None)"

definition scan_digits :: "string \<Rightarrow> (string \<times> string) option" where
  "scan_digits s = (if takeWhile is_digit s = [] then None
     else Some (takeWhile is_digit s, dropWhile is_digit s))"

fun scan_frac :: "string \<Rightarrow> (string \<times> string) option" where
  "scan_frac [] = Some ([], [])"
| "scan_frac (c # cs) = (if c = CHR ''.'' then prepend [c] (scan_digits cs) else Some ([], c # cs))"

fun scan_sign :: "string \<Rightarrow> string \<times> string" where
  "scan_sign [] = ([], [])"
| "scan_sign (c # cs) = (if c = CHR ''+'' \<or> c = CHR ''-'' then ([c], cs) else ([], c # cs))"

fun scan_exp :: "string \<Rightarrow> (string \<times> string) option" where
  "scan_exp [] = Some ([], [])"
| "scan_exp (c # cs) =
     (if c = CHR ''e'' \<or> c = CHR ''E''
      then (let (sg, ds) = scan_sign cs in prepend (c # sg) (scan_digits ds))
      else Some ([], c # cs))"

fun scan_minus :: "string \<Rightarrow> string \<times> string" where
  "scan_minus [] = ([], [])"
| "scan_minus (c # cs) = (if c = CHR ''-'' then ([c], cs) else ([], c # cs))"

definition scan_number :: "string \<Rightarrow> (string \<times> string) option" where
  "scan_number s =
     (let (m, s0) = scan_minus s in
      case scan_int s0 of None \<Rightarrow> None | Some (i, s1) \<Rightarrow>
      (case scan_frac s1 of None \<Rightarrow> None | Some (f, s2) \<Rightarrow>
      (case scan_exp s2 of None \<Rightarrow> None | Some (e, s3) \<Rightarrow> Some (m @ i @ f @ e, s3))))"

definition valid_number :: "string \<Rightarrow> bool" where
  "valid_number s \<longleftrightarrow> scan_number s = Some (s, [])"

text \<open>What may follow a number without being read as part of it.\<close>

fun stop :: "string \<Rightarrow> bool" where
  "stop [] = True"
| "stop (c # cs) = (\<not> is_digit c \<and> c \<noteq> CHR ''.'' \<and> c \<noteq> CHR ''e'' \<and> c \<noteq> CHR ''E'')"

lemma digit_span_append:
  assumes "dropWhile is_digit s \<noteq> [] \<or> stop t"
  shows "takeWhile is_digit (s @ t) = takeWhile is_digit s"
    and "dropWhile is_digit (s @ t) = dropWhile is_digit s @ t"
proof -
  have "takeWhile is_digit (s @ t) = takeWhile is_digit s \<and>
      dropWhile is_digit (s @ t) = dropWhile is_digit s @ t"
    using assms
  proof (induction s)
    case Nil
    then show ?case by (cases t) auto
  qed auto
  then show "takeWhile is_digit (s @ t) = takeWhile is_digit s"
    and "dropWhile is_digit (s @ t) = dropWhile is_digit s @ t" by auto
qed

lemma scan_int_append:
  "scan_int s = Some (a, r) \<Longrightarrow> r \<noteq> [] \<or> stop t \<Longrightarrow> scan_int (s @ t) = Some (a, r @ t)"
  by (cases s) (auto split: if_splits simp: digit_span_append)

lemma scan_digits_append:
  "scan_digits s = Some (a, r) \<Longrightarrow> r \<noteq> [] \<or> stop t \<Longrightarrow> scan_digits (s @ t) = Some (a, r @ t)"
  by (auto simp: scan_digits_def digit_span_append split: if_splits)

lemma scan_frac_append:
  "scan_frac s = Some (a, r) \<Longrightarrow> r \<noteq> [] \<or> stop t \<Longrightarrow> scan_frac (s @ t) = Some (a, r @ t)"
  by (cases s; cases t) (auto split: if_splits simp: prepend_eq_Some scan_digits_append)

lemma scan_exp_append:
  assumes "scan_exp s = Some (a, r)" "r \<noteq> [] \<or> stop t"
  shows "scan_exp (s @ t) = Some (a, r @ t)"
proof (cases s)
  case Nil
  with assms show ?thesis by (cases t) auto
next
  case (Cons c cs)
  have "scan_sign (cs @ t) = (fst (scan_sign cs), snd (scan_sign cs) @ t)"
    if "c = CHR ''e'' \<or> c = CHR ''E''"
    using assms that Cons by (cases cs) (auto simp: scan_digits_def prepend_def split: if_splits)
  with assms Cons show ?thesis
    by (auto split: if_splits prod.splits simp: prepend_eq_Some scan_digits_append)
qed

lemma scan_number_append:
  assumes "scan_number s = Some (a, r)" "r \<noteq> [] \<or> stop t"
  shows "scan_number (s @ t) = Some (a, r @ t)"
proof -
  obtain m s0 where m: "scan_minus s = (m, s0)" by fastforce
  with assms obtain i s1 f s2 e where
    sc: "scan_int s0 = Some (i, s1)" "scan_frac s1 = Some (f, s2)" "scan_exp s2 = Some (e, r)"
    and a: "a = m @ i @ f @ e"
    by (auto simp: scan_number_def split: option.splits)
  have "s0 \<noteq> []" using sc by auto
  then have m': "scan_minus (s @ t) = (m, s0 @ t)" using m by (cases s) (auto split: if_splits)
  have e: "scan_exp (s2 @ t) = Some (e, r @ t)" by (rule scan_exp_append [OF sc(3) assms(2)])
  have "s2 \<noteq> [] \<or> stop t" using sc(3) assms(2) by (cases s2) auto
  from scan_frac_append [OF sc(2) this] have f: "scan_frac (s1 @ t) = Some (f, s2 @ t)" .
  have "s1 \<noteq> [] \<or> stop t" using sc(2) \<open>s2 \<noteq> [] \<or> stop t\<close> by (cases s1) auto
  from scan_int_append [OF sc(1) this] have "scan_int (s0 @ t) = Some (i, s1 @ t)" .
  with m' e f a show ?thesis by (simp add: scan_number_def)
qed

lemma valid_number_append: "valid_number s \<Longrightarrow> stop t \<Longrightarrow> scan_number (s @ t) = Some (s, t)"
  using scan_number_append [of s s "[]" t] by (simp add: valid_number_def)

lemma valid_number_start:
  assumes "valid_number s"
  obtains c cs where "s = c # cs" "c = CHR ''-'' \<or> is_digit c"
  using assms
  by (cases s) (auto simp: valid_number_def scan_number_def is_digit_def split: if_splits option.splits)

end
