(* ===== verification/GoMarshal.thy ===== *)
theory GoMarshal
  imports GoJson
begin

text \<open>
  \<^verbatim>\<open>json.Marshal\<close> and a \<^verbatim>\<open>json.Decoder\<close> with \<^verbatim>\<open>UseNumber\<close>.  \<open>normal_form\<close> says which
  value the decoder returns for the text \<open>marshal\<close> writes: numbers become
  \<^verbatim>\<open>json.Number\<close> texts, structs become maps, typed nils become nil and strings become valid
  UTF-8.  \<open>json_decode_marshal\<close> is that statement, for values nested at most as deeply
  as the scanner allows.
\<close>

section \<open>json.Marshal\<close>

fun join_commas :: "string list \<Rightarrow> string" where
  "join_commas [] = []"
| "join_commas [t] = t"
| "join_commas (t # ts) = t @ '','' @ join_commas ts"

definition member_text :: "string \<times> string \<Rightarrow> string" where
  "member_text p = quote_string (fst p) @ '':'' @ snd p"

definition object_text :: "(string \<times> string) list \<Rightarrow> string" where
  "object_text ts = ''{'' @ join_commas (map member_text ts) @ ''}''"

definition array_text :: "string list \<Rightarrow> string" where
  "array_text ts = ''['' @ join_commas ts @ '']''"

definition number_text :: "string \<Rightarrow> string option" where
  "number_text s = (if s = [] then Some ''0'' else if valid_number s then Some s else None)"

definition tag :: "'k \<Rightarrow> 'v option \<Rightarrow> ('k \<times> 'v) option" where
  "tag k x = map_option (Pair k) x"

fun marshal :: "goval \<Rightarrow> string option" where
  "marshal GNil = Some ''null''"
| "marshal GNilPtr = Some ''null''"
| "marshal (GBool b) = Some (if b then ''true'' else ''false'')"
| "marshal (GInt i) = Some (dec_int i)"
| "marshal (GFloat s) = (if valid_number s then Some s else None)"
| "marshal (GNumber s) = number_text s"
| "marshal (GString s) = Some (quote_string s)"
| "marshal (GSlice xs) = map_option array_text (those (map marshal xs))"
| "marshal (GMap kvs) =
     map_option (\<lambda>ts. object_text (sort_key fst ts)) (those (map (\<lambda>(k, v). tag k (marshal v)) kvs))"
| "marshal (GStruct fs) = map_option object_text (those (map (\<lambda>(k, v). tag k (marshal v)) fs))"
| "marshal GUnsupported = None"

section \<open>json.Decoder.Decode with UseNumber\<close>

definition is_space :: "char \<Rightarrow> bool" where
  "is_space c \<longleftrightarrow> c = CHR '' '' \<or> c = CHR 0x09 \<or> c = CHR 0x0A \<or> c = CHR 0x0D"

definition skip_ws :: "string \<Rightarrow> string" where
  "skip_ws s = dropWhile is_space s"

lemma skip_ws_length: "length (skip_ws s) \<le> length s"
  by (simp add: skip_ws_def length_dropWhile_le)

lemma skip_ws_Cons_length: "skip_ws s = c # cs \<Longrightarrow> length cs < length s"
  using skip_ws_length [of s] by simp

fun expect :: "string \<Rightarrow> string \<Rightarrow> string option" where
  "expect [] s = Some s"
| "expect (x # xs) [] = None"
| "expect (x # xs) (y # ys) = (if x = y then expect xs ys else None)"

definition max_nesting_depth :: nat where
  "max_nesting_depth = 10000"

text \<open>
  The scanner and the decoder in one recursive descent.  The first argument is the number
  of levels that may still be opened.  The comparisons of lengths hold for every input
  (\<open>parse_value_shorter\<close>); they are there so that the recursion is well-founded.
\<close>

function parse_value :: "nat \<Rightarrow> string \<Rightarrow> (goval \<times> string) option"
  and parse_elems :: "nat \<Rightarrow> string \<Rightarrow> (goval list \<times> string) option"
  and parse_members :: "nat \<Rightarrow> string \<Rightarrow> ((string \<times> goval) list \<times> string) option"
where
  "parse_value d s =
    (case skip_ws s of
       [] \<Rightarrow> None
     | c # cs \<Rightarrow>
         if c = CHR ''{'' then
           (if d = 0 then None else
            (case skip_ws cs of
               [] \<Rightarrow> None
             | e # es \<Rightarrow> if e = CHR ''}'' then Some (GMap [], es)
                 else map_option (map_prod (GMap \<circ> build_map) id) (parse_members (d - 1) (e # es))))
         else if c = CHR ''['' then
           (if d = 0 then None else
            (case skip_ws cs of
               [] \<Rightarrow> None
             | e # es \<Rightarrow> if e = CHR '']'' then Some (GSlice [], es)
                 else map_option (map_prod GSlice id) (parse_elems (d - 1) (e # es))))
         else if c = c_quote then map_option (map_prod GString id) (unquote cs)
         else if c = CHR ''t'' then map_option (Pair (GBool True)) (expect ''rue'' cs)
         else if c = CHR ''f'' then map_option (Pair (GBool False)) (expect ''alse'' cs)
         else if c = CHR ''n'' then map_option (Pair GNil) (expect ''ull'' cs)
         else map_option (map_prod GNumber id) (scan_number (c # cs)))"
| "parse_elems d s =
    (case parse_value d s of None \<Rightarrow> None | Some (v, rest) \<Rightarrow>
      (case skip_ws rest of
         [] \<Rightarrow> None
       | c # cs \<Rightarrow>
           if c = CHR '']'' then Some ([v], cs)
           else if c = CHR '','' \<and> length cs < length s then
             map_option (map_prod (Cons v) id) (parse_elems d cs)
           else None))"
| "parse_members d s =
    (case skip_ws s of
       [] \<Rightarrow> None
     | q # qs \<Rightarrow>
         if q \<noteq> c_quote then None else
         (case unquote qs of None \<Rightarrow> None | Some (k, r) \<Rightarrow>
           (case skip_ws r of
              [] \<Rightarrow> None
            | e # es \<Rightarrow>
                if e \<noteq> CHR '':'' \<or> length s \<le> length es then None else
                (case parse_value d es of None \<Rightarrow> None | Some (v, rest) \<Rightarrow>
                  (case skip_ws rest of
                     [] \<Rightarrow> None
                   | c # cs \<Rightarrow>
                       if c = CHR ''}'' then Some ([(k, v)], cs)
                       else if c = CHR '','' \<and> length cs < length s then
                         map_option (map_prod (Cons (k, v)) id) (parse_members d cs)
                       else None)))))"
  by pat_completeness auto
termination
  by (relation "measure (\<lambda>x. case x of Inl (d, s) \<Rightarrow> 2 * length s
        | Inr (Inl (d, s)) \<Rightarrow> 2 * length s + 1 | Inr (Inr (d, s)) \<Rightarrow> 2 * length s + 1)")
    (auto dest!: skip_ws_Cons_length)

declare parse_value.simps [simp del] parse_elems.simps [simp del] parse_members.simps [simp del]

definition json_decode :: "string \<Rightarrow> goval option" where
  "json_decode s = map_option fst (parse_value max_nesting_depth s)"

section \<open>The value the decoder returns for a marshalled one\<close>

fun normal_form :: "goval \<Rightarrow> goval" where
  "normal_form GNil = GNil"
| "normal_form GNilPtr = GNil"
| "normal_form (GBool b) = GBool b"
| "normal_form (GInt i) = GNumber (dec_int i)"
| "normal_form (GFloat s) = GNumber s"
| "normal_form (GNumber s) = GNumber (if s = [] then ''0'' else s)"
| "normal_form (GString s) = GString (to_valid s)"
| "normal_form (GSlice xs) = GSlice (map normal_form xs)"
| "normal_form (GMap kvs) =
     GMap (build_map (map (map_prod to_valid id) (sort_key fst (map (\<lambda>(k, v). (k, normal_form v)) kvs))))"
| "normal_form (GStruct fs) = GMap (build_map (map (\<lambda>(k, v). (to_valid k, normal_form v)) fs))"
| "normal_form GUnsupported = GNil"

fun nesting :: "goval \<Rightarrow> nat" where
  "nesting (GSlice xs) = Suc (foldr max (map nesting xs) 0)"
| "nesting (GMap kvs) = Suc (foldr max (map (\<lambda>(k, v). nesting v) kvs) 0)"
| "nesting (GStruct fs) = Suc (foldr max (map (\<lambda>(k, v). nesting v) fs) 0)"
| "nesting _ = 0"

section \<open>Reading back what was written\<close>

lemma skip_ws_start: "\<not> is_space c \<Longrightarrow> skip_ws (c # cs) = c # cs"
  by (simp add: skip_ws_def)

lemma is_digit_facts:
  assumes "is_digit c"
  shows "\<not> is_space c" "c \<noteq> CHR ''{''" "c \<noteq> CHR ''}''" "c \<noteq> CHR ''[''" "c \<noteq> CHR '']''" "c \<noteq> c_quote"
    "c \<noteq> CHR ''t''" "c \<noteq> CHR ''f''" "c \<noteq> CHR ''n''" "c \<noteq> CHR ''-''"
  using assms by (auto simp: is_digit_def is_space_def)

lemma dec_nat_start: "dec_nat n = CHR ''0'' # cs \<Longrightarrow> cs = []"
proof (induction n arbitrary: cs rule: dec_nat.induct)
  case (1 n)
  show ?case
  proof (cases "n < 10")
    case True
    with "1.prems" show ?thesis by (subst (asm) dec_nat.simps) simp
  next
    case False
    have eq: "dec_nat n = dec_nat (n div 10) @ [digit_char (n mod 10)]"
      using False by (subst dec_nat.simps) simp
    obtain x xs where x: "dec_nat (n div 10) = x # xs" by (cases "dec_nat (n div 10)") auto
    with eq "1.prems" have "dec_nat (n div 10) = CHR ''0'' # xs" by simp
    with "1.IH" [OF False this] have "dec_nat (n div 10) = [CHR ''0'']" by simp
    moreover have "dec_nat 0 = [CHR ''0'']" by (subst dec_nat.simps) (simp add: digit_char_def char_of_ord)
    ultimately have "n div 10 = 0" by (metis dec_nat_inj)
    with False show ?thesis by simp
  qed
qed

lemma scan_int_dec_nat: "scan_int (dec_nat n) = Some (dec_nat n, [])"
proof -
  obtain c cs where c: "dec_nat n = c # cs" by (cases "dec_nat n") auto
  have "\<forall>x \<in> set cs. is_digit x" "is_digit c" using dec_nat_digits [of _ n] c by auto
  with dec_nat_start [of n cs] show ?thesis by (auto simp: c takeWhile_eq_all_conv dropWhile_eq_Nil_conv)
qed

lemma valid_number_dec_int: "valid_number (dec_int i)"
proof -
  have "scan_minus (dec_nat n) = ([], dec_nat n)" for n
    using dec_nat_digits [of _ n] by (cases "dec_nat n") (auto simp: is_digit_facts)
  then show ?thesis
    by (simp add: valid_number_def scan_number_def dec_int_def scan_int_dec_nat)
qed

lemma number_text_valid: "number_text s = Some t \<Longrightarrow> valid_number t"
  by (auto simp: number_text_def valid_number_def scan_number_def split: if_splits)

lemma parse_number:
  assumes "valid_number s" "stop rest"
  shows "parse_value d (s @ rest) = Some (GNumber s, rest)"
proof -
  obtain c cs where s: "s = c # cs" and c: "c = CHR ''-'' \<or> is_digit c"
    by (rule valid_number_start [OF assms(1)])
  have "scan_number (c # cs @ rest) = Some (c # cs, rest)"
    using valid_number_append [OF assms] by (simp add: s)
  moreover have "\<not> is_space c \<and> c \<noteq> CHR ''{'' \<and> c \<noteq> CHR ''['' \<and> c \<noteq> c_quote \<and>
      c \<noteq> CHR ''t'' \<and> c \<noteq> CHR ''f'' \<and> c \<noteq> CHR ''n''"
    using c by (auto simp: is_digit_def is_space_def)
  ultimately show ?thesis by (subst parse_value.simps) (simp add: s skip_ws_start)
qed

lemma parse_string:
  "parse_value d (quote_string s @ rest) = Some (GString (to_valid s), rest)"
  using unquote_quote [of s rest]
  by (subst parse_value.simps) (simp add: quote_string_def skip_ws_start is_space_def)

lemma parse_literals:
  "parse_value d (''null'' @ rest) = Some (GNil, rest)"
  "parse_value d (''true'' @ rest) = Some (GBool True, rest)"
  "parse_value d (''false'' @ rest) = Some (GBool False, rest)"
  by (subst parse_value.simps, simp add: skip_ws_start is_space_def)+

definition starts_value :: "string \<Rightarrow> bool" where
  "starts_value t \<longleftrightarrow> (\<exists>c cs. t = c # cs \<and> \<not> is_space c \<and> c \<noteq> CHR '']'' \<and> c \<noteq> CHR ''}'')"

lemma starts_value_Cons:
  "starts_value (c # cs) \<longleftrightarrow> \<not> is_space c \<and> c \<noteq> CHR '']'' \<and> c \<noteq> CHR ''}''"
  by (simp add: starts_value_def)

lemma starts_value_number: "valid_number t \<Longrightarrow> starts_value t"
  by (erule valid_number_start) (auto simp: starts_value_Cons is_digit_def is_space_def)

lemma marshal_start: "marshal v = Some t \<Longrightarrow> starts_value t"
  by (cases v)
    (auto simp: quote_string_def array_text_def object_text_def starts_value_number
      valid_number_dec_int number_text_valid starts_value_Cons is_space_def split: if_splits)

section \<open>The round trip\<close>

lemma parse_elems_marshal:
  assumes "list_all2 (\<lambda>x t. marshal x = Some t) xs ts" "xs \<noteq> []"
    and "\<And>x t rest. x \<in> set xs \<Longrightarrow> marshal x = Some t \<Longrightarrow> stop rest \<Longrightarrow>
           parse_value d (t @ rest) = Some (normal_form x, rest)"
  shows "parse_elems d (join_commas ts @ '']'' @ rest) = Some (map normal_form xs, rest)"
  using assms
proof (induction rule: list_all2_induct)
  case (Cons x xs t ts)
  have p: "parse_value d (t @ c # r) = Some (normal_form x, c # r)" if "stop (c # r)" for c r
    using Cons.prems(2) [of x t "c # r"] Cons.hyps(1) that by simp
  show ?case
  proof (cases ts)
    case Nil
    with Cons.hyps have "xs = []" by simp
    with Nil p show ?thesis
      by (subst parse_elems.simps) (simp add: skip_ws_start is_space_def is_digit_def)
  next
    case (Cons t' ts')
    with Cons.IH Cons.prems Cons.hyps
    have "parse_elems d (join_commas ts @ '']'' @ rest) = Some (map normal_form xs, rest)"
      by auto
    with Cons p show ?thesis
      by (subst parse_elems.simps) (simp add: skip_ws_start is_space_def is_digit_def)
  qed
qed simp

lemma parse_member:
  assumes "\<And>rest. stop rest \<Longrightarrow> parse_value d (t @ rest) = Some (v, rest)" "stop (c # r)" "\<not> is_space c"
  shows "parse_members d (member_text (k, t) @ c # r) =
    (if c = CHR ''}'' then Some ([(to_valid k, v)], r)
     else if c = CHR '','' then map_option (map_prod (Cons (to_valid k, v)) id) (parse_members d r)
     else None)"
proof -
  have "unquote (quote_body k @ c_quote # '':'' @ t @ c # r) = Some (to_valid k, '':'' @ t @ c # r)"
    using unquote_quote [of k "'':'' @ t @ c # r"] by simp
  with assms show ?thesis
    by (subst parse_members.simps)
      (simp add: member_text_def quote_string_def skip_ws_start is_space_def)
qed

lemma parse_members_marshal:
  assumes "list_all2 (\<lambda>p q. fst p = fst q \<and> marshal (snd p) = Some (snd q)) kvs ts" "kvs \<noteq> []"
    and "\<And>p t rest. p \<in> set kvs \<Longrightarrow> marshal (snd p) = Some t \<Longrightarrow> stop rest \<Longrightarrow>
           parse_value d (t @ rest) = Some (normal_form (snd p), rest)"
  shows "parse_members d (join_commas (map member_text ts) @ ''}'' @ rest)
    = Some (map (\<lambda>(k, v). (to_valid k, normal_form v)) kvs, rest)"
  using assms
proof (induction rule: list_all2_induct)
  case (Cons p kvs q ts)
  obtain k v t where pq: "p = (k, v)" "q = (k, t)" "marshal v = Some t"
    using Cons.hyps by (cases p; cases q) auto
  have p: "parse_value d (t @ r) = Some (normal_form v, r)" if "stop r" for r
    using Cons.prems(2) [of p t r] pq that by simp
  show ?case
  proof (cases ts)
    case Nil
    with Cons.hyps have "kvs = []" by simp
    with Nil parse_member [OF p, of "CHR ''}''" rest k] show ?thesis
      by (simp add: pq is_space_def is_digit_def)
  next
    case (Cons q' ts')
    with Cons.IH Cons.prems Cons.hyps
    have "parse_members d (join_commas (map member_text ts) @ ''}'' @ rest)
        = Some (map (\<lambda>(k, v). (to_valid k, normal_form v)) kvs, rest)"
      by auto
    with Cons parse_member [OF p, of "CHR '',''" "join_commas (map member_text ts) @ ''}'' @ rest" k]
    show ?thesis by (simp add: pq is_space_def is_digit_def)
  qed
qed simp

lemma parse_array:
  assumes "list_all2 (\<lambda>x t. marshal x = Some t) xs ts"
    and "\<And>x t rest. x \<in> set xs \<Longrightarrow> marshal x = Some t \<Longrightarrow> stop rest \<Longrightarrow>
           parse_value d (t @ rest) = Some (normal_form x, rest)"
  shows "parse_value (Suc d) (array_text ts @ rest) = Some (GSlice (map normal_form xs), rest)"
proof (cases ts)
  case Nil
  with assms(1) show ?thesis
    by (subst parse_value.simps) (simp add: array_text_def skip_ws_start is_space_def)
next
  case (Cons t ts')
  with assms(1) obtain x xs' where xs: "xs = x # xs'" "marshal x = Some t" by (cases xs) auto
  have "starts_value t" by (rule marshal_start [OF xs(2)])
  then obtain c cs where c: "join_commas ts @ '']'' @ rest = c # cs" "\<not> is_space c" "c \<noteq> CHR '']''"
    by (cases ts') (auto simp: starts_value_def Cons)
  have "parse_elems d (join_commas ts @ '']'' @ rest) = Some (map normal_form xs, rest)"
    using xs assms by (intro parse_elems_marshal) auto
  with c show ?thesis
    by (subst parse_value.simps) (simp add: array_text_def skip_ws_start is_space_def)
qed

lemma parse_object:
  assumes "list_all2 (\<lambda>p q. fst p = fst q \<and> marshal (snd p) = Some (snd q)) kvs ts"
    and "\<And>p t rest. p \<in> set kvs \<Longrightarrow> marshal (snd p) = Some t \<Longrightarrow> stop rest \<Longrightarrow>
           parse_value d (t @ rest) = Some (normal_form (snd p), rest)"
  shows "parse_value (Suc d) (object_text ts @ rest)
    = Some (GMap (build_map (map (\<lambda>(k, v). (to_valid k, normal_form v)) kvs)), rest)"
proof (cases ts)
  case Nil
  with assms(1) show ?thesis
    by (subst parse_value.simps) (simp add: object_text_def skip_ws_start is_space_def build_map_def)
next
  case (Cons q ts')
  with assms(1) have "kvs \<noteq> []" by auto
  obtain cs where c: "join_commas (map member_text ts) @ ''}'' @ rest = c_quote # cs"
    by (cases ts') (auto simp: Cons member_text_def quote_string_def)
  have "parse_members d (join_commas (map member_text ts) @ ''}'' @ rest)
      = Some (map (\<lambda>(k, v). (to_valid k, normal_form v)) kvs, rest)"
    using assms \<open>kvs \<noteq> []\<close> by (intro parse_members_marshal) auto
  with c show ?thesis
    by (subst parse_value.simps) (simp add: object_text_def skip_ws_start is_space_def)
qed

lemma those_tag_iff:
  "those (map (\<lambda>(k, v). tag k (f v)) kvs) = Some ts \<longleftrightarrow>
     list_all2 (\<lambda>p q. fst p = fst q \<and> f (snd p) = Some (snd q)) kvs ts"
  unfolding those_map_iff by (rule list.rel_cong) (auto simp: tag_def)

lemma nesting_SucD:
  "nesting (GSlice xs) \<le> d \<Longrightarrow> \<exists>e. d = Suc e \<and> (\<forall>x \<in> set xs. nesting x \<le> e)"
  "nesting (GMap kvs) \<le> d \<Longrightarrow> \<exists>e. d = Suc e \<and> (\<forall>p \<in> set kvs. nesting (snd p) \<le> e)"
  "nesting (GStruct kvs) \<le> d \<Longrightarrow> \<exists>e. d = Suc e \<and> (\<forall>p \<in> set kvs. nesting (snd p) \<le> e)"
  by (cases d; fastforce simp: foldr_max_le)+

lemma normal_form_sorted_members:
  "map (map_prod to_valid id) (sort_key fst (map (\<lambda>(k, v). (k, normal_form v)) kvs))
     = map (\<lambda>(k, v). (to_valid k, normal_form v)) (sort_key fst kvs)"
  by (auto simp: sort_key_map_values)

theorem parse_value_marshal:
  "marshal v = Some t \<Longrightarrow> nesting v \<le> d \<Longrightarrow> stop rest \<Longrightarrow>
     parse_value d (t @ rest) = Some (normal_form v, rest)"
proof (induction v arbitrary: t d rest)
  case (GInt i)
  then show ?case using parse_number [OF valid_number_dec_int] by auto
next
  case (GFloat s)
  then show ?case by (auto simp: parse_number split: if_splits)
next
  case (GNumber s)
  then show ?case using number_text_valid [of s t]
    by (auto simp: parse_number number_text_def split: if_splits)
next
  case (GSlice xs)
  from nesting_SucD(1) [OF GSlice.prems(2)] obtain e where d: "d = Suc e" "\<forall>x \<in> set xs. nesting x \<le> e"
    by blast
  from GSlice.prems(1) obtain ts where ts: "list_all2 (\<lambda>x t. marshal x = Some t) xs ts" "t = array_text ts"
    by (auto simp: those_map_iff)
  show ?case unfolding d(1) ts(2) normal_form.simps
    using GSlice.IH d(2) by (intro parse_array [OF ts(1)]) auto
next
  case (GMap kvs)
  let ?R = "\<lambda>p q. fst p = fst q \<and> marshal (snd p) = Some (snd q)"
  from nesting_SucD(2) [OF GMap.prems(2)] obtain e where d: "d = Suc e" "\<forall>p \<in> set kvs. nesting (snd p) \<le> e"
    by blast
  from GMap.prems(1) obtain ts where ts: "list_all2 ?R kvs ts" "t = object_text (sort_key fst ts)"
    by (auto simp: those_tag_iff)
  from ts(1) have R: "list_all2 ?R (sort_key fst kvs) (sort_key fst ts)"
    by (rule sort_key_all2) auto
  show ?case unfolding d(1) ts(2) normal_form.simps normal_form_sorted_members
    using GMap.IH d(2) by (intro parse_object [OF R]) auto
next
  case (GStruct kvs)
  from nesting_SucD(3) [OF GStruct.prems(2)] obtain e where d: "d = Suc e" "\<forall>p \<in> set kvs. nesting (snd p) \<le> e"
    by blast
  from GStruct.prems(1) obtain ts where
    ts: "list_all2 (\<lambda>p q. fst p = fst q \<and> marshal (snd p) = Some (snd q)) kvs ts" "t = object_text ts"
    by (auto simp: those_tag_iff)
  show ?case unfolding d(1) ts(2) normal_form.simps
    using GStruct.IH d(2) by (intro parse_object [OF ts(1)]) auto
qed (auto simp: parse_literals [simplified] parse_string split: if_splits)

theorem json_decode_marshal:
  assumes "marshal v = Some t" "nesting v \<le> max_nesting_depth"
  shows "json_decode t = Some (normal_form v)"
  using parse_value_marshal [OF assms, of "[]"] by (simp add: json_decode_def)

end
