(* ===== verification/GoNormal.thy ===== *)
theory GoNormal
  imports GoMarshal
begin

text \<open>
  The values a decoder with \<^verbatim>\<open>UseNumber\<close> can return: \<open>normal\<close>.  They are exactly the
  fixed points of \<open>normal_form\<close>, every marshalable value normalises to one, and
  marshalling is injective on them, and every value the decoder returns is one.  These facts carry the storage round trips of the
  backends.
\<close>

fun normal :: "goval \<Rightarrow> bool" where
  "normal GNil = True"
| "normal (GBool b) = True"
| "normal (GNumber s) = valid_number s"
| "normal (GString s) = valid_utf8 s"
| "normal (GSlice xs) = (\<forall>x \<in> set xs. normal x)"
| "normal (GMap kvs) = (sorted_keys kvs \<and> (\<forall>(k, v) \<in> set kvs. valid_utf8 k \<and> normal v))"
| "normal _ = False"

section \<open>Fixed points\<close>

lemma valid_number_nonempty: "valid_number s \<Longrightarrow> s \<noteq> []"
  by (erule valid_number_start) auto

lemma map_values_cong: "(\<And>k v. (k, v) \<in> set kvs \<Longrightarrow> f k v = (k, v)) \<Longrightarrow> map (\<lambda>(k, v). f k v) kvs = kvs"
  by (induction kvs) auto

lemma normal_form_normal: "normal v \<Longrightarrow> normal_form v = v"
proof (induction v)
  case (GNumber s)
  then show ?case by (auto dest: valid_number_nonempty)
next
  case (GString s)
  then show ?case by (simp add: valid_utf8_def)
next
  case (GSlice xs)
  then show ?case by (simp add: map_idI)
next
  case (GMap kvs)
  have s: "sorted_keys kvs" using GMap.prems by simp
  have "map (\<lambda>(k, v). (to_valid k, normal_form v)) kvs = kvs"
    using GMap by (intro map_values_cong) (fastforce simp: valid_utf8_def)
  then have "normal_form (GMap kvs) = GMap (build_map kvs)"
    unfolding normal_form.simps normal_form_sorted_members sort_key_sorted [OF s] by simp
  then show ?case using build_map_sorted [OF s] by simp
qed auto

lemma normal_marshal: "normal v \<Longrightarrow> \<exists>t. marshal v = Some t"
proof (induction v)
  case (GNumber s)
  then show ?case by (simp add: number_text_def)
next
  case (GSlice xs)
  then have "those (map marshal xs) \<noteq> None" by (simp add: those_map_None)
  then show ?case by auto
next
  case (GMap kvs)
  have "\<forall>p \<in> set kvs. marshal (snd p) \<noteq> None"
    using GMap by fastforce
  then have "those (map (\<lambda>(k, v). tag k (marshal v)) kvs) \<noteq> None"
    unfolding those_map_None by (auto simp: tag_def)
  then show ?case by auto
qed auto

section \<open>Normal forms are normal\<close>

lemma build_map_all:
  "(\<forall>(k, v) \<in> set ps. P k v) \<Longrightarrow> (\<forall>(k, v) \<in> set (build_map ps). P k v)"
  using set_build_map [of ps] by blast

lemma normal_build_map:
  assumes "\<And>k v. (k, v) \<in> set kvs \<Longrightarrow> normal (normal_form v)"
  shows "normal (GMap (build_map (map (\<lambda>(k, v). (to_valid k, normal_form v)) kvs)))"
proof -
  have "\<forall>(k, v) \<in> set (map (\<lambda>(k, v). (to_valid k, normal_form v)) kvs). valid_utf8 k \<and> normal v"
    using assms by auto
  from build_map_all [OF this] show ?thesis by simp
qed

lemma marshal_normal: "marshal v = Some t \<Longrightarrow> normal (normal_form v)"
proof (induction v arbitrary: t)
  case (GInt i)
  then show ?case by (auto simp: valid_number_dec_int)
next
  case (GFloat s)
  then show ?case by (simp split: if_splits)
next
  case (GNumber s)
  then show ?case using number_text_valid [of s t]
    by (auto simp: number_text_def split: if_splits)
next
  case (GSlice xs)
  then obtain ts where "list_all2 (\<lambda>x t. marshal x = Some t) xs ts" by (auto simp: those_map_iff)
  then have "\<forall>x \<in> set xs. \<exists>t. marshal x = Some t" by (auto simp: list_all2_conv_all_nth in_set_conv_nth)
  with GSlice.IH show ?case by auto
next
  case (GMap kvs)
  then have "\<And>k v. (k, v) \<in> set kvs \<Longrightarrow> \<exists>t. marshal v = Some t"
    using those_map_None [of "\<lambda>(k, v). tag k (marshal v)" kvs] by (fastforce simp: tag_def)
  then have "\<And>k v. (k, v) \<in> set (sort_key fst kvs) \<Longrightarrow> normal (normal_form v)"
    using GMap.IH by fastforce
  then show ?case unfolding normal_form.simps normal_form_sorted_members
    by (rule normal_build_map)
next
  case (GStruct kvs)
  then have "\<And>k v. (k, v) \<in> set kvs \<Longrightarrow> \<exists>t. marshal v = Some t"
    using those_map_None [of "\<lambda>(k, v). tag k (marshal v)" kvs] by (fastforce simp: tag_def)
  then have "\<And>k v. (k, v) \<in> set kvs \<Longrightarrow> normal (normal_form v)"
    using GStruct.IH by fastforce
  then show ?case unfolding normal_form.simps by (rule normal_build_map)
qed auto

lemma nesting_build_map:
  assumes "\<And>k v. (k, v) \<in> set kvs \<Longrightarrow> nesting (normal_form v) \<le> e"
  shows "nesting (GMap (build_map (map (\<lambda>(k, v). (to_valid k, normal_form v)) kvs))) \<le> Suc e"
proof -
  have "\<forall>(k, v) \<in> set (map (\<lambda>(k, v). (to_valid k, normal_form v)) kvs). nesting v \<le> e"
    using assms by auto
  from build_map_all [OF this] show ?thesis by (auto simp: foldr_max_le)
qed

lemma nesting_normal_form: "nesting v \<le> d \<Longrightarrow> nesting (normal_form v) \<le> d"
proof (induction v arbitrary: d)
  case (GSlice xs)
  from nesting_SucD(1) [OF GSlice.prems] GSlice.IH show ?case by (auto simp: foldr_max_le)
next
  case (GMap kvs)
  from nesting_SucD(2) [OF GMap.prems] obtain e where e: "d = Suc e" "\<forall>p \<in> set kvs. nesting (snd p) \<le> e"
    by blast
  with GMap.IH have "\<And>k v. (k, v) \<in> set (sort_key fst kvs) \<Longrightarrow> nesting (normal_form v) \<le> e"
    by fastforce
  then show ?case unfolding normal_form.simps normal_form_sorted_members e(1)
    by (rule nesting_build_map)
next
  case (GStruct kvs)
  from nesting_SucD(3) [OF GStruct.prems] obtain e where e: "d = Suc e" "\<forall>p \<in> set kvs. nesting (snd p) \<le> e"
    by blast
  with GStruct.IH have "\<And>k v. (k, v) \<in> set kvs \<Longrightarrow> nesting (normal_form v) \<le> e"
    by fastforce
  then show ?case unfolding normal_form.simps e(1) by (rule nesting_build_map)
qed auto

lemma normal_form_idem: "marshal v = Some t \<Longrightarrow> normal_form (normal_form v) = normal_form v"
  by (rule normal_form_normal [OF marshal_normal])

text \<open>Marshalling distinguishes normal values.\<close>

lemma marshal_inj:
  assumes "marshal v = marshal w" "normal v" "normal w"
    and "nesting v \<le> max_nesting_depth" "nesting w \<le> max_nesting_depth"
  shows "v = w"
proof -
  obtain t where t: "marshal v = Some t" using normal_marshal [OF assms(2)] by blast
  have "json_decode t = Some v"
    using json_decode_marshal [OF t assms(4)] assms(2) by (simp add: normal_form_normal)
  moreover have "json_decode t = Some w"
    using json_decode_marshal [of w t] t assms(1,3,5) by (simp add: normal_form_normal)
  ultimately show ?thesis by simp
qed

section \<open>What the decoder returns\<close>

text \<open>A scanned number is a prefix of the input that is a number by itself.\<close>

definition no_digit :: "string \<Rightarrow> bool" where
  "no_digit t \<longleftrightarrow> (\<forall>c cs. t = c # cs \<longrightarrow> \<not> is_digit c)"

lemma takeWhile_no_digit:
  assumes "no_digit t"
  shows "takeWhile is_digit (takeWhile is_digit s @ t) = takeWhile is_digit s"
    and "dropWhile is_digit (takeWhile is_digit s @ t) = t"
proof -
  have "takeWhile is_digit t = []" "dropWhile is_digit t = t"
    using assms by (cases t; simp add: no_digit_def)+
  then show "takeWhile is_digit (takeWhile is_digit s @ t) = takeWhile is_digit s"
    and "dropWhile is_digit (takeWhile is_digit s @ t) = t"
    by (induction s) auto
qed

lemma scan_int_self:
  assumes "scan_int s = Some (a, r)"
  shows "s = a @ r" "a \<noteq> []" "no_digit t \<Longrightarrow> scan_int (a @ t) = Some (a, t)"
  using assms by (cases s; auto split: if_splits simp: takeWhile_no_digit)+

lemma scan_digits_self:
  assumes "scan_digits s = Some (a, r)"
  shows "s = a @ r" "no_digit t \<Longrightarrow> scan_digits (a @ t) = Some (a, t)"
  using assms by (auto simp: scan_digits_def takeWhile_no_digit split: if_splits)

lemma scan_frac_self:
  assumes "scan_frac s = Some (a, r)"
  shows "s = a @ r" "no_digit a"
    "no_digit t \<Longrightarrow> (\<forall>c cs. t = c # cs \<longrightarrow> c \<noteq> CHR ''.'') \<Longrightarrow> scan_frac (a @ t) = Some (a, t)"
proof -
  show "s = a @ r" using assms
    by (cases s) (auto simp: prepend_eq_Some dest: scan_digits_self(1) split: if_splits)
  show "no_digit a" using assms
    by (cases s) (auto simp: prepend_eq_Some no_digit_def is_digit_def split: if_splits)
  show "no_digit t \<Longrightarrow> (\<forall>c cs. t = c # cs \<longrightarrow> c \<noteq> CHR ''.'') \<Longrightarrow> scan_frac (a @ t) = Some (a, t)"
    using assms
    by (cases s; cases t) (auto simp: prepend_eq_Some dest: scan_digits_self(2) split: if_splits)
qed

lemma scan_sign_self: "scan_sign s = (a, r) \<Longrightarrow> s = a @ r"
  by (cases s) (auto split: if_splits)

lemma scan_sign_digits:
  "scan_sign s = (a, r) \<Longrightarrow> scan_digits r = Some (b, r') \<Longrightarrow> scan_sign (a @ b) = (a, b)"
  by (cases s) (auto simp: scan_digits_def is_digit_def split: if_splits)

lemma scan_exp_self:
  assumes "scan_exp s = Some (a, r)"
  shows "s = a @ r" "no_digit a" "a = c # cs \<Longrightarrow> c \<noteq> CHR ''.''" "scan_exp a = Some (a, [])"
proof -
  show "s = a @ r" using assms
    by (cases s)
      (auto simp: prepend_eq_Some split: if_splits prod.splits dest!: scan_digits_self(1) scan_sign_self)
  show "no_digit a" "a = c # cs \<Longrightarrow> c \<noteq> CHR ''.''" using assms
    by (cases s; auto simp: prepend_eq_Some no_digit_def is_digit_def split: if_splits prod.splits)+
  show "scan_exp a = Some (a, [])"
  proof (cases "a = []")
    case False
    with assms obtain c cs sg ds b where s: "s = c # cs" "c = CHR ''e'' \<or> c = CHR ''E''"
      "scan_sign cs = (sg, ds)" "scan_digits ds = Some (b, r)" "a = c # sg @ b"
      by (cases s) (auto simp: prepend_eq_Some split: if_splits prod.splits)
    moreover have "scan_digits b = Some (b, [])"
      using scan_digits_self(2) [OF s(4), of "[]"] by (simp add: no_digit_def)
    ultimately show ?thesis using scan_sign_digits [OF s(3,4)] by (auto simp: prepend_eq_Some)
  qed simp
qed

lemma scan_number_self:
  assumes "scan_number s = Some (a, r)"
  shows "s = a @ r" "valid_number a"
proof -
  obtain m s0 where m: "scan_minus s = (m, s0)" by fastforce
  with assms obtain i s1 f s2 e where
    sc: "scan_int s0 = Some (i, s1)" "scan_frac s1 = Some (f, s2)" "scan_exp s2 = Some (e, r)"
    and a: "a = m @ i @ f @ e"
    by (auto simp: scan_number_def split: option.splits)
  have s: "s = m @ s0" using m by (cases s) (auto split: if_splits)
  show "s = a @ r"
    using s a scan_int_self(1) [OF sc(1)] scan_frac_self(1) [OF sc(2)] scan_exp_self(1) [OF sc(3)]
    by simp
  have nd: "no_digit (f @ e)"
    using scan_frac_self(2) [OF sc(2)] scan_exp_self(2) [OF sc(3)] by (cases f) (auto simp: no_digit_def)
  obtain c cs where i: "i = c # cs" "s0 = c # cs @ s1"
    using scan_int_self(1,2) [OF sc(1)] by (cases i) auto
  have "scan_minus a = (m, i @ f @ e)"
    using m sc(1) unfolding a by (cases s; simp add: i split: if_splits; fastforce)
  moreover have "scan_int (i @ f @ e) = Some (i, f @ e)" by (rule scan_int_self(3) [OF sc(1) nd])
  moreover have "scan_frac (f @ e) = Some (f, e)"
    using scan_exp_self(2,3) [OF sc(3)] by (intro scan_frac_self(3) [OF sc(2)]) auto
  ultimately show "valid_number a"
    using scan_exp_self(4) [OF sc(3)] by (simp add: valid_number_def scan_number_def a)
qed

lemma scan_number_shorter: "scan_number s = Some (a, r) \<Longrightarrow> length r < length s"
  using scan_number_self [of s a r] valid_number_nonempty [of a] by simp

lemma expect_shorter: "expect xs s = Some r \<Longrightarrow> length r \<le> length s"
  by (induction xs s rule: expect.induct) (auto split: if_splits)

text \<open>What the parser returns: a normal value, nested no deeper than allowed, and a shorter rest.\<close>

definition parsed :: "nat \<Rightarrow> goval \<Rightarrow> bool" where
  "parsed d v \<longleftrightarrow> normal v \<and> nesting v \<le> d"

lemma parsed_scalars:
  "parsed d GNil" "parsed d (GBool b)" "valid_number s \<Longrightarrow> parsed d (GNumber s)"
  "valid_utf8 s \<Longrightarrow> parsed d (GString s)"
  by (simp_all add: parsed_def)

lemma parsed_array: "d \<noteq> 0 \<Longrightarrow> \<forall>v \<in> set vs. parsed (d - 1) v \<Longrightarrow> parsed d (GSlice vs)"
  by (cases d) (auto simp: parsed_def foldr_max_le)

lemma parsed_object:
  assumes "d \<noteq> 0" "\<forall>(k, v) \<in> set kvs. valid_utf8 k \<and> parsed (d - 1) v"
  shows "parsed d (GMap (build_map kvs))"
  using assms build_map_all [of kvs "\<lambda>k v. valid_utf8 k \<and> parsed (d - 1) v"]
  by (cases d) (auto simp: parsed_def foldr_max_le)

lemma parse_invariant:
  "parse_value d s = Some (v, r) \<Longrightarrow> length r < length s \<and> parsed d v"
  "parse_elems d s = Some (vs, r) \<Longrightarrow> length r < length s \<and> (\<forall>v \<in> set vs. parsed d v)"
  "parse_members d s = Some (kvs, r) \<Longrightarrow>
     length r < length s \<and> (\<forall>(k, v) \<in> set kvs. valid_utf8 k \<and> parsed d v)"
proof (induction d s and d s and d s arbitrary: v r and vs r and kvs r
    rule: parse_value_parse_elems_parse_members.induct)
  case (1 d s)
  from "1.prems" obtain c cs where c: "skip_ws s = c # cs"
    by (subst (asm) parse_value.simps) (auto split: list.splits)
  note len = skip_ws_Cons_length [OF c]
  consider (obj) "c = CHR ''{''" | (arr) "c = CHR ''[''" | (other) "c \<noteq> CHR ''{''" "c \<noteq> CHR ''[''" by blast
  then show ?case
  proof cases
    case obj
    with "1.prems" c obtain e es where e: "skip_ws cs = e # es" "d \<noteq> 0"
      by (subst (asm) parse_value.simps) (auto split: list.splits if_splits)
    with "1.prems" obj c "1.IH"(1) [OF c obj e(2,1)] len skip_ws_Cons_length [OF e(1)] skip_ws_length [of cs]
    show ?thesis
      by (subst (asm) parse_value.simps)
        (fastforce split: if_splits simp: parsed_object intro!: parsed_object [of d "[]", unfolded build_map_def, simplified])
  next
    case arr
    with "1.prems" c obtain e es where e: "skip_ws cs = e # es" "d \<noteq> 0"
      by (subst (asm) parse_value.simps) (auto split: list.splits if_splits)
    have neq: "c \<noteq> CHR ''{''" using arr by simp
    from "1.prems" arr c "1.IH"(2) [OF c neq arr e(2,1)] e len skip_ws_Cons_length [OF e(1)] skip_ws_length [of cs]
    show ?thesis
      by (subst (asm) parse_value.simps) (fastforce split: if_splits intro!: parsed_array)
  next
    case other
    with "1.prems" c len skip_ws_length [of s] show ?thesis
      by (subst (asm) parse_value.simps)
        (auto simp: parsed_scalars split: if_splits
          dest: unquote_shorter unquote_valid expect_shorter scan_number_self(2) scan_number_shorter)
  qed
next
  case (2 d s)
  from "2.prems" obtain v rest c cs where p: "parse_value d s = Some (v, rest)" "skip_ws rest = c # cs"
    by (subst (asm) parse_elems.simps) (auto split: option.splits list.splits)
  note len = "2.IH"(1) [OF p(1)] skip_ws_Cons_length [OF p(2)]
  show ?case
  proof (cases "c = CHR '']''")
    case True
    with "2.prems" p len show ?thesis by (subst (asm) parse_elems.simps) auto
  next
    case False
    with "2.prems" p obtain us where u: "c = CHR '','' \<and> length cs < length s"
      "parse_elems d cs = Some (us, r)" "vs = v # us"
      by (subst (asm) parse_elems.simps) (auto split: if_splits)
    from "2.IH"(2) [OF p(1) refl p(2) False u(1,2)] len u show ?thesis by auto
  qed
next
  case (3 d s)
  from "3.prems" obtain qs k r1 es v rest c cs where
    p: "skip_ws s = c_quote # qs" "unquote qs = Some (k, r1)" "skip_ws r1 = CHR '':'' # es"
      "length es < length s" "parse_value d es = Some (v, rest)" "skip_ws rest = c # cs"
    by (subst (asm) parse_members.simps) (auto split: option.splits list.splits if_splits)
  have g: "\<not> c_quote \<noteq> c_quote" "\<not> (CHR '':'' \<noteq> CHR '':'' \<or> length s \<le> length es)" using p(4) by auto
  have v: "length rest < length es \<and> parsed d v" by (rule "3.IH"(1) [OF p(1) g(1) p(2) refl p(3) g(2) p(5)])
  note len = v skip_ws_Cons_length [OF p(6)] unquote_valid [OF p(2)] p(4)
  show ?case
  proof (cases "c = CHR ''}''")
    case True
    with "3.prems" p len show ?thesis by (subst (asm) parse_members.simps) auto
  next
    case False
    with "3.prems" p obtain us where u: "c = CHR '','' \<and> length cs < length s"
      "parse_members d cs = Some (us, r)" "kvs = (k, v) # us"
      by (subst (asm) parse_members.simps) (auto split: if_splits)
    from "3.IH"(2) [OF p(1) g(1) p(2) refl p(3) g(2) p(5) refl p(6) False u(1,2)] len u show ?thesis by auto
  qed
qed

lemmas parse_value_shorter = parse_invariant(1) [THEN conjunct1]

theorem json_decode_normal:
  assumes "json_decode s = Some v"
  shows "normal v" "nesting v \<le> max_nesting_depth"
  using assms parse_invariant(1) [of max_nesting_depth s v]
  by (auto simp: json_decode_def parsed_def)

end
