(* ===== verification/GoTime.thy ===== *)
theory GoTime
  imports Prelude
begin

text \<open>
  The part of Go's \<^verbatim>\<open>time\<close> package the program uses.  A \<^verbatim>\<open>time.Time\<close> is an instant,
  in nanoseconds since the zero time (January 1 of the year 1, 00:00:00 UTC), and a
  location, of which only the offset is kept; the monotonic reading plays no role here.
  Instants are unbounded integers: Go's 64-bit seconds overflow some 290 thousand million
  years away from the zero time.

  \<open>format_utc\<close> is \<^verbatim>\<open>Format(time.RFC3339Nano)\<close> of a time in UTC.  \<open>format_utc_inj\<close>: the text
  determines the instant.
\<close>

record gotime =
  ns :: int
  zone :: int

definition zero_time :: gotime where
  "zero_time = \<lparr>ns = 0, zone = 0\<rparr>"

definition IsZero :: "gotime \<Rightarrow> bool" where
  "IsZero t \<longleftrightarrow> ns t = 0"

definition Before :: "gotime \<Rightarrow> gotime \<Rightarrow> bool" where
  "Before t u \<longleftrightarrow> ns t < ns u"

definition After :: "gotime \<Rightarrow> gotime \<Rightarrow> bool" where
  "After t u \<longleftrightarrow> ns u < ns t"

definition UTC :: "gotime \<Rightarrow> gotime" where
  "UTC t = t\<lparr>zone := 0\<rparr>"

definition Millisecond :: int where
  "Millisecond = 1000000"

text \<open>\<^verbatim>\<open>Truncate\<close> rounds down to a multiple of the duration since the zero time.\<close>

definition Truncate :: "int \<Rightarrow> gotime \<Rightarrow> gotime" where
  "Truncate d t = (if d \<le> 0 then t else t\<lparr>ns := ns t - ns t mod d\<rparr>)"

section \<open>The proleptic Gregorian calendar\<close>

text \<open>
  Days are counted from March 1 of the year 0, 306 days before the zero time, so that a
  leap day is the last day of its year; 400 years have 146097 days.
\<close>

definition civil :: "int \<Rightarrow> int \<times> int \<times> int" where
  "civil day =
     (let z = day + 306;
          era = z div 146097; doe = z mod 146097;
          century = min 3 (doe div 36524); r = doe - 36524 * century;
          four = r div 1461; r' = r - 1461 * four;
          one = min 3 (r' div 365); doy = r' - 365 * one;
          mp = (5 * doy + 2) div 153;
          d = doy - (153 * mp + 2) div 5 + 1;
          m = (if mp < 10 then mp + 3 else mp - 9);
          y = 400 * era + 100 * century + 4 * four + one
      in (if m \<le> 2 then y + 1 else y, m, d))"

section \<open>RFC 3339\<close>

definition pad :: "nat \<Rightarrow> string \<Rightarrow> string" where
  "pad w s = replicate (w - length s) (CHR ''0'') @ s"

definition append_int :: "nat \<Rightarrow> int \<Rightarrow> string" where
  "append_int w x = (if x < 0 then CHR ''-'' # pad w (dec_nat (nat (- x))) else pad w (dec_nat (nat x)))"

definition strip_zeros :: "string \<Rightarrow> string" where
  "strip_zeros s = rev (dropWhile (\<lambda>c. c = CHR ''0'') (rev s))"

definition append_nano :: "int \<Rightarrow> string" where
  "append_nano n = (let s = strip_zeros (append_int 9 n) in if s = [] then [] else CHR ''.'' # s)"

definition append_date :: "int \<Rightarrow> string" where
  "append_date day = (case civil day of (y, m, d) \<Rightarrow>
     append_int 4 y @ ''-'' @ append_int 2 m @ ''-'' @ append_int 2 d)"

definition append_clock :: "int \<Rightarrow> string" where
  "append_clock s = append_int 2 (s div 3600) @ '':'' @ append_int 2 (s div 60 mod 60) @ '':''
     @ append_int 2 (s mod 60)"

definition format_utc :: "gotime \<Rightarrow> string" where
  "format_utc t =
     (let s = ns t div 1000000000 in
      append_date (s div 86400) @ ''T'' @ append_clock (s mod 86400)
        @ append_nano (ns t mod 1000000000) @ ''Z'')"

section \<open>Instants\<close>

lemma ns_UTC [simp]: "ns (UTC t) = ns t" and zone_UTC [simp]: "zone (UTC t) = 0"
  by (simp_all add: UTC_def)

lemma format_utc_ns: "ns t = ns u \<Longrightarrow> format_utc t = format_utc u"
  by (simp add: format_utc_def)

lemma ns_Truncate_ms: "ns (Truncate Millisecond t) = Millisecond * (ns t div Millisecond)"
  by (simp add: Truncate_def Millisecond_def minus_mod_eq_mult_div)

lemma Truncate_idem: "ns (Truncate Millisecond (Truncate Millisecond t)) = ns (Truncate Millisecond t)"
  by (simp add: Truncate_def Millisecond_def)

section \<open>The text determines the instant\<close>

definition days_of :: "int \<times> int \<times> int \<Rightarrow> int" where
  "days_of ymd = (case ymd of (y, m, d) \<Rightarrow>
     let y' = (if m \<le> 2 then y - 1 else y);
         mp = (if m \<le> 2 then m + 9 else m - 3);
         yoe = y' mod 400; one = yoe mod 4; four = yoe mod 100 div 4; century = yoe div 100
     in 146097 * (y' div 400) + 36524 * century + 1461 * four + 365 * one
        + (153 * mp + 2) div 5 + d - 1 - 306)"

lemma div_bounds: "0 < b \<Longrightarrow> b * (a div b) \<le> a \<and> a < b * (a div b) + b" for a b :: int
  using mult_div_mod_eq [of b a] pos_mod_bound [of b a] pos_mod_sign [of b a] by linarith

lemma civil_bounds:
  fixes doe :: int
  assumes "0 \<le> doe" "doe < 146097"
  defines "century \<equiv> min 3 (doe div 36524)"
  defines "r \<equiv> doe - 36524 * century"
  defines "four \<equiv> r div 1461"
  defines "r' \<equiv> r - 1461 * four"
  defines "one \<equiv> min 3 (r' div 365)"
  shows "0 \<le> century \<and> century < 4" "0 \<le> four \<and> four < 25" "0 \<le> one \<and> one < 4"
    "0 \<le> r' - 365 * one \<and> r' - 365 * one \<le> 365"
proof -
  have pos: "0 < (36524::int)" "0 < (1461::int)" "0 < (365::int)" by simp_all
  show c: "0 \<le> century \<and> century < 4" using assms(1,2) by (auto simp: century_def pos_imp_zdiv_nonneg_iff)
  have r: "0 \<le> r \<and> r \<le> 36524"
    using assms(1,2) div_bounds [OF pos(1), of doe] unfolding r_def century_def
    by (cases "3 \<le> doe div 36524") (simp_all add: min_def)
  then show "0 \<le> four \<and> four < 25" using div_bounds [OF pos(2), of r] unfolding four_def by linarith
  have r': "0 \<le> r' \<and> r' \<le> 1460" unfolding r'_def four_def using div_bounds [OF pos(2), of r] by linarith
  then show "0 \<le> one \<and> one < 4" unfolding one_def by (simp add: min_def pos_imp_zdiv_nonneg_iff)
  show "0 \<le> r' - 365 * one \<and> r' - 365 * one \<le> 365"
    using r' div_bounds [OF pos(3), of r'] unfolding one_def
    by (cases "3 \<le> r' div 365") (simp_all add: min_def)
qed

lemma year_parts:
  fixes era century four one :: int
  assumes "0 \<le> century \<and> century < 4" "0 \<le> four \<and> four < 25" "0 \<le> one \<and> one < 4"
  defines "y \<equiv> 400 * era + 100 * century + 4 * four + one"
  shows "y div 400 = era" "y mod 400 div 100 = century" "y mod 400 mod 100 div 4 = four" "y mod 400 mod 4 = one"
proof -
  have y: "y = (100 * century + 4 * four + one) + 400 * era" by (simp add: y_def)
  have b: "0 \<le> 100 * century + 4 * four + one" "100 * century + 4 * four + one < 400" using assms by auto
  show "y div 400 = era" unfolding y using b by simp
  have m: "y mod 400 = (4 * four + one) + 100 * century" unfolding y using b by simp
  show "y mod 400 div 100 = century" unfolding m using assms by simp
  have "y mod 400 mod 100 = one + 4 * four" unfolding m using assms by simp
  then show "y mod 400 mod 100 div 4 = four" using assms by simp
  have "y mod 400 = one + 4 * (four + 25 * century)" unfolding m by simp
  then show "y mod 400 mod 4 = one" using assms by (metis mod_mult_self2 mod_pos_pos_trivial)
qed

lemma civil_parts:
  obtains era century four one doy mp y where
    "0 \<le> century \<and> century < 4" "0 \<le> four \<and> four < 25" "0 \<le> one \<and> one < 4" "0 \<le> doy \<and> doy \<le> 365"
    "mp = (5 * doy + 2) div 153" "y = 400 * era + 100 * century + 4 * four + one"
    "day + 306 = 146097 * era + 36524 * century + 1461 * four + 365 * one + doy"
    "civil day = (let m = (if mp < 10 then mp + 3 else mp - 9)
       in (if m \<le> 2 then y + 1 else y, m, doy - (153 * mp + 2) div 5 + 1))"
proof -
  define doe where "doe = (day + 306) mod 146097"
  define era where "era = (day + 306) div 146097"
  define century where "century = min 3 (doe div 36524)"
  define r where "r = doe - 36524 * century"
  define four where "four = r div 1461"
  define r' where "r' = r - 1461 * four"
  define one where "one = min 3 (r' div 365)"
  define doy where "doy = r' - 365 * one"
  define mp where "mp = (5 * doy + 2) div 153"
  define y where "y = 400 * era + 100 * century + 4 * four + one"
  have "0 \<le> doe" "doe < 146097" by (simp_all add: doe_def)
  note b = civil_bounds [OF this, folded century_def, folded r_def, folded four_def,
      folded r'_def, folded one_def, folded doy_def]
  have civ: "civil day =
      (let m = (if mp < 10 then mp + 3 else mp - 9)
       in (if m \<le> 2 then y + 1 else y, m, doy - (153 * mp + 2) div 5 + 1))"
    unfolding civil_def Let_def doe_def [symmetric] era_def [symmetric] century_def [symmetric]
      r_def [symmetric] four_def [symmetric] r'_def [symmetric] one_def [symmetric]
      doy_def [symmetric] mp_def [symmetric] y_def [symmetric] by simp
  have day: "day + 306 = 146097 * era + 36524 * century + 1461 * four + 365 * one + doy"
    using mult_div_mod_eq [of 146097 "day + 306"]
    by (simp add: doy_def r'_def r_def doe_def era_def)
  from that [OF b mp_def y_def day civ] show thesis .
qed

lemma month_index: "0 \<le> doy \<and> doy \<le> 365 \<Longrightarrow> 0 \<le> (5 * doy + 2) div 153 \<and> (5 * doy + 2) div 153 < 12" for doy :: int
  using div_bounds [of 153 "5 * doy + 2"] by simp

lemma days_of_civil: "days_of (civil day) = day"
proof (rule civil_parts [of day])
  fix era century four one doy mp y :: int
  assume b: "0 \<le> century \<and> century < 4" "0 \<le> four \<and> four < 25" "0 \<le> one \<and> one < 4" "0 \<le> doy \<and> doy \<le> 365"
    and mp_def: "mp = (5 * doy + 2) div 153" and y: "y = 400 * era + 100 * century + 4 * four + one"
    and day: "day + 306 = 146097 * era + 36524 * century + 1461 * four + 365 * one + doy"
    and civ: "civil day = (let m = (if mp < 10 then mp + 3 else mp - 9)
       in (if m \<le> 2 then y + 1 else y, m, doy - (153 * mp + 2) div 5 + 1))"
  note yp = year_parts [OF b(1-3), of era, folded y]
  have mp: "0 \<le> mp \<and> mp < 12" using month_index [OF b(4)] by (simp add: mp_def)
  have days: "days_of (y', m, doy - (153 * mp + 2) div 5 + 1) = day"
    if "(if m \<le> 2 then y' - 1 else y') = y" "(if m \<le> 2 then m + 9 else m - 3) = mp" for y' m
    unfolding days_of_def prod.case Let_def that yp using day by linarith
  show ?thesis
    unfolding civ Let_def using mp by (cases "mp < 10") (auto intro!: days)
qed

lemma civil_month_day:
  assumes "civil day = (y, m, d)"
  shows "1 \<le> m \<and> m \<le> 12" "1 \<le> d \<and> d \<le> 31"
proof -
  have "(1 \<le> m \<and> m \<le> 12) \<and> (1 \<le> d \<and> d \<le> 31)"
  proof (rule civil_parts [of day])
    fix doy mp y' :: int
    assume b: "0 \<le> doy \<and> doy \<le> 365" and mp: "mp = (5 * doy + 2) div 153"
      and civ: "civil day = (let m = (if mp < 10 then mp + 3 else mp - 9)
        in (if m \<le> 2 then y' + 1 else y', m, doy - (153 * mp + 2) div 5 + 1))"
    have "m = (if mp < 10 then mp + 3 else mp - 9)" "d = doy - (153 * mp + 2) div 5 + 1"
      using civ assms by (auto simp: Let_def)
    moreover have "0 \<le> mp \<and> mp < 12" using month_index [OF b] by (simp add: mp)
    moreover have "153 * mp \<le> 5 * doy + 2 \<and> 5 * doy + 2 < 153 * mp + 153"
      unfolding mp by (rule div_bounds) simp
    moreover have "5 * ((153 * mp + 2) div 5) \<le> 153 * mp + 2 \<and> 153 * mp + 2 < 5 * ((153 * mp + 2) div 5) + 5"
      by (rule div_bounds) simp
    ultimately show ?thesis by (auto split: if_splits)
  qed
  then show "1 \<le> m \<and> m \<le> 12" "1 \<le> d \<and> d \<le> 31" by auto
qed

lemma civil_inj: "civil a = civil b \<Longrightarrow> a = b"
  by (metis days_of_civil)

definition dec_val :: "string \<Rightarrow> nat" where
  "dec_val s = foldl (\<lambda>a c. 10 * a + (ord c - 48)) 0 s"

lemma dec_val_dec_nat [simp]: "dec_val (dec_nat n) = n"
proof (induction n rule: dec_nat.induct)
  case (1 n)
  then show ?case by (subst dec_nat.simps) (auto simp: dec_val_def)
qed

lemma dec_val_pad [simp]: "dec_val (pad w s) = dec_val s"
proof -
  have "foldl (\<lambda>a c. 10 * a + (ord c - 48)) 0 (replicate k (CHR ''0'')) = 0" for k
    by (induction k) auto
  then show ?thesis by (simp add: dec_val_def pad_def)
qed

lemma set_pad: "set (pad w s) \<subseteq> insert (CHR ''0'') (set s)"
  by (auto simp: pad_def)

lemma append_int_chars: "c \<in> set (append_int w x) \<Longrightarrow> is_digit c \<or> c = CHR ''-''"
  using set_pad by (fastforce simp: append_int_def is_digit_def dest: dec_nat_digits split: if_splits)

lemma append_int_nonneg: "0 \<le> x \<Longrightarrow> append_int w x = pad w (dec_nat (nat x))"
  by (simp add: append_int_def)

lemma append_int_inj: "append_int w x = append_int w y \<Longrightarrow> x = y"
proof -
  assume eq: "append_int w x = append_int w y"
  have "CHR ''-'' \<notin> set (pad w (dec_nat n))" for n
    using set_pad [of w "dec_nat n"] dec_nat_digits [of "CHR ''-''" n] by (auto simp: is_digit_def)
  then have sign: "x < 0 \<longleftrightarrow> y < 0" using eq by (auto simp: append_int_def split: if_splits) (metis list.set_intros(1))+
  then have "pad w (dec_nat (nat \<bar>x\<bar>)) = pad w (dec_nat (nat \<bar>y\<bar>))"
    using eq by (auto simp: append_int_def split: if_splits)
  then have "nat \<bar>x\<bar> = nat \<bar>y\<bar>" by (metis dec_val_pad dec_val_dec_nat)
  with sign show "x = y" by linarith
qed

lemma length_dec_nat: "0 < k \<Longrightarrow> n < 10 ^ k \<Longrightarrow> length (dec_nat n) \<le> k"
proof (induction n arbitrary: k rule: dec_nat.induct)
  case (1 n)
  show ?case
  proof (cases "n < 10")
    case True
    with 1 show ?thesis by (subst dec_nat.simps) simp
  next
    case False
    from False "1.prems" obtain j where k: "k = Suc j" "0 < j" by (cases k; cases "k - 1") auto
    with "1.prems" have "n div 10 < 10 ^ j" by (simp add: less_mult_imp_div_less mult.commute)
    from "1.IH" [OF False k(2) this] False k show ?thesis by (subst dec_nat.simps) simp
  qed
qed

lemma length_append_int:
  assumes "0 < w" "0 \<le> x" "x < 10 ^ w"
  shows "length (append_int w x) = w"
proof -
  have "nat x < 10 ^ w" using assms by (simp add: nat_less_iff)
  with length_dec_nat [OF assms(1) this] assms(2) show ?thesis by (simp add: append_int_nonneg pad_def)
qed

lemma strip_zeros_inj:
  assumes "strip_zeros s = strip_zeros t" "length s = length t"
  shows "s = t"
proof -
  have "s = strip_zeros s @ replicate (length s - length (strip_zeros s)) (CHR ''0'')" for s
  proof -
    have "\<forall>c \<in> set (takeWhile (\<lambda>c. c = CHR ''0'') (rev s)). c = CHR ''0''"
      by (auto dest: set_takeWhileD)
    then have "takeWhile (\<lambda>c. c = CHR ''0'') (rev s)
        = replicate (length (takeWhile (\<lambda>c. c = CHR ''0'') (rev s))) (CHR ''0'')"
      by (simp add: replicate_length_same)
    moreover have "s = strip_zeros s @ rev (takeWhile (\<lambda>c. c = CHR ''0'') (rev s))"
      unfolding strip_zeros_def by (metis rev_append rev_rev_ident takeWhile_dropWhile_id)
    ultimately show ?thesis
      by (metis add_diff_cancel_left' length_append length_rev rev_replicate)
  qed
  with assms show ?thesis by metis
qed

lemma append_nano_inj:
  assumes "append_nano m = append_nano n" "0 \<le> m" "m < 10 ^ 9" "0 \<le> n" "n < 10 ^ 9"
  shows "m = n"
proof -
  have "strip_zeros (append_int 9 m) = strip_zeros (append_int 9 n)"
    using assms(1) by (auto simp: append_nano_def Let_def split: if_splits)
  moreover have "length (append_int 9 m) = length (append_int 9 n)"
    using assms by (simp add: length_append_int)
  ultimately show ?thesis by (metis strip_zeros_inj append_int_inj)
qed

lemma two_digits: "0 \<le> x \<Longrightarrow> x < 100 \<Longrightarrow> length (append_int 2 x) = 2"
  by (simp add: length_append_int)

lemma append_date_inj: "append_date a = append_date b \<Longrightarrow> a = b"
proof -
  assume eq: "append_date a = append_date b"
  obtain y m d where a: "civil a = (y, m, d)" by (cases "civil a")
  obtain y' m' d' where b: "civil b = (y', m', d')" by (cases "civil b")
  have "length (append_int 2 m) = 2" "length (append_int 2 d) = 2"
    "length (append_int 2 m') = 2" "length (append_int 2 d') = 2"
    using civil_month_day [OF a] civil_month_day [OF b] by (simp_all add: two_digits)
  with eq have "append_int 4 y = append_int 4 y'" "append_int 2 m = append_int 2 m'"
    "append_int 2 d = append_int 2 d'"
    by (auto simp: append_date_def a b append_eq_append_conv)
  then have "civil a = civil b" unfolding a b by (auto dest: append_int_inj)
  then show ?thesis by (rule civil_inj)
qed

lemma clock_parts:
  fixes s :: int
  assumes "0 \<le> s" "s < 86400"
  shows "0 \<le> s div 3600 \<and> s div 3600 < 24" "0 \<le> s div 60 mod 60 \<and> s div 60 mod 60 < 60"
    "s = 3600 * (s div 3600) + 60 * (s div 60 mod 60) + s mod 60"
proof -
  have "s div 60 div 60 = s div 3600" by (simp add: zdiv_zmult2_eq [symmetric])
  then show "s = 3600 * (s div 3600) + 60 * (s div 60 mod 60) + s mod 60"
    using mult_div_mod_eq [of 60 s] mult_div_mod_eq [of 60 "s div 60"] by linarith
  show "0 \<le> s div 3600 \<and> s div 3600 < 24"
    using div_bounds [of 3600 s] assms by simp
qed simp

lemma append_clock_shape:
  assumes "0 \<le> s" "s < 86400"
  shows "length (append_clock s) = 8"
  using clock_parts [OF assms] by (simp add: append_clock_def two_digits)

lemma append_clock_inj:
  assumes "append_clock s = append_clock t" "0 \<le> s" "s < 86400" "0 \<le> t" "t < 86400"
  shows "s = t"
proof -
  note s = clock_parts [OF assms(2,3)] and t = clock_parts [OF assms(4,5)]
  have "append_int 2 (s div 3600) = append_int 2 (t div 3600)"
    "append_int 2 (s div 60 mod 60) = append_int 2 (t div 60 mod 60)"
    "append_int 2 (s mod 60) = append_int 2 (t mod 60)"
    using assms(1) s(1,2) t(1,2) by (auto simp: append_clock_def append_eq_append_conv two_digits)
  then have "s div 3600 = t div 3600" "s div 60 mod 60 = t div 60 mod 60" "s mod 60 = t mod 60"
    by (auto dest: append_int_inj)
  then show ?thesis using s(3) t(3) by linarith
qed

lemma append_date_no_T: "CHR ''T'' \<notin> set (append_date a)"
  by (cases "civil a") (auto simp: append_date_def is_digit_def dest!: append_int_chars)

lemma split_at_char:
  assumes "xs @ c # ys = xs' @ c # ys'" "c \<notin> set xs" "c \<notin> set xs'"
  shows "xs = xs'" "ys = ys'"
  using assms by (auto simp: append_eq_append_conv2 Cons_eq_append_conv append_eq_Cons_conv)

theorem format_utc_inj:
  assumes "format_utc t = format_utc u"
  shows "ns t = ns u"
proof -
  let ?s = "ns t div 1000000000" and ?r = "ns u div 1000000000"
  note T = split_at_char [OF assms [unfolded format_utc_def Let_def, simplified]
      append_date_no_T append_date_no_T]
  have "?s div 86400 = ?r div 86400" using T(1) by (rule append_date_inj)
  have c: "append_clock (?s mod 86400) = append_clock (?r mod 86400)"
    "append_nano (ns t mod 1000000000) = append_nano (ns u mod 1000000000)"
    using T(2) by (simp_all add: append_clock_shape)
  from c(1) have "?s mod 86400 = ?r mod 86400" by (rule append_clock_inj) simp_all
  with \<open>?s div 86400 = ?r div 86400\<close> have "?s = ?r" by (metis div_mult_mod_eq)
  moreover from c(2) have "ns t mod 1000000000 = ns u mod 1000000000" by (rule append_nano_inj) simp_all
  ultimately show ?thesis by (metis div_mult_mod_eq)
qed

end
