(* ===== verification/AuditTypes.thy ===== *)
theory AuditTypes
  imports Errors GoNormal GoTime
begin

text \<open>
  \<^verbatim>\<open>audit.go\<close>: the genesis hash, the audit event with its validation, the query filter
  and the outcome of a verification.  A nil interface as payload is \<^const>\<open>GNil\<close>; the zero
  event is \<open>zero_event\<close>.
\<close>

definition GenesisPrevHash :: string where
  "GenesisPrevHash = replicate 64 (CHR ''0'')"

record AuditEvent =
  ChainID :: string
  ID :: EntryID
  ActorID :: string
  EntityType :: string
  EntityID :: string
  Action :: string
  Payload :: goval
  Timestamp :: gotime
  Hash :: string
  PrevHash :: string

record QueryFilter =
  fChainID :: string
  fActorID :: string
  fEntityType :: string
  fEntityID :: string
  fFrom :: gotime
  fTo :: gotime
  fLimit :: int

record VerifyResult =
  Valid :: bool
  Empty :: bool
  BrokenAt :: EntryID
  Expected :: string
  Actual :: string

text \<open>The zero values of the two result types, and the results the code builds from them.\<close>

definition zero_event :: AuditEvent where
  "zero_event = \<lparr>ChainID = [], ID = 0, ActorID = [], EntityType = [], EntityID = [], Action = [],
     Payload = GNil, Timestamp = zero_time, Hash = [], PrevHash = []\<rparr>"

definition zero_VerifyResult :: VerifyResult where
  "zero_VerifyResult = \<lparr>Valid = False, Empty = False, BrokenAt = 0, Expected = [], Actual = []\<rparr>"

definition verify_ok :: VerifyResult where
  "verify_ok = zero_VerifyResult\<lparr>Valid := True\<rparr>"

definition verify_empty :: VerifyResult where
  "verify_empty = zero_VerifyResult\<lparr>Valid := True, Empty := True\<rparr>"

definition verify_broken :: "EntryID \<Rightarrow> string \<Rightarrow> string \<Rightarrow> VerifyResult" where
  "verify_broken i expct act = zero_VerifyResult\<lparr>BrokenAt := i, Expected := expct, Actual := act\<rparr>"

section \<open>AuditEvent.Validate\<close>

definition required :: "string \<Rightarrow> goerror" where
  "required msg = Errorf msg [Sentinel ErrInvalidEvent]"

definition Validate :: "AuditEvent \<Rightarrow> unit result" where
  "Validate e =
     (if ChainID e = [] then Inl (Errorf ''ChainID is required'' [Sentinel ErrInvalidEvent, Sentinel ErrChainIDRequired])
      else if ActorID e = [] then Inl (required ''ActorID is required'')
      else if EntityType e = [] then Inl (required ''EntityType is required'')
      else if EntityID e = [] then Inl (required ''EntityID is required'')
      else if Action e = [] then Inl (required ''Action is required'')
      else if Payload e \<noteq> GNil \<and> marshal (Payload e) = None
        then Inl (required ''Payload is not JSON-serializable'')
      else Inr ())"

text \<open>What a valid event is, independently of the order in which the fields are checked.\<close>

definition recordable :: "AuditEvent \<Rightarrow> bool" where
  "recordable e \<longleftrightarrow> ChainID e \<noteq> [] \<and> ActorID e \<noteq> [] \<and> EntityType e \<noteq> [] \<and> EntityID e \<noteq> []
     \<and> Action e \<noteq> [] \<and> marshal (Payload e) \<noteq> None"

lemma Validate_ok_iff: "Validate e = Inr () \<longleftrightarrow> recordable e"
  by (auto simp: Validate_def recordable_def)

lemma Validate_error:
  assumes "Validate e = Inl err"
  shows "errors_Is err ErrInvalidEvent" "errors_Is err ErrChainIDRequired \<longleftrightarrow> ChainID e = []"
    "errors_Is err s \<Longrightarrow> s = ErrInvalidEvent \<or> s = ErrChainIDRequired"
  using assms by (auto simp: Validate_def required_def split: if_splits)

lemma length_GenesisPrevHash [simp]: "length GenesisPrevHash = 64"
  by (simp add: GenesisPrevHash_def)

section \<open>A sample event\<close>

text \<open>Used by the witnesses: an event of one tenant with no payload, at 2024-02-29T12:34:56.789Z.\<close>

definition sample_time :: gotime where
  "sample_time = \<lparr>ns = 63844806896789000000, zone = 0\<rparr>"

definition sample_event :: AuditEvent where
  "sample_event = zero_event\<lparr>ChainID := ''tenant-1'', ActorID := ''alice'', EntityType := ''user'',
     EntityID := ''42'', Action := ''update'', Timestamp := sample_time\<rparr>"

lemma sample_event_simps [event_simps]:
  "ChainID sample_event = ''tenant-1''" "ActorID sample_event = ''alice''" "EntityType sample_event = ''user''"
  "EntityID sample_event = ''42''" "Action sample_event = ''update''" "Payload sample_event = GNil"
  "Timestamp sample_event = sample_time" "IsZero sample_time = False"
  by (simp_all add: sample_event_def zero_event_def sample_time_def IsZero_def)

lemma sample_event_valid [event_simps]: "Validate sample_event = Inr ()"
  by (simp add: Validate_ok_iff recordable_def event_simps)

end
