(* ===== verification/GoSha256.thy ===== *)
theory GoSha256
  imports Prelude
begin

text \<open>
  \<^verbatim>\<open>crypto/sha256\<close> and \<^verbatim>\<open>encoding/hex\<close> as \<^verbatim>\<open>hash.go\<close> uses them.  \<open>sha256\<close> is the FIPS 180-4
  function on 32-bit words with wrap-around addition: the padded message is read as
  big-endian words and compressed block by block.  The lemmas give the shape of the
  digest (32 bytes) and of its hexadecimal text (64 lower-case digits), and that the
  text determines the digest.
\<close>

unbundle bit_operations_syntax

type_synonym sha_state = "u32 \<times> u32 \<times> u32 \<times> u32 \<times> u32 \<times> u32 \<times> u32 \<times> u32"

definition rotr32 :: "nat \<Rightarrow> u32 \<Rightarrow> u32" where
  "rotr32 n x = drop_bit n x OR push_bit (32 - n) x"

text \<open>The round constants, eight to a row, the first in the most significant position.\<close>

definition sha_K_rows :: "int list" where
  "sha_K_rows = [
    0x428a2f9871374491b5c0fbcfe9b5dba53956c25b59f111f1923f82a4ab1c5ed5,
    0xd807aa9812835b01243185be550c7dc372be5d7480deb1fe9bdc06a7c19bf174,
    0xe49b69c1efbe47860fc19dc6240ca1cc2de92c6f4a7484aa5cb0a9dc76f988da,
    0x983e5152a831c66db00327c8bf597fc7c6e00bf3d5a7914706ca635114292967,
    0x27b70a852e1b21384d2c6dfc53380d13650a7354766a0abb81c2c92e92722c85,
    0xa2bfe8a1a81a664bc24b8b70c76c51a3d192e819d6990624f40e3585106aa070,
    0x19a4c1161e376c082748774c34b0bcb5391c0cb34ed8aa4a5b9cca4f682e6ff3,
    0x748f82ee78a5636f84c878148cc7020890befffaa4506cebbef9a3f7c67178f2]"

definition row_words :: "int \<Rightarrow> u32 list" where
  "row_words r = map (\<lambda>i. word_of_int (r div 2 ^ (32 * i))) [7, 6, 5, 4, 3, 2, 1, 0]"

definition sha_K :: "u32 list" where
  "sha_K = concat (map row_words sha_K_rows)"

definition sha_init :: sha_state where
  "sha_init = (0x6a09e667, 0xbb67ae85, 0x3c6ef372, 0xa54ff53a,
               0x510e527f, 0x9b05688c, 0x1f83d9ab, 0x5be0cd19)"

fun sha_round :: "u32 \<Rightarrow> u32 \<Rightarrow> sha_state \<Rightarrow> sha_state" where
  "sha_round k w (a, b, c, d, e, f, g, h) =
     (let t1 = h + (rotr32 6 e XOR rotr32 11 e XOR rotr32 25 e)
                 + ((e AND f) XOR (NOT e AND g)) + k + w;
          t2 = (rotr32 2 a XOR rotr32 13 a XOR rotr32 22 a)
                 + ((a AND b) XOR (a AND c) XOR (b AND c))
      in (t1 + t2, a, b, c, d + t1, e, f, g))"

fun sha_window :: "u32 list \<Rightarrow> u32 list" where
  "sha_window [] = []"
| "sha_window (w0 # ws) =
     (let w1 = ws ! 0; w14 = ws ! 13 in
      ws @ [(rotr32 17 w14 XOR rotr32 19 w14 XOR drop_bit 10 w14) + ws ! 8
            + (rotr32 7 w1 XOR rotr32 18 w1 XOR drop_bit 3 w1) + w0])"

fun sha_rounds :: "u32 list \<Rightarrow> u32 list \<Rightarrow> sha_state \<Rightarrow> sha_state" where
  "sha_rounds [] ws s = s"
| "sha_rounds (k # ks) ws s =
     sha_rounds ks (sha_window ws) (sha_round k (hd ws) s)"

fun sha_add :: "sha_state \<Rightarrow> sha_state \<Rightarrow> sha_state" where
  "sha_add (a, b, c, d, e, f, g, h) (a', b', c', d', e', f', g', h') =
     (a + a', b + b', c + c', d + d', e + e', f + f', g + g', h + h')"

fun sha_words :: "int list \<Rightarrow> u32 list" where
  "sha_words (a # b # c # d # bs) =
     (push_bit 24 (of_int a) OR push_bit 16 (of_int b) OR push_bit 8 (of_int c) OR of_int d) # sha_words bs"
| "sha_words _ = []"

fun be_bytes :: "nat \<Rightarrow> int \<Rightarrow> int list" where
  "be_bytes 0 x = []"
| "be_bytes (Suc n) x = be_bytes n (x div 256) @ [x mod 256]"

definition sha_pad :: "int list \<Rightarrow> int list" where
  "sha_pad m = m @ [128] @ replicate ((119 - length m mod 64) mod 64) 0 @ be_bytes 8 (8 * int (length m))"

function sha_blocks :: "u32 list \<Rightarrow> sha_state \<Rightarrow> sha_state" where
  "sha_blocks ws s =
     (if length ws < 16 then s
      else sha_blocks (drop 16 ws) (sha_add s (sha_rounds sha_K (take 16 ws) s)))"
  by pat_completeness auto
termination by (relation "measure (\<lambda>(ws, s). length ws)") auto

fun sha_out :: "sha_state \<Rightarrow> u32 list" where
  "sha_out (a, b, c, d, e, f, g, h) = [a, b, c, d, e, f, g, h]"

definition sha256 :: "string \<Rightarrow> int list" where
  "sha256 m = concat (map (\<lambda>w. be_bytes 4 (uint w))
     (sha_out (sha_blocks (sha_words (sha_pad (map of_char m))) sha_init)))"

declare sha_blocks.simps [simp del]

section \<open>Hexadecimal text\<close>

definition hex_digit :: "int \<Rightarrow> char" where
  "hex_digit n = ''0123456789abcdef'' ! nat n"

definition hex_encode :: "int list \<Rightarrow> string" where
  "hex_encode bs = concat (map (\<lambda>b. [hex_digit (b div 16), hex_digit (b mod 16)]) bs)"

definition is_byte :: "int \<Rightarrow> bool" where
  "is_byte b \<longleftrightarrow> 0 \<le> b \<and> b < 256"

section \<open>The shape of the digest\<close>

lemma length_be_bytes [simp]: "length (be_bytes n x) = n"
  by (induction n arbitrary: x) auto

lemma be_bytes_byte: "b \<in> set (be_bytes n x) \<Longrightarrow> is_byte b"
  by (induction n arbitrary: x) (auto simp: is_byte_def)

lemma length_sha256 [simp]: "length (sha256 m) = 32"
proof -
  have "length (sha_out s) = 8" for s by (cases s rule: sha_out.cases) simp
  then show ?thesis by (simp add: sha256_def length_concat comp_def sum_list_triv)
qed

lemma sha256_bytes: "b \<in> set (sha256 m) \<Longrightarrow> is_byte b"
  by (auto simp: sha256_def dest: be_bytes_byte)

section \<open>The text of a digest\<close>

definition is_hex_digit :: "char \<Rightarrow> bool" where
  "is_hex_digit c \<longleftrightarrow> c \<in> set ''0123456789abcdef''"

lemma is_hex_digit_hex_digit: "0 \<le> n \<Longrightarrow> n < 16 \<Longrightarrow> is_hex_digit (hex_digit n)"
  unfolding is_hex_digit_def hex_digit_def by (rule nth_mem) simp

lemma hex_digit_inj: "0 \<le> m \<Longrightarrow> m < 16 \<Longrightarrow> 0 \<le> n \<Longrightarrow> n < 16 \<Longrightarrow> hex_digit m = hex_digit n \<Longrightarrow> m = n"
  unfolding hex_digit_def by (subst (asm) nth_eq_iff_index_eq) (auto)

lemma hex_encode_simps [simp]:
  "hex_encode [] = []"
  "hex_encode (b # bs) = hex_digit (b div 16) # hex_digit (b mod 16) # hex_encode bs"
  by (simp_all add: hex_encode_def)

lemma hex_encode_digits: "\<forall>b \<in> set bs. is_byte b \<Longrightarrow> c \<in> set (hex_encode bs) \<Longrightarrow> is_hex_digit c"
  by (induction bs) (auto simp: is_byte_def is_hex_digit_hex_digit)

lemma is_byte_hex_inj:
  assumes "is_byte a" "is_byte b" "hex_digit (a div 16) = hex_digit (b div 16)"
    "hex_digit (a mod 16) = hex_digit (b mod 16)"
  shows "a = b"
proof -
  have "a div 16 = b div 16" "a mod 16 = b mod 16"
    using assms by (auto simp: is_byte_def intro!: hex_digit_inj)
  then show ?thesis by (metis div_mult_mod_eq)
qed

lemma hex_encode_inj:
  "\<forall>b \<in> set bs. is_byte b \<Longrightarrow> \<forall>b \<in> set cs. is_byte b \<Longrightarrow> hex_encode bs = hex_encode cs \<Longrightarrow> bs = cs"
proof (induction bs arbitrary: cs)
  case Nil
  then show ?case by (cases cs) auto
next
  case (Cons b bs)
  then show ?case by (cases cs) (auto dest: is_byte_hex_inj)
qed

lemma hex_sha256_inj: "hex_encode (sha256 m) = hex_encode (sha256 n) \<Longrightarrow> sha256 m = sha256 n"
  by (rule hex_encode_inj) (auto dest: sha256_bytes)

lemma length_hex_encode [simp]: "length (hex_encode bs) = 2 * length bs"
  by (induction bs) auto

end
