(* ===== verification/ChainHash.thy ===== *)
theory ChainHash
  imports AuditTypes GoSha256
begin

text \<open>
  \<^verbatim>\<open>hash.go\<close>: the canonical JSON text of a payload, its storage form, and the hash of an
  entry.  \<open>canonicalJSON_char\<close> reduces the canonical text to \<open>marshal\<close> of the decoded value;
  \<open>DecodeStoredPayload_marshalPayload\<close> and \<open>canonicalJSON_normal_form\<close> are the round trip
  a stored payload goes through between \<^verbatim>\<open>Record\<close> and \<^verbatim>\<open>Verify\<close>.  \<open>entry_hash\<close> is
  \<^verbatim>\<open>ComputeHash\<close> applied to the fields of an event, as every backend calls it.
\<close>

section \<open>Canonical JSON\<close>

text \<open>The keys of a map are sorted and written with their values; any error ends the walk.\<close>

fun encodeCanonical :: "goval \<Rightarrow> string result" where
  "encodeCanonical (GMap kvs) =
     map_result object_text
       (collect (map (\<lambda>(k, r). map_result (Pair k) r)
         (sort_key fst (map (\<lambda>(k, v). (k, encodeCanonical v)) kvs))))"
| "encodeCanonical (GSlice xs) = map_result array_text (collect (map encodeCanonical xs))"
| "encodeCanonical (GNumber s) = Inr s"
| "encodeCanonical (GString s) = Inr (quote_string s)"
| "encodeCanonical (GBool b) = Inr (if b then ''true'' else ''false'')"
| "encodeCanonical GNil = Inr ''null''"
| "encodeCanonical _ = Inl (Errorf ''canonicalJSON: unsupported normalized type'' [])"

definition canonicalJSON :: "goval \<Rightarrow> string result" where
  "canonicalJSON v =
     (if v = GNil then Inr ''null''
      else case marshal v of
        None \<Rightarrow> Inl (Errorf ''canonicalJSON: marshal'' [Native ''json''])
      | Some raw \<Rightarrow>
          (case json_decode raw of
             None \<Rightarrow> Inl (Errorf ''canonicalJSON: normalize'' [Native ''json''])
           | Some normalized \<Rightarrow> encodeCanonical normalized))"

section \<open>Stored payloads\<close>

definition marshalPayload :: "goval \<Rightarrow> string result" where
  "marshalPayload payload =
     (if payload = GNil then Inr []
      else case marshal payload of
        None \<Rightarrow> Inl (Errorf ''payload is not JSON-serializable'' [Sentinel ErrInvalidEvent])
      | Some raw \<Rightarrow> Inr raw)"

definition DecodeStoredPayload :: "string \<Rightarrow> goval result" where
  "DecodeStoredPayload raw =
     (if raw = [] then Inr GNil
      else case json_decode raw of
        None \<Rightarrow> Inl (Errorf ''graudit: decode stored payload'' [Native ''json''])
      | Some v \<Rightarrow> Inr v)"

section \<open>ComputeHash\<close>

definition timestamp_text :: "gotime \<Rightarrow> string" where
  "timestamp_text t = format_utc (Truncate Millisecond (UTC t))"

text \<open>The bytes written to the buffer, in the order of the writes.\<close>

definition hash_preimage ::
  "string \<Rightarrow> EntryID \<Rightarrow> string \<Rightarrow> string \<Rightarrow> string \<Rightarrow> string \<Rightarrow> string \<Rightarrow> gotime \<Rightarrow> string \<Rightarrow> string" where
  "hash_preimage chainID entryID actorID entityType entityID action canon timestamp prevHash =
     chainID @ dec_nat (unat entryID) @ actorID @ entityType @ entityID @ action @ canon
       @ timestamp_text timestamp @ prevHash"

definition ComputeHash ::
  "string \<Rightarrow> EntryID \<Rightarrow> string \<Rightarrow> string \<Rightarrow> string \<Rightarrow> string \<Rightarrow> goval \<Rightarrow> gotime \<Rightarrow> string \<Rightarrow> string result" where
  "ComputeHash chainID entryID actorID entityType entityID action payload timestamp prevHash =
     (case canonicalJSON payload of
        Inl e \<Rightarrow> Inl (Errorf ''graudit: compute hash'' [e])
      | Inr canon \<Rightarrow>
          Inr (hex_encode (sha256
            (hash_preimage chainID entryID actorID entityType entityID action canon timestamp prevHash))))"

definition entry_hash :: "AuditEvent \<Rightarrow> string result" where
  "entry_hash e = ComputeHash (ChainID e) (ID e) (ActorID e) (EntityType e) (EntityID e) (Action e)
     (Payload e) (Timestamp e) (PrevHash e)"

section \<open>Canonical text of decoded values\<close>

lemma encodeCanonical_normal:
  "normal v \<Longrightarrow> marshal v = Some t \<Longrightarrow> encodeCanonical v = Inr t"
proof (induction v arbitrary: t)
  case (GNumber s)
  then show ?case by (auto simp: number_text_def split: if_splits dest: valid_number_nonempty)
next
  case (GSlice xs)
  then obtain ts where ts: "list_all2 (\<lambda>x t. marshal x = Some t) xs ts" "t = array_text ts"
    by (auto simp: those_map_iff)
  from ts(1) have "list_all2 (\<lambda>x t. encodeCanonical x = Inr t) xs ts"
    by (rule list.rel_mono_strong) (use GSlice in auto)
  then show ?case by (simp add: collect_map_Inr ts(2))
next
  case (GMap kvs)
  let ?R = "\<lambda>p q. fst p = fst q \<and> encodeCanonical (snd p) = Inr (snd q)"
  obtain ts where ts: "list_all2 (\<lambda>p q. fst p = fst q \<and> marshal (snd p) = Some (snd q)) kvs ts"
    "t = object_text (sort_key fst ts)"
    using GMap.prems(2) by (auto simp: those_tag_iff)
  from ts(1) have "list_all2 ?R kvs ts"
    by (rule list.rel_mono_strong) (use GMap in fastforce)
  then have "list_all2 (\<lambda>p q. fst p = fst q \<and> snd p = Inr (snd q))
      (map (\<lambda>(k, v). (k, encodeCanonical v)) kvs) ts"
    by (auto simp: list_all2_map1 case_prod_beta)
  then have "list_all2 (\<lambda>p q. fst p = fst q \<and> snd p = Inr (snd q))
      (sort_key fst (map (\<lambda>(k, v). (k, encodeCanonical v)) kvs)) (sort_key fst ts)"
    by (rule sort_key_all2) auto
  then have "list_all2 (\<lambda>p q. (case p of (k, r) \<Rightarrow> map_result (Pair k) r) = Inr q)
      (sort_key fst (map (\<lambda>(k, v). (k, encodeCanonical v)) kvs)) (sort_key fst ts)"
    by (rule list_all2_mono) (auto simp: case_prod_beta)
  then show ?case by (simp add: collect_map_Inr ts(2))
qed auto

lemma canonicalJSON_char:
  assumes "marshal v = Some t" "nesting v \<le> max_nesting_depth"
  shows "canonicalJSON v = Inr (the (marshal (normal_form v)))"
proof -
  obtain u where u: "marshal (normal_form v) = Some u"
    using normal_marshal [OF marshal_normal [OF assms(1)]] by blast
  have "encodeCanonical (normal_form v) = Inr u"
    by (rule encodeCanonical_normal [OF marshal_normal [OF assms(1)] u])
  then show ?thesis using u assms json_decode_marshal [OF assms] by (auto simp: canonicalJSON_def)
qed

lemma canonicalJSON_Inr_iff:
  "canonicalJSON v = Inr t \<longleftrightarrow>
     (\<exists>raw w. marshal v = Some raw \<and> json_decode raw = Some w \<and> marshal w = Some t)"
proof -
  have dec: "json_decode ''null'' = Some GNil"
    using json_decode_marshal [of GNil "''null''"] by simp
  have enc: "encodeCanonical w = Inr t \<longleftrightarrow> marshal w = Some t" if "json_decode raw = Some w" for raw w
  proof -
    note n = json_decode_normal(1) [OF that]
    obtain u where "marshal w = Some u" using normal_marshal [OF n] by blast
    with encodeCanonical_normal [OF n this] show ?thesis by simp
  qed
  show ?thesis
    by (cases "v = GNil") (auto simp: canonicalJSON_def dec enc split: option.splits)
qed

lemma canonicalJSON_normal:
  assumes "normal v" "nesting v \<le> max_nesting_depth" "marshal v = Some t"
  shows "canonicalJSON v = Inr t"
  using canonicalJSON_char [OF assms(3,2)] assms by (simp add: normal_form_normal)

text \<open>The canonical text of a value is the canonical text of what the decoder reads back.\<close>

lemma canonicalJSON_decoded:
  assumes "canonicalJSON v = Inr t" "marshal v = Some raw" "json_decode raw = Some w"
  shows "canonicalJSON w = Inr t"
proof -
  have "marshal w = Some t" using assms by (auto simp: canonicalJSON_Inr_iff)
  with json_decode_normal [OF assms(3)] show ?thesis by (intro canonicalJSON_normal)
qed

lemma canonicalJSON_normal_form:
  assumes "marshal v = Some raw" "nesting v \<le> max_nesting_depth"
  shows "canonicalJSON (normal_form v) = canonicalJSON v"
  using canonicalJSON_decoded [OF canonicalJSON_char [OF assms] assms(1) json_decode_marshal [OF assms]]
    canonicalJSON_char [OF assms] by simp

lemma marshal_nonempty: "marshal v = Some t \<Longrightarrow> t \<noteq> []"
  by (drule marshal_start) (auto simp: starts_value_def)

lemma marshalPayload_Inr:
  "marshalPayload v = Inr raw \<longleftrightarrow> (if v = GNil then raw = [] else marshal v = Some raw)"
  by (auto simp: marshalPayload_def split: option.splits)

lemma marshalPayload_error: "marshalPayload v = Inl e \<Longrightarrow> errors_Is e ErrInvalidEvent \<and> marshal v = None"
  by (auto simp: marshalPayload_def split: option.splits if_splits)

lemma DecodeStoredPayload_marshalPayload:
  assumes "marshalPayload v = Inr raw" "nesting v \<le> max_nesting_depth"
  shows "DecodeStoredPayload raw = Inr (normal_form v)"
  using assms json_decode_marshal [of v raw]
  by (auto simp: marshalPayload_Inr DecodeStoredPayload_def dest: marshal_nonempty split: if_splits)

lemma DecodeStoredPayload_normal:
  "DecodeStoredPayload raw = Inr v \<Longrightarrow> normal v \<and> nesting v \<le> max_nesting_depth"
  using json_decode_normal
  by (auto simp: DecodeStoredPayload_def split: if_splits option.splits)

lemma stored_canonical:
  assumes "marshalPayload v = Inr raw" "canonicalJSON v = Inr t"
  obtains w where "DecodeStoredPayload raw = Inr w" "canonicalJSON w = Inr t"
proof (cases "v = GNil")
  case True
  with assms that [of GNil] show thesis by (simp add: marshalPayload_Inr DecodeStoredPayload_def)
next
  case False
  with assms obtain w where m: "marshal v = Some raw" "json_decode raw = Some w"
    by (auto simp: marshalPayload_Inr canonicalJSON_Inr_iff)
  with that [of w] canonicalJSON_decoded [OF assms(2) m] show thesis
    by (auto simp: DecodeStoredPayload_def dest: marshal_nonempty)
qed

section \<open>Shape and dependencies of the hash\<close>

lemma timestamp_text_iff:
  "timestamp_text t = timestamp_text u \<longleftrightarrow> ns t div Millisecond = ns u div Millisecond"
proof -
  have "timestamp_text t = timestamp_text u \<longleftrightarrow>
      ns (Truncate Millisecond (UTC t)) = ns (Truncate Millisecond (UTC u))"
    unfolding timestamp_text_def using format_utc_inj format_utc_ns by blast
  also have "\<dots> \<longleftrightarrow> ns t div Millisecond = ns u div Millisecond"
    unfolding ns_Truncate_ms ns_UTC by (simp add: Millisecond_def)
  finally show ?thesis .
qed

definition entry_preimage :: "AuditEvent \<Rightarrow> string result" where
  "entry_preimage e = map_result
     (\<lambda>canon. hash_preimage (ChainID e) (ID e) (ActorID e) (EntityType e) (EntityID e) (Action e) canon
        (Timestamp e) (PrevHash e)) (canonicalJSON (Payload e))"

definition sha_collision :: "string \<Rightarrow> string \<Rightarrow> bool" where
  "sha_collision x y \<longleftrightarrow> x \<noteq> y \<and> sha256 x = sha256 y"

lemma entry_hash_Inr_iff:
  "entry_hash e = Inr h \<longleftrightarrow> (\<exists>x. entry_preimage e = Inr x \<and> h = hex_encode (sha256 x))"
  by (auto simp: entry_hash_def ComputeHash_def entry_preimage_def map_result_def split: sum.splits)

lemma entry_hash_hex:
  "entry_hash e = Inr h \<Longrightarrow> length h = 64 \<and> (\<forall>c \<in> set h. is_hex_digit c)"
  by (auto simp: entry_hash_Inr_iff intro: hex_encode_digits dest: sha256_bytes)

lemma entry_hash_ok_iff: "(\<exists>h. entry_hash e = Inr h) \<longleftrightarrow> (\<exists>t. canonicalJSON (Payload e) = Inr t)"
  by (auto simp: entry_hash_def ComputeHash_def split: sum.splits)

lemma same_hash_preimage:
  assumes "entry_hash e = Inr h" "entry_hash f = Inr h"
  obtains x y where "entry_preimage e = Inr x" "entry_preimage f = Inr y" "x = y \<or> sha_collision x y"
  using assms by (auto simp: entry_hash_Inr_iff sha_collision_def dest: hex_sha256_inj)

section \<open>What the hash commits to\<close>

text \<open>An edit of one hashed field of a stored entry.\<close>

datatype field_edit =
    EditChainID string
  | EditID EntryID
  | EditActorID string
  | EditEntityType string
  | EditEntityID string
  | EditAction string
  | EditPayload goval
  | EditTimestamp gotime
  | EditPrevHash string

fun apply_edit :: "field_edit \<Rightarrow> AuditEvent \<Rightarrow> AuditEvent" where
  "apply_edit (EditChainID x) e = e\<lparr>ChainID := x\<rparr>"
| "apply_edit (EditID x) e = e\<lparr>ID := x\<rparr>"
| "apply_edit (EditActorID x) e = e\<lparr>ActorID := x\<rparr>"
| "apply_edit (EditEntityType x) e = e\<lparr>EntityType := x\<rparr>"
| "apply_edit (EditEntityID x) e = e\<lparr>EntityID := x\<rparr>"
| "apply_edit (EditAction x) e = e\<lparr>Action := x\<rparr>"
| "apply_edit (EditPayload x) e = e\<lparr>Payload := x\<rparr>"
| "apply_edit (EditTimestamp x) e = e\<lparr>Timestamp := x\<rparr>"
| "apply_edit (EditPrevHash x) e = e\<lparr>PrevHash := x\<rparr>"

text \<open>The content of an entry that the hash is meant to protect.\<close>

definition hash_content ::
  "AuditEvent \<Rightarrow> string \<times> EntryID \<times> string \<times> string \<times> string \<times> string \<times> string result \<times> int \<times> string" where
  "hash_content e = (ChainID e, ID e, ActorID e, EntityType e, EntityID e, Action e,
     canonicalJSON (Payload e), ns (Timestamp e) div Millisecond, PrevHash e)"

lemma entry_hash_content:
  assumes "hash_content e = hash_content f"
  shows "entry_hash e = entry_hash f"
proof -
  have "timestamp_text (Timestamp e) = timestamp_text (Timestamp f)"
    using assms by (simp add: hash_content_def timestamp_text_iff)
  with assms show ?thesis by (simp add: hash_content_def entry_hash_def ComputeHash_def hash_preimage_def split: sum.split)
qed

lemma edit_preimage:
  assumes "entry_preimage e = Inr x" "entry_preimage (apply_edit d e) = Inr x"
  shows "hash_content (apply_edit d e) = hash_content e"
proof -
  obtain c where c: "canonicalJSON (Payload e) = Inr c" using assms(1)
    by (auto simp: entry_preimage_def map_result_def split: sum.splits)
  obtain c' where c': "canonicalJSON (Payload (apply_edit d e)) = Inr c'" using assms(2)
    by (auto simp: entry_preimage_def map_result_def split: sum.splits)
  have "hash_preimage (ChainID e) (ID e) (ActorID e) (EntityType e) (EntityID e) (Action e) c
        (Timestamp e) (PrevHash e)
      = (let f = apply_edit d e in hash_preimage (ChainID f) (ID f) (ActorID f) (EntityType f)
          (EntityID f) (Action f) c' (Timestamp f) (PrevHash f))"
    using assms c c' by (simp add: entry_preimage_def Let_def)
  then show ?thesis using c c'
    by (cases d) (auto simp: hash_content_def hash_preimage_def Let_def timestamp_text_iff
        dest!: dec_nat_inj unat_inj)
qed

text \<open>
  C13. Changing a single field of an entry (its chain, position, actor, entity, action,
  payload, timestamp or previous hash) to something that differs in content (for the
  payload: in canonical JSON, for the timestamp: in milliseconds) changes the hash
  \<^verbatim>\<open>ComputeHash\<close> returns, unless the two preimages are a SHA-256 collision.
\<close>

theorem single_field_edit_changes_hash:
  assumes "entry_hash e = Inr h" "entry_hash (apply_edit d e) = Inr h"
  shows "hash_content (apply_edit d e) = hash_content e \<or>
    (\<exists>x y. entry_preimage e = Inr x \<and> entry_preimage (apply_edit d e) = Inr y \<and> sha_collision x y)"
  by (rule same_hash_preimage [OF assms]) (auto dest: edit_preimage)

text \<open>
  C14. The canonical text is canonical: two payloads that can be marshalled have the same
  canonical bytes exactly when the decoder reads the same JSON value back from them, so
  neither the order of map keys nor the Go types the values came from matter.
\<close>

theorem canonicalJSON_canonical:
  assumes "marshal v \<noteq> None" "marshal w \<noteq> None"
    and "nesting v \<le> max_nesting_depth" "nesting w \<le> max_nesting_depth"
  shows "canonicalJSON v = canonicalJSON w \<longleftrightarrow> normal_form v = normal_form w"
proof -
  obtain a b where m: "marshal v = Some a" "marshal w = Some b" using assms by auto
  note nf = marshal_normal [OF m(1)] marshal_normal [OF m(2)]
  obtain a' b' where m': "marshal (normal_form v) = Some a'" "marshal (normal_form w) = Some b'"
    using normal_marshal [OF nf(1)] normal_marshal [OF nf(2)] by blast
  have "canonicalJSON v = canonicalJSON w \<longleftrightarrow> a' = b'"
    using canonicalJSON_char [OF m(1) assms(3)] canonicalJSON_char [OF m(2) assms(4)] m' by simp
  also have "\<dots> \<longleftrightarrow> normal_form v = normal_form w"
    using marshal_inj [OF _ nf] m' nesting_normal_form [OF assms(3)] nesting_normal_form [OF assms(4)]
    by auto
  finally show ?thesis .
qed

text \<open>
  C27. The storage round trip of a payload: whatever \<^verbatim>\<open>marshalPayload\<close> writes for a payload
  whose canonical text exists, \<^verbatim>\<open>DecodeStoredPayload\<close> reads back, and the value read has
  the same canonical text, so recomputing the hash from storage gives the recorded hash.
\<close>

theorem stored_payload_same_hash:
  assumes "marshalPayload (Payload e) = Inr raw" "entry_hash e = Inr h"
  shows "\<exists>w. DecodeStoredPayload raw = Inr w \<and> entry_hash (e\<lparr>Payload := w\<rparr>) = Inr h"
proof -
  obtain t where t: "canonicalJSON (Payload e) = Inr t" using assms(2) entry_hash_ok_iff by blast
  from stored_canonical [OF assms(1) t] obtain w where w:
    "DecodeStoredPayload raw = Inr w" "canonicalJSON w = Inr t" by blast
  have "hash_content (e\<lparr>Payload := w\<rparr>) = hash_content e" using w t by (simp add: hash_content_def)
  from entry_hash_content [OF this] w assms(2) show ?thesis by auto
qed

section \<open>Witnesses\<close>

lemma sample_hash_ok: "\<exists>h. entry_hash sample_event = Inr h"
  by (simp add: entry_hash_ok_iff canonicalJSON_def event_simps)

theorem single_field_edit_changes_hash_witness:
  "let d = EditTimestamp (sample_time\<lparr>ns := ns sample_time + 5\<rparr>) in
   hash_content (apply_edit d sample_event) = hash_content sample_event \<or>
   (\<exists>x y. entry_preimage sample_event = Inr x \<and> entry_preimage (apply_edit d sample_event) = Inr y \<and> sha_collision x y)"
proof -
  let ?d = "EditTimestamp (sample_time\<lparr>ns := ns sample_time + 5\<rparr>)"
  obtain h where h: "entry_hash sample_event = Inr h" using sample_hash_ok by blast
  have "hash_content (apply_edit ?d sample_event) = hash_content sample_event"
    by (simp add: hash_content_def event_simps sample_time_def Millisecond_def)
  from entry_hash_content [OF this] h have "entry_hash (apply_edit ?d sample_event) = Inr h" by simp
  from single_field_edit_changes_hash [OF h this] show ?thesis by (simp add: Let_def)
qed

definition sample_struct :: goval where
  "sample_struct = GStruct [(''b'', GInt 2), (''a'', GNil)]"

definition sample_map :: goval where
  "sample_map = GMap [(''a'', GNilPtr), (''b'', GNumber ''2'')]"

lemma sample_values:
  "marshal sample_struct \<noteq> None" "marshal sample_map \<noteq> None"
  "nesting sample_struct \<le> max_nesting_depth" "nesting sample_map \<le> max_nesting_depth"
  "normal_form sample_struct = normal_form sample_map"
proof -
  have two: "dec_int 2 = ''2''" by (simp add: dec_int_def dec_nat_step digit_char_def char_of_ord)
  have vn: "valid_number ''2''" using valid_number_dec_int [of 2] by (simp add: two)
  show "marshal sample_struct \<noteq> None" "marshal sample_map \<noteq> None"
    by (simp_all add: sample_struct_def sample_map_def tag_def number_text_def vn)
  show "nesting sample_struct \<le> max_nesting_depth" "nesting sample_map \<le> max_nesting_depth"
    by (simp_all add: sample_struct_def sample_map_def max_nesting_depth_def)
  show "normal_form sample_struct = normal_form sample_map"
    by (simp add: sample_struct_def sample_map_def two build_map_def to_valid_ascii)
qed

theorem canonicalJSON_canonical_witness: "canonicalJSON sample_struct = canonicalJSON sample_map"
  using canonicalJSON_canonical [OF sample_values(1-4)] sample_values(5) by simp

theorem stored_payload_same_hash_witness:
  "\<exists>raw h w. marshalPayload sample_struct = Inr raw \<and>
     entry_hash (sample_event\<lparr>Payload := sample_struct\<rparr>) = Inr h \<and> DecodeStoredPayload raw = Inr w \<and>
     entry_hash (sample_event\<lparr>Payload := w\<rparr>) = Inr h"
proof -
  obtain raw where raw: "marshal sample_struct = Some raw" using sample_values(1) by auto
  then have m: "marshalPayload sample_struct = Inr raw" by (simp add: marshalPayload_Inr sample_struct_def)
  obtain h where h: "entry_hash (sample_event\<lparr>Payload := sample_struct\<rparr>) = Inr h"
    using canonicalJSON_char [OF raw sample_values(3)] entry_hash_ok_iff [of "sample_event\<lparr>Payload := sample_struct\<rparr>"]
    by auto
  from stored_payload_same_hash [OF _ h, of raw] m h show ?thesis by simp
qed

end
