(* ===== verification/ChainSpec.thy ===== *)
theory ChainSpec
  imports ChainHash
begin

text \<open>
  What the audit log promises, stated on the abstract content of one chain: the list of
  its entries, oldest first.  \<open>linked\<close> is the hash chain, \<open>chain_ok\<close> adds the numbering
  from 1 and the chain's own identifier, \<open>seal\<close> is the one entry that may be appended to
  a chain for a given event.  \<open>verify_walk\<close> is the specification of a verification: it
  reports the first entry at which one of the two checks fails.

  The lemmas are the theory of these chains, independent of how a backend stores them:
  a chain extended by a sealed entry stays a chain, the walk accepts exactly the linked
  chains, and what an accepted chain excludes (\<open>linked_determined\<close>).
\<close>

section \<open>Hash chains\<close>

fun linked :: "string \<Rightarrow> AuditEvent list \<Rightarrow> bool" where
  "linked prev [] = True"
| "linked prev (e # es) = (PrevHash e = prev \<and> entry_hash e = Inr (Hash e) \<and> linked (Hash e) es)"

fun numbered :: "EntryID \<Rightarrow> AuditEvent list \<Rightarrow> bool" where
  "numbered n [] = True"
| "numbered n (e # es) = (ID e = n \<and> numbered (n + 1) es)"

fun last_hash :: "string \<Rightarrow> AuditEvent list \<Rightarrow> string" where
  "last_hash prev [] = prev"
| "last_hash prev (e # es) = last_hash (Hash e) es"

definition chain_ok :: "string \<Rightarrow> AuditEvent list \<Rightarrow> bool" where
  "chain_ok c es \<longleftrightarrow> linked GenesisPrevHash es \<and> numbered 1 es \<and> (\<forall>e \<in> set es. ChainID e = c)"

text \<open>The entry recorded for an event at the end of a chain, once its timestamp is set.\<close>

definition seal :: "AuditEvent list \<Rightarrow> AuditEvent \<Rightarrow> AuditEvent result" where
  "seal es event =
     (let e = event\<lparr>ID := of_nat (length es) + 1, PrevHash := last_hash GenesisPrevHash es\<rparr> in
      map_result (\<lambda>h. e\<lparr>Hash := h\<rparr>) (entry_hash e))"

section \<open>The walk of a verification\<close>

fun verify_walk :: "string \<Rightarrow> AuditEvent list \<Rightarrow> (bool \<times> VerifyResult) result" where
  "verify_walk prev [] = Inr (True, verify_ok)"
| "verify_walk prev (e # es) =
     (if PrevHash e \<noteq> prev then Inr (False, verify_broken (ID e) prev (PrevHash e))
      else case entry_hash e of
        Inl err \<Rightarrow> Inl (Errorf ''graudit: verify'' [err])
      | Inr h \<Rightarrow>
          if h \<noteq> Hash e then Inr (False, verify_broken (ID e) h (Hash e))
          else verify_walk (Hash e) es)"

section \<open>Extending chains\<close>

lemma linked_append: "linked p (es @ fs) \<longleftrightarrow> linked p es \<and> linked (last_hash p es) fs"
  by (induction es arbitrary: p) auto

lemma numbered_append: "numbered n (es @ fs) \<longleftrightarrow> numbered n es \<and> numbered (n + of_nat (length es)) fs"
  by (induction es arbitrary: n) (auto simp: algebra_simps)

lemma last_hash_append [simp]: "last_hash p (es @ fs) = last_hash (last_hash p es) fs"
  by (induction es arbitrary: p) auto

lemma last_hash_last: "es \<noteq> [] \<Longrightarrow> last_hash p es = Hash (last es)"
  by (induction es arbitrary: p) auto

lemma entry_hash_ignores_Hash [simp]: "entry_hash (e\<lparr>Hash := h\<rparr>) = entry_hash e"
  by (simp add: entry_hash_def)

lemma seal_Inr:
  assumes "seal es event = Inr e"
  shows "ID e = of_nat (length es) + 1" "PrevHash e = last_hash GenesisPrevHash es"
    "entry_hash e = Inr (Hash e)" "ChainID e = ChainID event" "ActorID e = ActorID event"
    "EntityType e = EntityType event" "EntityID e = EntityID event" "Action e = Action event"
    "Payload e = Payload event" "Timestamp e = Timestamp event"
  using assms by (auto simp: seal_def Let_def map_result_def split: sum.splits)

lemma chain_ok_Nil [simp]: "chain_ok c []"
  by (simp add: chain_ok_def)

lemma chain_ok_seal: "chain_ok c es \<Longrightarrow> seal es event = Inr e \<Longrightarrow> ChainID event = c \<Longrightarrow> chain_ok c (es @ [e])"
  by (auto simp: chain_ok_def linked_append numbered_append seal_Inr algebra_simps)

lemma numbered_nth: "numbered n es \<Longrightarrow> i < length es \<Longrightarrow> ID (es ! i) = n + of_nat i"
proof (induction es arbitrary: n i)
  case (Cons e es)
  then show ?case by (cases i) (auto simp: algebra_simps)
qed simp

lemma linked_nth:
  assumes "linked p es" "i < length es"
  shows "entry_hash (es ! i) = Inr (Hash (es ! i))"
    "PrevHash (es ! i) = (if i = 0 then p else Hash (es ! (i - 1)))"
proof -
  have es: "es = take i es @ es ! i # drop (Suc i) es" using assms(2) by (rule id_take_nth_drop)
  with assms(1) have "linked p (take i es @ es ! i # drop (Suc i) es)" by simp
  then have l: "PrevHash (es ! i) = last_hash p (take i es)" "entry_hash (es ! i) = Inr (Hash (es ! i))"
    by (auto simp: linked_append)
  then show "entry_hash (es ! i) = Inr (Hash (es ! i))" by simp
  show "PrevHash (es ! i) = (if i = 0 then p else Hash (es ! (i - 1)))"
  proof (cases i)
    case (Suc j)
    then have "take i es \<noteq> []" using assms(2) by auto
    then show ?thesis using Suc l(1) assms(2) by (simp add: last_hash_last last_conv_nth)
  qed (use l(1) in simp)
qed

section \<open>What the walk accepts\<close>

lemma verify_walk_ok_iff: "verify_walk p es = Inr (True, d) \<longleftrightarrow> linked p es \<and> d = verify_ok"
  by (induction es arbitrary: p) (auto split: sum.splits)

lemma verify_walk_broken:
  "verify_walk p es = Inr (False, d) \<Longrightarrow>
    \<exists>pre e post. es = pre @ e # post \<and> linked p pre \<and>
      (let prev = last_hash p pre in
       PrevHash e \<noteq> prev \<and> d = verify_broken (ID e) prev (PrevHash e) \<or>
       (\<exists>h. PrevHash e = prev \<and> entry_hash e = Inr h \<and> h \<noteq> Hash e \<and> d = verify_broken (ID e) h (Hash e)))"
proof (induction es arbitrary: p)
  case (Cons e es)
  show ?case
  proof (cases "PrevHash e = p \<and> entry_hash e = Inr (Hash e)")
    case True
    with Cons obtain pre f post where
      "es = pre @ f # post \<and> linked (Hash e) pre \<and>
       (let prev = last_hash (Hash e) pre in
        PrevHash f \<noteq> prev \<and> d = verify_broken (ID f) prev (PrevHash f) \<or>
        (\<exists>h. PrevHash f = prev \<and> entry_hash f = Inr h \<and> h \<noteq> Hash f \<and> d = verify_broken (ID f) h (Hash f)))"
      by fastforce
    with True show ?thesis by (intro exI [of _ "e # pre"] exI [of _ f] exI [of _ post]) auto
  next
    case False
    with Cons.prems show ?thesis
      by (intro exI [of _ "[]"] exI [of _ e] exI [of _ es]) (auto split: if_splits sum.splits)
  qed
qed simp

lemma linked_hex:
  assumes "linked p es" "length p = 64" "e \<in> set es"
  shows "length (PrevHash e) = 64" "length (Hash e) = 64"
  using assms
proof (induction es arbitrary: p)
  case (Cons f es)
  { case 1 with Cons entry_hash_hex [of f "Hash f"] show ?case by (cases "e = f") fastforce+
  next
    case 2 with Cons entry_hash_hex [of f "Hash f"] show ?case by (cases "e = f") fastforce+ }
qed auto

section \<open>What an accepted chain commits to\<close>

lemma preimage_PrevHash:
  assumes "entry_preimage e = Inr x" "entry_preimage f = Inr x" "length (PrevHash e) = length (PrevHash f)"
  shows "PrevHash e = PrevHash f"
proof -
  have "\<exists>a. x = a @ PrevHash g" if "entry_preimage g = Inr x" for g
    using that unfolding entry_preimage_def map_result_def hash_preimage_def append_assoc [symmetric]
    by (auto simp del: append_assoc split: sum.splits)
  from this [OF assms(1)] this [OF assms(2)] assms(3) show ?thesis by (metis append_eq_append_conv)
qed

definition colliding :: "AuditEvent \<Rightarrow> AuditEvent \<Rightarrow> bool" where
  "colliding e f \<longleftrightarrow> (\<exists>x y. entry_preimage e = Inr x \<and> entry_preimage f = Inr y \<and> sha_collision x y)"

lemma same_hash_cases:
  assumes "entry_hash e = Inr h" "entry_hash f = Inr h"
  shows "entry_preimage e = entry_preimage f \<or> colliding e f"
  using same_hash_preimage [OF assms] by (metis colliding_def)

theorem linked_determined:
  assumes "linked p es" "linked p fs" "length es = length fs" "length p = 64"
    and "last_hash p es = last_hash p fs"
  shows "list_all2 (\<lambda>e f. entry_preimage e = entry_preimage f \<and> Hash e = Hash f) es fs \<or>
    (\<exists>(e, f) \<in> set (zip es fs). colliding e f)"
  using assms(1,2,3,5)
proof (induction es arbitrary: fs rule: rev_induct)
  case (snoc e es)
  then obtain fs' f where fs: "fs = fs' @ [f]" by (cases fs rule: rev_cases) auto
  from snoc.prems fs have l: "linked p es" "linked p fs'" "length es = length fs'"
    "PrevHash e = last_hash p es" "PrevHash f = last_hash p fs'" "Hash e = Hash f"
    "entry_hash e = Inr (Hash e)" "entry_hash f = Inr (Hash e)"
    by (auto simp: linked_append)
  have zip: "set (zip es fs') \<subseteq> set (zip (es @ [e]) fs)" "(e, f) \<in> set (zip (es @ [e]) fs)"
    using l(3) by (auto simp: fs)
  show ?case
  proof (cases "colliding e f")
    case True
    with zip(2) show ?thesis by blast
  next
    case False
    with same_hash_cases [OF l(7,8)] have pre: "entry_preimage e = entry_preimage f" by blast
    have len: "length (PrevHash e) = 64" "length (PrevHash f) = 64"
      using linked_hex(1) [OF snoc.prems(1) assms(4), of e] linked_hex(1) [OF snoc.prems(2) assms(4), of f]
      by (simp_all add: fs)
    obtain x where "entry_preimage e = Inr x" using l(7) by (auto simp: entry_hash_Inr_iff)
    with pre len have "PrevHash e = PrevHash f" by (intro preimage_PrevHash [of e x f]) simp_all
    with snoc.IH [OF l(1-3)] l(4,5) have
      "list_all2 (\<lambda>e f. entry_preimage e = entry_preimage f \<and> Hash e = Hash f) es fs' \<or>
       (\<exists>(e, f) \<in> set (zip es fs'). colliding e f)" by simp
    then show ?thesis
    proof
      assume "list_all2 (\<lambda>e f. entry_preimage e = entry_preimage f \<and> Hash e = Hash f) es fs'"
      with pre l(6) show ?thesis by (simp add: fs list_all2_appendI)
    next
      assume "\<exists>(e, f) \<in> set (zip es fs'). colliding e f"
      with zip(1) show ?thesis by blast
    qed
  qed
qed simp

text \<open>Removing a block of entries, and replacing one, inside a chain.\<close>

lemma linked_delete_block:
  assumes "linked p (pre @ b # blk @ e # post)"
  shows "linked p (pre @ e # post) \<longleftrightarrow> last_hash (Hash b) blk = PrevHash b"
  using assms by (auto simp: linked_append)

lemma linked_replace:
  assumes "linked p (pre @ e # f # post)" "linked p (pre @ e' # f # post)"
  shows "Hash e' = Hash e" "entry_preimage e' = entry_preimage e \<or> colliding e' e"
  using assms same_hash_cases [of e' "Hash e" e] by (auto simp: linked_append)

section \<open>Sample chains\<close>

text \<open>Chains built by sealing events one after the other, for the witnesses.\<close>

fun seal_all :: "AuditEvent list \<Rightarrow> AuditEvent list \<Rightarrow> AuditEvent list" where
  "seal_all es [] = es"
| "seal_all es (event # events) =
     (case seal es event of Inl err \<Rightarrow> es | Inr e \<Rightarrow> seal_all (es @ [e]) events)"

lemma seal_all_chain_ok:
  "chain_ok c es \<Longrightarrow> \<forall>e \<in> set events. ChainID e = c \<Longrightarrow> chain_ok c (seal_all es events)"
  by (induction events arbitrary: es) (auto split: sum.splits intro: chain_ok_seal)

lemma seal_no_payload:
  assumes "Payload event = GNil"
  obtains e where "seal es event = Inr e"
  using assms by (auto simp: seal_def Let_def entry_hash_def ComputeHash_def canonicalJSON_def)

lemma length_seal_all:
  "\<forall>e \<in> set events. Payload e = GNil \<Longrightarrow> length (seal_all es events) = length es + length events"
proof (induction events arbitrary: es)
  case (Cons event events)
  obtain e where "seal es event = Inr e" using seal_no_payload [of event es] Cons.prems by auto
  with Cons show ?case by simp
qed simp

text \<open>An event whose hashed bytes are those of the sample event, with the fields cut elsewhere.\<close>

definition shifted_event :: AuditEvent where
  "shifted_event = sample_event\<lparr>ActorID := ''aliceuse'', EntityType := ''r''\<rparr>"

lemma shifted_preimage:
  "entry_preimage (shifted_event\<lparr>ID := i, PrevHash := p, Hash := h\<rparr>)
     = entry_preimage (sample_event\<lparr>ID := i, PrevHash := p, Hash := h'\<rparr>)"
  by (simp add: entry_preimage_def hash_preimage_def shifted_event_def event_simps)

lemma shifted_hash:
  "entry_hash (shifted_event\<lparr>ID := i, PrevHash := p\<rparr>) = entry_hash (sample_event\<lparr>ID := i, PrevHash := p\<rparr>)"
  by (simp add: entry_hash_def ComputeHash_def hash_preimage_def shifted_event_def event_simps split: sum.split)

section \<open>The shape of hashes\<close>

text \<open>A hash as it is stored: 64 lower-case hexadecimal digits.\<close>

definition hex64 :: "string \<Rightarrow> bool" where
  "hex64 h \<longleftrightarrow> length h = 64 \<and> (\<forall>c \<in> set h. is_hex_digit c)"

lemma ComputeHash_hex64: "ComputeHash c i ac et ei act p t prev = Inr h \<Longrightarrow> hex64 h"
  by (auto simp: ComputeHash_def hex64_def dest: hex_encode_digits [rotated] sha256_bytes split: sum.splits)

lemma GenesisPrevHash_hex64: "hex64 GenesisPrevHash"
  by (simp add: hex64_def GenesisPrevHash_def is_hex_digit_def)

lemma linked_hex64: "linked p es \<Longrightarrow> hex64 p \<Longrightarrow> e \<in> set es \<Longrightarrow> hex64 (Hash e) \<and> hex64 (PrevHash e)"
  by (induction es arbitrary: p) (auto simp: entry_hash_def dest: ComputeHash_hex64)

end
