(* ===== verification/Backend.thy ===== *)
theory Backend
  imports ChainSpec
begin

text \<open>
  The contract of the \<^verbatim>\<open>AuditLog\<close> interface of \<^verbatim>\<open>audit.go\<close>, as locales over an abstract
  state.  \<open>chain_store\<close> is the writing half: a successful \<^verbatim>\<open>Record\<close> appends one sealed
  entry to the chain of its event and to no other, a failed one appends nothing.
  \<open>audit_reader\<close> adds what \<^verbatim>\<open>Verify\<close>, \<^verbatim>\<open>GetEntry\<close>, \<^verbatim>\<open>LatestEntryID\<close> and \<^verbatim>\<open>Query\<close> return.
  The environment argument of an operation carries what the code reads from outside: the
  clock, and for the databases which of their calls fail.  \<open>admissible\<close> delimits the calls
  the contract speaks of: all of them for the memory backend, for a database those whose
  payload the server reads back as the same JSON value and whose commit is not left in doubt.

  \<open>shared_store\<close> is a store that many calls write to at once, as a reader sees it.
  \<open>store_pair\<close> relates two backends: the same calls give the same chains.

  The lemmas inside the locales are the guarantees a caller has of every backend; the
  theories of the backends interpret the locales on their own operations.
\<close>

section \<open>Vocabulary of the contract\<close>

text \<open>The event with its timestamp set by \<^verbatim>\<open>Record\<close> when the caller left it zero.\<close>

definition stamp :: "gotime \<Rightarrow> AuditEvent \<Rightarrow> AuditEvent" where
  "stamp now event = (if IsZero (Timestamp event) then event\<lparr>Timestamp := UTC now\<rparr> else event)"

text \<open>
  The entry stored for an event: in the content the hash protects it is the event, placed
  at the end of the chain and sealed by its hash.
\<close>

definition sealed :: "AuditEvent list \<Rightarrow> AuditEvent \<Rightarrow> AuditEvent \<Rightarrow> bool" where
  "sealed es event e \<longleftrightarrow>
     hash_content e = hash_content (event\<lparr>ID := of_nat (length es) + 1, PrevHash := last_hash GenesisPrevHash es\<rparr>)
     \<and> entry_hash e = Inr (Hash e)"

definition in_range :: "EntryID \<Rightarrow> EntryID \<Rightarrow> AuditEvent list \<Rightarrow> AuditEvent list" where
  "in_range from to es = filter (\<lambda>e. from \<le> ID e \<and> ID e \<le> to) es"

definition matches :: "QueryFilter \<Rightarrow> AuditEvent \<Rightarrow> bool" where
  "matches f e \<longleftrightarrow> ChainID e = fChainID f
     \<and> (fActorID f = [] \<or> ActorID e = fActorID f)
     \<and> (fEntityType f = [] \<or> EntityType e = fEntityType f)
     \<and> (fEntityID f = [] \<or> EntityID e = fEntityID f)
     \<and> (IsZero (fFrom f) \<or> \<not> Before (Timestamp e) (fFrom f))
     \<and> (IsZero (fTo f) \<or> \<not> After (Timestamp e) (fTo f))"

definition limited :: "int \<Rightarrow> 'a list \<Rightarrow> 'a list" where
  "limited n xs = (if n > 0 then take (nat n) xs else xs)"

text \<open>A sequence of \<^verbatim>\<open>Record\<close> calls, with the result of each.\<close>

fun run_records ::
  "('env \<Rightarrow> AuditEvent \<Rightarrow> 's \<Rightarrow> 's \<times> EntryID result) \<Rightarrow> ('env \<times> AuditEvent) list \<Rightarrow> 's
     \<Rightarrow> 's \<times> EntryID result list" where
  "run_records rec [] s = (s, [])"
| "run_records rec ((x, event) # calls) s =
     (let (s1, r) = rec x event s; (s2, rs) = run_records rec calls s1 in (s2, r # rs))"

text \<open>
  A property of the calls of such a sequence, each judged in the state it is made in.
\<close>

fun along_run ::
  "('env \<Rightarrow> AuditEvent \<Rightarrow> 's \<Rightarrow> bool) \<Rightarrow> ('env \<Rightarrow> AuditEvent \<Rightarrow> 's \<Rightarrow> 's \<times> EntryID result)
     \<Rightarrow> ('env \<times> AuditEvent) list \<Rightarrow> 's \<Rightarrow> bool" where
  "along_run P rec [] s = True"
| "along_run P rec ((x, event) # calls) s = (P x event s \<and> along_run P rec calls (fst (rec x event s)))"

lemma along_run_True [simp]: "along_run (\<lambda>_ _ _. True) rec calls s"
  by (induction calls arbitrary: s) auto

text \<open>The positions handed out for one chain, in the order of the calls.\<close>

fun ids_for :: "string \<Rightarrow> ('env \<times> AuditEvent) list \<Rightarrow> EntryID result list \<Rightarrow> EntryID list" where
  "ids_for c ((x, event) # calls) (Inr i # rs) =
     (if ChainID event = c then i # ids_for c calls rs else ids_for c calls rs)"
| "ids_for c (call # calls) (Inl err # rs) = ids_for c calls rs"
| "ids_for c _ _ = []"

lemma sealed_fields:
  assumes "sealed es event e"
  shows "ID e = of_nat (length es) + 1" "PrevHash e = last_hash GenesisPrevHash es"
    "entry_hash e = Inr (Hash e)" "ChainID e = ChainID event" "ActorID e = ActorID event"
    "EntityType e = EntityType event" "EntityID e = EntityID event" "Action e = Action event"
    "canonicalJSON (Payload e) = canonicalJSON (Payload event)"
  using assms by (auto simp: sealed_def hash_content_def)

lemma chain_ok_sealed: "chain_ok c es \<Longrightarrow> sealed es event e \<Longrightarrow> ChainID event = c \<Longrightarrow> chain_ok c (es @ [e])"
  by (auto simp: chain_ok_def linked_append numbered_append sealed_fields algebra_simps)

lemma seal_sealed: "seal es event = Inr e \<Longrightarrow> sealed es event e"
  by (auto simp: sealed_def hash_content_def seal_Inr)

lemma sealing_order: "e\<lparr>ID := i, Hash := h, PrevHash := p\<rparr> = e\<lparr>ID := i, PrevHash := p, Hash := h\<rparr>"
  by simp

lemma ChainID_stamp [simp]: "ChainID (stamp now event) = ChainID event"
  by (simp add: stamp_def)

text \<open>A filter that asks for a chain and nothing else selects all of it.\<close>

definition whole_chain :: "string \<Rightarrow> QueryFilter" where
  "whole_chain c = \<lparr>fChainID = c, fActorID = [], fEntityType = [], fEntityID = [],
     fFrom = zero_time, fTo = zero_time, fLimit = 0\<rparr>"

lemma query_whole_chain:
  "chain_ok c es \<Longrightarrow> limited (fLimit (whole_chain c)) (filter (matches (whole_chain c)) es) = es"
  by (auto simp: whole_chain_def limited_def matches_def chain_ok_def IsZero_def zero_time_def intro!: filter_True)

text \<open>The full range of a chain that has fewer entries than there are positions.\<close>

lemma of_nat_u64_le: "m < 2 ^ 64 \<Longrightarrow> n < 2 ^ 64 \<Longrightarrow> (of_nat m :: u64) \<le> of_nat n \<longleftrightarrow> m \<le> n"
  by (simp add: word_le_nat_alt unsigned_of_nat take_bit_nat_eq_self)

lemma chain_ID:
  assumes "chain_ok c es" "i < length es"
  shows "ID (es ! i) = of_nat (Suc i)"
  using numbered_nth [of 1 es i] assms by (simp add: chain_ok_def)

lemma chain_ID_member:
  assumes "chain_ok c es" "e \<in> set es"
  obtains i where "i < length es" "e = es ! i" "ID e = of_nat (Suc i)"
  using assms chain_ID [OF assms(1)] by (metis in_set_conv_nth)

lemma in_range_all:
  assumes "chain_ok c es" "length es < 2 ^ 64"
  shows "in_range 1 (of_nat (length es)) es = es"
proof -
  have "\<forall>e \<in> set es. 1 \<le> ID e \<and> ID e \<le> of_nat (length es)"
  proof
    fix e assume "e \<in> set es"
    then obtain i where i: "i < length es" "ID e = of_nat (Suc i)"
      using chain_ID_member [OF assms(1)] by blast
    have "(of_nat 1 :: u64) \<le> of_nat (Suc i)" "(of_nat (Suc i) :: u64) \<le> of_nat (length es)"
      using i(1) assms(2) by (subst of_nat_u64_le; simp)+
    then show "1 \<le> ID e \<and> ID e \<le> of_nat (length es)" by (simp only: i(2) of_nat_1 simp_thms)
  qed
  then show ?thesis by (simp add: in_range_def)
qed

lemma in_range_from:
  assumes "chain_ok c es" "length es < 2 ^ 64" "0 < n" "n \<le> length es"
  shows "in_range (of_nat n) (of_nat (length es)) es = drop (n - 1) es"
proof -
  have ID: "of_nat n \<le> ID (es ! k) \<and> ID (es ! k) \<le> of_nat (length es) \<longleftrightarrow> n \<le> Suc k" if "k < length es" for k
    using chain_ID [OF assms(1) that] assms(2,4) that
    by (simp add: of_nat_u64_le del: of_nat_Suc)
  have split: "es = take (n - 1) es @ drop (n - 1) es" by simp
  have "\<not> (of_nat n \<le> ID (es ! k) \<and> ID (es ! k) \<le> of_nat (length es))" if "k < n - 1" for k
    using ID [of k] that assms(4) by simp
  then have "filter (\<lambda>e. of_nat n \<le> ID e \<and> ID e \<le> of_nat (length es)) (take (n - 1) es) = []"
    by (auto simp: filter_empty_conv in_set_conv_nth)
  moreover have "of_nat n \<le> ID (es ! (n - 1 + k)) \<and> ID (es ! (n - 1 + k)) \<le> of_nat (length es)"
    if "k < length es - (n - 1)" for k
    using ID [of "n - 1 + k"] that by simp
  then have "filter (\<lambda>e. of_nat n \<le> ID e \<and> ID e \<le> of_nat (length es)) (drop (n - 1) es) = drop (n - 1) es"
    by (auto simp: filter_id_conv in_set_conv_nth)
  ultimately show ?thesis unfolding in_range_def by (subst split) (simp only: filter_append append_Nil)
qed

text \<open>The range from 1 is a prefix of the chain, and so it verifies when the chain does.\<close>

lemma in_range_upto:
  assumes "chain_ok c es" "length es < 2 ^ 64"
  shows "in_range 1 t es = take (unat t) es"
proof -
  have t: "t = of_nat (unat t)" by simp
  have ID: "1 \<le> ID (es ! k) \<and> ID (es ! k) \<le> t \<longleftrightarrow> k < unat t" if "k < length es" for k
  proof -
    have "ID (es ! k) = of_nat (Suc k)" by (rule chain_ID [OF assms(1) that])
    moreover have "(of_nat 1 :: u64) \<le> of_nat (Suc k)" using that assms(2) by (subst of_nat_u64_le) simp_all
    moreover have "(of_nat (Suc k) :: u64) \<le> of_nat (unat t) \<longleftrightarrow> Suc k \<le> unat t"
      by (rule of_nat_u64_le) (use that assms(2) unsigned_less [of t] in simp_all)
    ultimately show ?thesis using t by (metis Suc_le_eq of_nat_1)
  qed
  have "1 \<le> ID e \<and> ID e \<le> t" if mem: "e \<in> set (take (unat t) es)" for e
  proof -
    obtain k where "k < length es" "k < unat t" "e = es ! k" using mem by (auto simp: in_set_conv_nth)
    with ID show ?thesis by blast
  qed
  then have "filter (\<lambda>e. 1 \<le> ID e \<and> ID e \<le> t) (take (unat t) es) = take (unat t) es"
    by (auto simp: filter_id_conv)
  moreover have "\<not> (1 \<le> ID e \<and> ID e \<le> t)" if mem: "e \<in> set (drop (unat t) es)" for e
  proof -
    obtain k where "unat t + k < length es" "e = es ! (unat t + k)"
      using mem by (auto simp: in_set_conv_nth less_diff_conv add.commute)
    with ID [of "unat t + k"] show ?thesis by simp
  qed
  then have "filter (\<lambda>e. 1 \<le> ID e \<and> ID e \<le> t) (drop (unat t) es) = []"
    by (auto simp: filter_empty_conv)
  ultimately have "filter (\<lambda>e. 1 \<le> ID e \<and> ID e \<le> t) (take (unat t) es @ drop (unat t) es) = take (unat t) es"
    by (simp only: filter_append append_Nil2)
  then show ?thesis by (simp only: in_range_def append_take_drop_id)
qed

lemma walk_from_start:
  assumes "chain_ok c es" "length es < 2 ^ 64"
  shows "verify_walk GenesisPrevHash (in_range 1 t es) = Inr (True, verify_ok)"
proof -
  have "linked GenesisPrevHash (take (unat t) es @ drop (unat t) es)" using assms(1) by (simp add: chain_ok_def)
  then show ?thesis unfolding linked_append in_range_upto [OF assms] verify_walk_ok_iff by blast
qed

lemma run_records_Cons:
  assumes "run_records rec (call # calls) s = (s', rs)"
  obtains x event s1 r rs' where "call = (x, event)" "rec x event s = (s1, r)"
    "run_records rec calls s1 = (s', rs')" "rs = r # rs'"
  using assms by (cases call) (auto simp: Let_def split: prod.splits)

section \<open>The writing half\<close>

locale chain_store =
  fixes chain_of :: "'s \<Rightarrow> string \<Rightarrow> AuditEvent list"
    and closed_of :: "'s \<Rightarrow> bool"
    and invar :: "'s \<Rightarrow> bool"
    and now_of :: "'env \<Rightarrow> gotime"
    and admissible :: "'env \<Rightarrow> AuditEvent \<Rightarrow> 's \<Rightarrow> bool"
    and record_op :: "'env \<Rightarrow> AuditEvent \<Rightarrow> 's \<Rightarrow> 's \<times> EntryID result"
  assumes record_invar: "invar s \<Longrightarrow> admissible x event s \<Longrightarrow> record_op x event s = (s', r) \<Longrightarrow> invar s'"
    and record_closed: "closed_of s \<Longrightarrow> record_op x event s = (s, Inl (Sentinel ErrClosed))"
    and record_keeps_open: "record_op x event s = (s', r) \<Longrightarrow> closed_of s' = closed_of s"
    and record_invalid: "\<not> closed_of s \<Longrightarrow> Validate event = Inl err \<Longrightarrow>
      record_op x event s = (s, Inl (Errorf ''graudit: record'' [err]))"
    and record_error: "admissible x event s \<Longrightarrow> record_op x event s = (s', Inl err) \<Longrightarrow> chain_of s' = chain_of s"
    and record_appends: "invar s \<Longrightarrow> admissible x event s \<Longrightarrow> record_op x event s = (s', Inr i) \<Longrightarrow>
      \<exists>e. sealed (chain_of s (ChainID event)) (stamp (now_of x) event) e \<and> i = ID e \<and>
        chain_of s' = (chain_of s)(ChainID event := chain_of s (ChainID event) @ [e])"
begin

text \<open>A call either leaves every chain alone or appends one sealed entry to its own.\<close>

lemma record_cases:
  assumes "invar s" "admissible x event s" "record_op x event s = (s', r)"
  obtains err where "r = Inl err" "chain_of s' = chain_of s"
  | e where "r = Inr (ID e)" "sealed (chain_of s (ChainID event)) (stamp (now_of x) event) e"
      "chain_of s' = (chain_of s)(ChainID event := chain_of s (ChainID event) @ [e])"
proof (cases r)
  case (Inl err)
  with record_error [OF assms(2)] assms(3) that(1) show thesis by blast
next
  case (Inr i)
  with record_appends [OF assms(1,2)] assms(3) that(2) show thesis by blast
qed

lemma record_chain_ok:
  assumes "invar s" "admissible x event s" "record_op x event s = (s', r)" "\<forall>c. chain_ok c (chain_of s c)"
  shows "\<forall>c. chain_ok c (chain_of s' c)"
  by (rule record_cases [OF assms(1-3)]) (use assms(4) in \<open>auto intro: chain_ok_sealed\<close>)

lemma record_extends:
  assumes "invar s" "admissible x event s" "record_op x event s = (s', r)"
  shows "\<exists>ext. chain_of s' c = chain_of s c @ ext"
  by (rule record_cases [OF assms]) auto

lemma record_isolated:
  assumes "invar s" "admissible x event s" "record_op x event s = (s', r)" "ChainID event \<noteq> c"
  shows "chain_of s' c = chain_of s c"
  by (rule record_cases [OF assms(1-3)]) (use assms(4) in auto)

text \<open>One call of a run, then the rest.\<close>

lemma run_step:
  assumes "invar s" "along_run admissible record_op (call # calls) s"
    and "run_records record_op (call # calls) s = (s', rs)"
  obtains x event s1 r rs' where "call = (x, event)" "admissible x event s" "record_op x event s = (s1, r)"
    "invar s1" "along_run admissible record_op calls s1"
    "run_records record_op calls s1 = (s', rs')" "rs = r # rs'"
  using assms(3)
proof (rule run_records_Cons)
  fix x event s1 r rs'
  assume h: "call = (x, event)" "record_op x event s = (s1, r)"
    "run_records record_op calls s1 = (s', rs')" "rs = r # rs'"
  with assms(2) have "admissible x event s" "along_run admissible record_op calls s1" by auto
  with h record_invar [OF assms(1)] that show thesis by blast
qed

lemma run_invar:
  "invar s \<Longrightarrow> along_run admissible record_op calls s \<Longrightarrow> run_records record_op calls s = (s', rs) \<Longrightarrow> invar s'"
proof (induction calls arbitrary: s rs)
  case (Cons call calls)
  from Cons.prems show ?case by (rule run_step) (use Cons.IH in blast)
qed simp

lemma run_keeps_open: "run_records record_op calls s = (s', rs) \<Longrightarrow> closed_of s' = closed_of s"
proof (induction calls arbitrary: s rs)
  case (Cons call calls)
  from Cons.prems show ?case by (rule run_records_Cons) (use Cons.IH record_keeps_open in blast)
qed simp

lemma run_chain_ok:
  "invar s \<Longrightarrow> along_run admissible record_op calls s \<Longrightarrow> \<forall>c. chain_ok c (chain_of s c) \<Longrightarrow>
     run_records record_op calls s = (s', rs) \<Longrightarrow> \<forall>c. chain_ok c (chain_of s' c)"
proof (induction calls arbitrary: s rs)
  case (Cons call calls)
  from Cons.prems(1,2,4) show ?case
    by (rule run_step) (use Cons.IH Cons.prems(1,3) record_chain_ok in blast)
qed simp

lemma run_append_only:
  "invar s \<Longrightarrow> along_run admissible record_op calls s \<Longrightarrow> run_records record_op calls s = (s', rs) \<Longrightarrow>
     \<exists>ext. chain_of s' c = chain_of s c @ ext"
proof (induction calls arbitrary: s rs)
  case (Cons call calls)
  from Cons.prems show ?case
  proof (rule run_step)
    fix x event s1 r rs'
    assume h: "admissible x event s" "record_op x event s = (s1, r)" "invar s1"
      "along_run admissible record_op calls s1" "run_records record_op calls s1 = (s', rs')"
    from Cons.IH [OF h(3-5)] record_extends [OF Cons.prems(1) h(1,2), of c] show ?thesis by auto
  qed
qed simp

lemma run_isolated:
  "invar s \<Longrightarrow> along_run admissible record_op calls s \<Longrightarrow> run_records record_op calls s = (s', rs) \<Longrightarrow>
     \<forall>call \<in> set calls. ChainID (snd call) \<noteq> c \<Longrightarrow> chain_of s' c = chain_of s c"
proof (induction calls arbitrary: s rs)
  case (Cons call calls)
  from Cons.prems(1-3) show ?case
  proof (rule run_step)
    fix x event s1 r rs'
    assume h: "call = (x, event)" "admissible x event s" "record_op x event s = (s1, r)" "invar s1"
      "along_run admissible record_op calls s1" "run_records record_op calls s1 = (s', rs')"
    from Cons.IH [OF h(4-6)] record_isolated [OF Cons.prems(1) h(2,3), of c] Cons.prems(4)
    show ?thesis by (simp add: h(1))
  qed
qed simp

text \<open>
  The positions handed out for a chain are consecutive, without a gap or a repetition, and
  continue where the chain ended.
\<close>

lemma run_ids:
  "invar s \<Longrightarrow> along_run admissible record_op calls s \<Longrightarrow> run_records record_op calls s = (s', rs) \<Longrightarrow>
     ids_for c calls rs = map (\<lambda>k. of_nat k + 1) [length (chain_of s c)..<length (chain_of s' c)]"
proof (induction calls arbitrary: s rs)
  case (Cons call calls)
  from Cons.prems obtain x event s1 r rs' where call: "call = (x, event)" and adm: "admissible x event s"
    and s1: "record_op x event s = (s1, r)" "invar s1" "along_run admissible record_op calls s1"
    and rs: "run_records record_op calls s1 = (s', rs')" "rs = r # rs'"
    by (rule run_step)
  note IH = Cons.IH [OF s1(2,3) rs(1)]
  have grow: "length (chain_of s1 c) \<le> length (chain_of s' c)"
    using run_append_only [OF s1(2,3) rs(1), of c] by auto
  from Cons.prems(1) adm s1(1) show ?case
  proof (rule record_cases)
    fix e assume e: "r = Inr (ID e)" "sealed (chain_of s (ChainID event)) (stamp (now_of x) event) e"
      "chain_of s1 = (chain_of s)(ChainID event := chain_of s (ChainID event) @ [e])"
    have "ChainID event = c \<Longrightarrow> [length (chain_of s c)..<length (chain_of s' c)]
        = length (chain_of s c) # [Suc (length (chain_of s c))..<length (chain_of s' c)]"
      using grow e(3) by (simp add: upt_conv_Cons)
    then show ?thesis
      using IH e(1,3) sealed_fields(1) [OF e(2)] by (auto simp: call rs(2))
  qed (use IH in \<open>auto simp: call rs(2)\<close>)
qed simp

end

section \<open>The reading half\<close>

locale audit_reader = chain_store chain_of closed_of invar now_of admissible record_op
  for chain_of :: "'s \<Rightarrow> string \<Rightarrow> AuditEvent list"
    and closed_of :: "'s \<Rightarrow> bool"
    and invar :: "'s \<Rightarrow> bool"
    and now_of :: "'env \<Rightarrow> gotime"
    and admissible :: "'env \<Rightarrow> AuditEvent \<Rightarrow> 's \<Rightarrow> bool"
    and record_op :: "'env \<Rightarrow> AuditEvent \<Rightarrow> 's \<Rightarrow> 's \<times> EntryID result" +
  fixes verify_op :: "'env \<Rightarrow> string \<Rightarrow> EntryID \<Rightarrow> EntryID \<Rightarrow> 's \<Rightarrow> (bool \<times> VerifyResult) result"
    and get_op :: "'env \<Rightarrow> string \<Rightarrow> EntryID \<Rightarrow> 's \<Rightarrow> AuditEvent result"
    and latest_op :: "'env \<Rightarrow> string \<Rightarrow> 's \<Rightarrow> EntryID result"
  assumes verify_returns: "invar s \<Longrightarrow> verify_op x c from to s = Inr r \<Longrightarrow>
      unat from < 2 ^ 63 \<Longrightarrow> unat to < 2 ^ 63 \<Longrightarrow>
      (if to = 0 \<and> chain_of s c = [] then r = (True, verify_empty)
       else verify_walk GenesisPrevHash (in_range (max 1 from)
         (if to = 0 then of_nat (length (chain_of s c)) else to) (chain_of s c)) = Inr r)"
    and get_returns: "invar s \<Longrightarrow> get_op x c i s = Inr e \<Longrightarrow> unat i < 2 ^ 63 \<Longrightarrow> e \<in> set (chain_of s c) \<and> ID e = i"
    and latest_returns: "invar s \<Longrightarrow> latest_op x c s = Inr i \<Longrightarrow>
      chain_of s c \<noteq> [] \<and> i = of_nat (length (chain_of s c))"
begin

text \<open>A verification of a whole chain never reports a break in a log that was only recorded to.\<close>

lemma verify_accepts:
  assumes "invar s" "\<forall>c. chain_ok c (chain_of s c)" "length (chain_of s c) < 2 ^ 63"
    and "verify_op x c 1 0 s = Inr r"
  shows "r = (True, if chain_of s c = [] then verify_empty else verify_ok)"
proof -
  have "in_range 1 (of_nat (length (chain_of s c))) (chain_of s c) = chain_of s c"
    using in_range_all [of c "chain_of s c"] assms(2,3) by simp
  moreover have "linked GenesisPrevHash (chain_of s c)" using assms(2) by (simp add: chain_ok_def)
  ultimately show ?thesis
    using verify_returns [OF assms(1,4)] verify_walk_ok_iff [of GenesisPrevHash "chain_of s c" verify_ok]
    by (simp split: if_splits)
qed

text \<open>The entry just recorded is the one found at the position returned.\<close>

lemma get_after_record:
  assumes "invar s" "\<forall>c. chain_ok c (chain_of s c)" "length (chain_of s (ChainID event)) < 2 ^ 63 - 1"
    and "admissible x event s" "record_op x event s = (s', Inr i)" "get_op x' (ChainID event) i s' = Inr e"
  shows "sealed (chain_of s (ChainID event)) (stamp (now_of x) event) e"
proof -
  let ?c = "ChainID event"
  obtain f where f: "sealed (chain_of s ?c) (stamp (now_of x) event) f" "i = ID f"
    "chain_of s' = (chain_of s)(?c := chain_of s ?c @ [f])"
    using record_appends [OF assms(1,4,5)] by blast
  note inv' = record_invar [OF assms(1,4,5)]
  have ok: "chain_ok ?c (chain_of s' ?c)" using record_chain_ok [OF assms(1,4,5,2)] by blast
  have ID: "ID f = of_nat (Suc (length (chain_of s ?c)))" using sealed_fields(1) [OF f(1)] by simp
  have "unat i < 2 ^ 63" using assms(3) unfolding f(2) ID
    by (simp add: unsigned_of_nat take_bit_nat_eq_self del: of_nat_Suc)
  with get_returns [OF inv' assms(6)] have e: "e \<in> set (chain_of s' ?c)" "ID e = ID f" by (auto simp: f(2))
  from chain_ID_member [OF ok e(1)] obtain k where
    k: "k < length (chain_of s' ?c)" "e = chain_of s' ?c ! k" "ID e = of_nat (Suc k)" by blast
  have "k = length (chain_of s ?c)"
    using k(1,3) e(2) ID assms(3) f(3)
    by (simp add: word_of_nat_eq_iff take_bit_nat_eq_self del: of_nat_Suc)
  then have "e = f" using k(2) f(3) by simp
  with f(1) show ?thesis by simp
qed

lemma latest_after_record:
  assumes "invar s" "admissible x event s" "record_op x event s = (s', Inr i)"
    and "latest_op x' (ChainID event) s' = Inr j"
  shows "j = i"
proof -
  obtain e where "sealed (chain_of s (ChainID event)) (stamp (now_of x) event) e" "i = ID e"
    "chain_of s' = (chain_of s)(ChainID event := chain_of s (ChainID event) @ [e])"
    using record_appends [OF assms(1-3)] by blast
  with latest_returns [OF record_invar [OF assms(1-3)] assms(4)] show ?thesis
    by (simp add: sealed_fields algebra_simps)
qed

end

section \<open>Stores with many writers\<close>

text \<open>
  A store that others write to while an operation reads it: in every step the invariant
  is kept and chains only grow.  \<open>room\<close> bounds the length of the chains.
\<close>

locale shared_store =
  fixes moves :: "'s \<Rightarrow> 's \<Rightarrow> bool"
    and chain_at :: "'s \<Rightarrow> string \<Rightarrow> AuditEvent list"
    and inv_at :: "'s \<Rightarrow> bool"
    and room :: "'s \<Rightarrow> bool"
  assumes moves_inv: "moves s s' \<Longrightarrow> inv_at s \<Longrightarrow> room s \<Longrightarrow> inv_at s'"
    and moves_grow: "moves s s' \<Longrightarrow> inv_at s \<Longrightarrow> room s \<Longrightarrow> \<exists>ext. chain_at s' c = chain_at s c @ ext"
    and moves_room: "moves s s' \<Longrightarrow> room s' \<Longrightarrow> room s"
    and inv_intact: "inv_at s \<Longrightarrow> chain_ok c (chain_at s c) \<and> length (chain_at s c) < 2 ^ 63"
begin

lemma later_room: "moves\<^sup>*\<^sup>* s s' \<Longrightarrow> room s' \<Longrightarrow> room s"
  by (induction rule: converse_rtranclp_induct) (auto intro: moves_room)

lemma later_inv:
  assumes "moves\<^sup>*\<^sup>* s s'" "inv_at s" "room s'"
  shows "inv_at s'"
  using assms
proof (induction rule: rtranclp_induct)
  case (step t u)
  then show ?case using moves_inv moves_room by blast
qed

lemma later_extends:
  assumes "moves\<^sup>*\<^sup>* s s'" "inv_at s" "room s'"
  shows "\<exists>ext. chain_at s' c = chain_at s c @ ext"
  using assms
proof (induction rule: rtranclp_induct)
  case (step t u)
  have t: "room t" "inv_at t" using step.hyps step.prems moves_room later_inv by blast+
  obtain ext where "chain_at t c = chain_at s c @ ext" using step.IH step.prems(1) t(1) by blast
  moreover obtain ext' where "chain_at u c = chain_at t c @ ext'" using moves_grow [OF step.hyps(2) t(2,1)] by blast
  ultimately show ?case by simp
qed simp

text \<open>A verification from position 1 whose rows are read later than its bound finds no break.\<close>

lemma later_walk:
  assumes "moves\<^sup>*\<^sup>* s s'" "inv_at s" "room s'"
  shows "verify_walk GenesisPrevHash (in_range 1 t (chain_at s' c)) = Inr (True, verify_ok)"
  using inv_intact [OF later_inv [OF assms], of c] by (intro walk_from_start) auto

end

section \<open>Two stores side by side\<close>

text \<open>Entries that protect the same content with the same hash; payloads may differ in representation.\<close>

definition same_entry :: "AuditEvent \<Rightarrow> AuditEvent \<Rightarrow> bool" where
  "same_entry e f \<longleftrightarrow> hash_content e = hash_content f \<and> Hash e = Hash f"

definition same_chain :: "AuditEvent list \<Rightarrow> AuditEvent list \<Rightarrow> bool" where
  "same_chain es fs \<longleftrightarrow> list_all2 same_entry es fs"

lemma same_chain_last: "same_chain es fs \<Longrightarrow> last_hash p es = last_hash p fs"
  unfolding same_chain_def by (induction arbitrary: p rule: list_all2_induct) (auto simp: same_entry_def)

lemma same_chain_snoc: "same_chain es fs \<Longrightarrow> same_entry e f \<Longrightarrow> same_chain (es @ [e]) (fs @ [f])"
  by (simp add: same_chain_def list_all2_appendI)

lemma sealed_same:
  assumes "same_chain es fs" "sealed es event e" "sealed fs event f"
  shows "same_entry e f"
proof -
  have "length es = length fs" using assms(1) by (auto simp: same_chain_def dest: list_all2_lengthD)
  with same_chain_last [OF assms(1)] assms(2,3) have "hash_content e = hash_content f" by (simp add: sealed_def)
  with entry_hash_content [OF this] assms(2,3) show ?thesis by (simp add: same_entry_def sealed_def)
qed

text \<open>The same events, recorded at the same times, as calls to two stores.\<close>

definition same_calls :: "('x \<Rightarrow> gotime) \<Rightarrow> ('y \<Rightarrow> gotime) \<Rightarrow> ('x \<times> AuditEvent) list \<Rightarrow> ('y \<times> AuditEvent) list \<Rightarrow> bool" where
  "same_calls now now' calls calls' \<longleftrightarrow>
     map (\<lambda>(x, event). (now x, event)) calls = map (\<lambda>(y, event). (now' y, event)) calls'"

lemma same_calls_Cons:
  assumes "same_calls now now' ((x, event) # calls) calls'"
  obtains y calls'' where "calls' = (y, event) # calls''" "now x = now' y" "same_calls now now' calls calls''"
  using assms by (cases calls') (auto simp: same_calls_def)

locale store_pair =
  a: chain_store chain_a closed_a invar_a now_a adm_a record_a +
  b: chain_store chain_b closed_b invar_b now_b adm_b record_b
  for chain_a :: "'s \<Rightarrow> string \<Rightarrow> AuditEvent list"
    and closed_a :: "'s \<Rightarrow> bool"
    and invar_a :: "'s \<Rightarrow> bool"
    and now_a :: "'x \<Rightarrow> gotime"
    and adm_a :: "'x \<Rightarrow> AuditEvent \<Rightarrow> 's \<Rightarrow> bool"
    and record_a :: "'x \<Rightarrow> AuditEvent \<Rightarrow> 's \<Rightarrow> 's \<times> EntryID result"
    and chain_b :: "'t \<Rightarrow> string \<Rightarrow> AuditEvent list"
    and closed_b :: "'t \<Rightarrow> bool"
    and invar_b :: "'t \<Rightarrow> bool"
    and now_b :: "'y \<Rightarrow> gotime"
    and adm_b :: "'y \<Rightarrow> AuditEvent \<Rightarrow> 't \<Rightarrow> bool"
    and record_b :: "'y \<Rightarrow> AuditEvent \<Rightarrow> 't \<Rightarrow> 't \<times> EntryID result"
begin

text \<open>One call that succeeds in both stores, or fails in both, keeps their chains the same.\<close>

lemma record_agrees:
  assumes "invar_a s" "adm_a x event s" "record_a x event s = (s', r)"
    and "invar_b t" "adm_b y event t" "record_b y event t = (t', q)"
    and "now_a x = now_b y" "isl r = isl q" "\<forall>c. same_chain (chain_a s c) (chain_b t c)"
  shows "(\<forall>c. same_chain (chain_a s' c) (chain_b t' c)) \<and> (isl r \<or> r = q)"
proof (rule a.record_cases [OF assms(1-3)])
  fix err assume r: "r = Inl err" "chain_a s' = chain_a s"
  show ?thesis
    by (rule b.record_cases [OF assms(4-6)]) (use r assms(8,9) in auto)
next
  fix e assume r: "r = Inr (ID e)" "sealed (chain_a s (ChainID event)) (stamp (now_a x) event) e"
    "chain_a s' = (chain_a s)(ChainID event := chain_a s (ChainID event) @ [e])"
  show ?thesis
  proof (rule b.record_cases [OF assms(4-6)])
    fix f assume q: "q = Inr (ID f)" "sealed (chain_b t (ChainID event)) (stamp (now_b y) event) f"
      "chain_b t' = (chain_b t)(ChainID event := chain_b t (ChainID event) @ [f])"
    have ef: "same_entry e f" using assms(7,9) r(2) q(2) sealed_same by metis
    then have "ID e = ID f" by (simp add: same_entry_def hash_content_def)
    with ef show ?thesis using assms(9) r(1,3) q(1,3) by (simp add: same_chain_snoc)
  qed (use r(1) assms(8) in simp)
qed

lemma runs_agree:
  "invar_a s \<Longrightarrow> along_run adm_a record_a calls s \<Longrightarrow> run_records record_a calls s = (s', rs) \<Longrightarrow>
   invar_b t \<Longrightarrow> along_run adm_b record_b calls' t \<Longrightarrow> run_records record_b calls' t = (t', rs') \<Longrightarrow>
   same_calls now_a now_b calls calls' \<Longrightarrow> map isl rs = map isl rs' \<Longrightarrow>
   \<forall>c. same_chain (chain_a s c) (chain_b t c) \<Longrightarrow>
   (\<forall>c. same_chain (chain_a s' c) (chain_b t' c)) \<and> list_all2 (\<lambda>r q. isl r \<or> r = q) rs rs'"
proof (induction calls arbitrary: s t rs calls' rs')
  case Nil
  then show ?case by (cases calls') (auto simp: same_calls_def)
next
  case (Cons call calls)
  from Cons.prems(1-3) obtain x event s1 r rs1 where call: "call = (x, event)" and a: "adm_a x event s"
    "record_a x event s = (s1, r)" "invar_a s1" "along_run adm_a record_a calls s1"
    "run_records record_a calls s1 = (s', rs1)" "rs = r # rs1"
    by (rule a.run_step)
  from Cons.prems(7) call obtain y calls1 where y: "calls' = (y, event) # calls1" "now_a x = now_b y"
    "same_calls now_a now_b calls calls1" using same_calls_Cons by metis
  have "\<exists>t1 q rs1'. adm_b y event t \<and> record_b y event t = (t1, q) \<and> invar_b t1 \<and>
      along_run adm_b record_b calls1 t1 \<and> run_records record_b calls1 t1 = (t', rs1') \<and> rs' = q # rs1'"
    by (rule b.run_step [OF Cons.prems(4-6) [unfolded y(1)]]) blast
  then obtain t1 q rs1' where b: "adm_b y event t" "record_b y event t = (t1, q)" "invar_b t1"
    "along_run adm_b record_b calls1 t1" "run_records record_b calls1 t1 = (t', rs1')" "rs' = q # rs1'" by blast
  have isl: "isl r = isl q" "map isl rs1 = map isl rs1'" using Cons.prems(8) a(6) b(6) by simp_all
  note st = record_agrees [OF Cons.prems(1) a(1,2) Cons.prems(4) b(1,2) y(2) isl(1) Cons.prems(9)]
  from Cons.IH [OF a(3-5) b(3-5) y(3) isl(2)] st show ?case by (simp add: a(6) b(6))
qed

end

end
