(* ===== verification/Events.thy ===== *)
theory Events
  imports AuditTypes
begin

text \<open>
  \<^verbatim>\<open>events.go\<close> and \<^verbatim>\<open>logger.go\<close>.  The event bus and the logger a caller supplies are outside
  the repository: a bus is a parameter, the function that gives the outcome of its
  \<^verbatim>\<open>Publish\<close> (\<open>None\<close> for a nil error), and what the program does to the two is recorded as
  a list of effects, in the order they happen.  Opening and closing a connection pool of \<^verbatim>\<open>postgres.go\<close> or a
  client of \<^verbatim>\<open>mongo.go\<close> are effects of the same kind.
\<close>

definition TopicAuditRecorded :: string where
  "TopicAuditRecorded = ''audit.recorded''"

record grevent =
  Topic :: string
  evPayload :: AuditEvent
  Metadata :: "(string \<times> string) list"

type_synonym bus = "grevent \<Rightarrow> goerror option"

datatype Logger = NopLogger | CallerLogger

definition OrNop :: "Logger option \<Rightarrow> Logger" where
  "OrNop l = (case l of None \<Rightarrow> NopLogger | Some lg \<Rightarrow> lg)"

datatype effect =
    Publish grevent
  | Warn string EntryID goerror
  | LogInfo string "(string \<times> string) list"
  | LogError string goerror
  | PoolOpened
  | PoolClosed
  | ClientConnected
  | ClientDisconnected

fun log_warn :: "Logger \<Rightarrow> string \<Rightarrow> EntryID \<Rightarrow> goerror \<Rightarrow> effect list" where
  "log_warn NopLogger msg i err = []"
| "log_warn CallerLogger msg i err = [Warn msg i err]"

fun log_info :: "Logger \<Rightarrow> string \<Rightarrow> (string \<times> string) list \<Rightarrow> effect list" where
  "log_info NopLogger msg attrs = []"
| "log_info CallerLogger msg attrs = [LogInfo msg attrs]"

fun log_error :: "Logger \<Rightarrow> string \<Rightarrow> goerror \<Rightarrow> effect list" where
  "log_error NopLogger msg err = []"
| "log_error CallerLogger msg err = [LogError msg err]"

definition recorded_event :: "AuditEvent \<Rightarrow> grevent" where
  "recorded_event entry =
     \<lparr>Topic = TopicAuditRecorded, evPayload = entry,
      Metadata = [(''chain_id'', ChainID entry), (''actor_id'', ActorID entry),
        (''entity_type'', EntityType entry), (''entity_id'', EntityID entry)]\<rparr>"

definition PublishRecorded :: "bus option \<Rightarrow> Logger \<Rightarrow> AuditEvent \<Rightarrow> effect list" where
  "PublishRecorded b lg entry =
     (case b of
        None \<Rightarrow> []
      | Some publish \<Rightarrow>
          (let event = recorded_event entry in
           Publish event #
           (case publish event of
              None \<Rightarrow> []
            | Some err \<Rightarrow> log_warn lg ''graudit: publish failed'' (ID entry) err)))"

text \<open>The events published, whatever was logged.\<close>

fun published :: "effect list \<Rightarrow> grevent list" where
  "published [] = []"
| "published (Publish ev # es) = ev # published es"
| "published (_ # es) = published es"

lemma published_log_warn [simp]: "published (log_warn lg m i err) = []"
  by (cases lg) auto

text \<open>Logging opens and closes no connection.\<close>

definition connection_effects :: "effect list" where
  "connection_effects = [PoolOpened, PoolClosed, ClientConnected, ClientDisconnected]"

lemma count_log [simp]:
  assumes "e \<in> set connection_effects"
  shows "count_list (log_info lg m attrs) e = 0" "count_list (log_error lg m err) e = 0"
    "e \<notin> set (log_info lg m attrs)" "e \<notin> set (log_error lg m err)"
  using assms by (cases lg; auto simp: connection_effects_def)+

lemma connection_effects_simps [simp]:
  "PoolOpened \<in> set connection_effects" "PoolClosed \<in> set connection_effects"
  "ClientConnected \<in> set connection_effects" "ClientDisconnected \<in> set connection_effects"
  by (simp_all add: connection_effects_def)

lemma published_PublishRecorded [event_simps]:
  "published (PublishRecorded b lg entry) = (if b = None then [] else [recorded_event entry])"
  by (auto simp: PublishRecorded_def Let_def split: option.splits)

end
