(* ===== verification/Diff.thy ===== *)
theory Diff
  imports AuditTypes
begin

text \<open>
  \<^verbatim>\<open>diff.go\<close>: the field-level difference of two snapshots and the event \<^verbatim>\<open>RecordChange\<close>
  builds from it.  Go visits the keys of a map in an order that is not specified and may
  differ from call to call; the order is a parameter here, a function of the call (the
  keys leading to it) and of the keys to visit, and the theorems hold for every order
  that visits each key once (\<open>iteration_order\<close>).

  \<open>differs\<close> is the specification: which key paths differ, and how.
\<close>

record FieldDiff =
  DBefore :: goval
  DAfter :: goval

type_synonym ChangeDiff = "(string \<times> FieldDiff) list"
type_synonym object = "(string \<times> goval) list"
type_synonym key_order = "string list \<Rightarrow> string list \<Rightarrow> string list"

section \<open>The operations\<close>

definition normalizeToObject :: "goval \<Rightarrow> object result" where
  "normalizeToObject v =
     (if v = GNil then Inr []
      else case marshal v of
        None \<Rightarrow> Inl (Native ''json'')
      | Some raw \<Rightarrow>
          (case json_decode raw of
             Some (GMap m) \<Rightarrow> Inr m
           | Some GNil \<Rightarrow> Inr []
           | _ \<Rightarrow> Inl (Errorf ''value must marshal to a JSON object'' [Native ''json''])))"

definition valueOrNil :: "goval option \<Rightarrow> goval" where
  "valueOrNil v = (case v of None \<Rightarrow> GNil | Some x \<Rightarrow> x)"

definition seen_keys :: "object \<Rightarrow> object \<Rightarrow> string list" where
  "seen_keys before after = remdups (map fst before @ map fst after)"

definition path_of :: "string \<Rightarrow> string \<Rightarrow> string" where
  "path_of prefix k = (if prefix \<noteq> [] then prefix @ ''.'' @ k else k)"

text \<open>Both values are maps: the two type assertions of the loop.\<close>

fun both_maps :: "goval option \<Rightarrow> goval option \<Rightarrow> (object \<times> object) option" where
  "both_maps (Some (GMap b)) (Some (GMap a)) = Some (b, a)"
| "both_maps _ _ = None"

lemma both_maps_Some: "both_maps bv av = Some (b, a) \<longleftrightarrow> bv = Some (GMap b) \<and> av = Some (GMap a)"
  by (cases "(bv, av)" rule: both_maps.cases) auto

lemma size_member_object [termination_simp]:
  "map_of before k = Some (GMap m) \<Longrightarrow> size_list (size_prod (\<lambda>x. 0) size) m < size_list (size_prod (\<lambda>x. 0) size) before"
proof -
  assume "map_of before k = Some (GMap m)"
  then have "(k, GMap m) \<in> set before" by (rule map_of_SomeD)
  then have "size_prod (\<lambda>x. 0) size (k, GMap m) \<le> size_list (size_prod (\<lambda>x. 0) size) before"
    by (rule size_list_estimation') simp
  then show ?thesis by simp
qed

function collectDiff :: "key_order \<Rightarrow> string list \<Rightarrow> string \<Rightarrow> object \<Rightarrow> object \<Rightarrow> ChangeDiff \<Rightarrow> ChangeDiff" where
  "collectDiff visit call prefix before after diff =
     fold (\<lambda>k d.
        let path = path_of prefix k in
        case both_maps (map_of before k) (map_of after k) of
          Some (bMap, aMap) \<Rightarrow> collectDiff visit (call @ [k]) path bMap aMap d
        | None \<Rightarrow>
            if map_of before k \<noteq> None \<and> map_of after k \<noteq> None \<and> map_of before k = map_of after k then d
            else map_set path
              \<lparr>DBefore = valueOrNil (map_of before k), DAfter = valueOrNil (map_of after k)\<rparr> d)
       (visit call (seen_keys before after)) diff"
  by pat_completeness auto
termination
  by (relation "measure (\<lambda>(visit, call, prefix, before, after, diff). size_list (size_prod (\<lambda>x. 0) size) before)")
    (auto simp: both_maps_Some size_member_object)

declare collectDiff.simps [simp del]

definition computeDiff :: "key_order \<Rightarrow> goval \<Rightarrow> goval \<Rightarrow> ChangeDiff result" where
  "computeDiff visit before after =
     (case normalizeToObject before of
        Inl e \<Rightarrow> Inl (Errorf ''diff: normalize before'' [Sentinel ErrInvalidEvent])
      | Inr beforeMap \<Rightarrow>
          (case normalizeToObject after of
             Inl e \<Rightarrow> Inl (Errorf ''diff: normalize after'' [Sentinel ErrInvalidEvent])
           | Inr afterMap \<Rightarrow> Inr (collectDiff visit [] [] beforeMap afterMap [])))"

text \<open>A \<^verbatim>\<open>ChangeDiff\<close> as a payload: the fields of a \<^verbatim>\<open>FieldDiff\<close> are omitted when nil.\<close>

definition omitempty :: "string \<Rightarrow> goval \<Rightarrow> object" where
  "omitempty k v = (if v = GNil then [] else [(k, v)])"

definition diff_payload :: "ChangeDiff \<Rightarrow> goval" where
  "diff_payload d =
     GMap (map (\<lambda>(p, fd). (p, GStruct (omitempty ''before'' (DBefore fd) @ omitempty ''after'' (DAfter fd)))) d)"

definition BuildChangeEvent ::
  "key_order \<Rightarrow> string \<Rightarrow> string \<Rightarrow> string \<Rightarrow> string \<Rightarrow> goval \<Rightarrow> goval \<Rightarrow> AuditEvent result" where
  "BuildChangeEvent visit chainID actorID entityType entityID before after =
     (case computeDiff visit before after of
        Inl e \<Rightarrow> Inl e
      | Inr diff \<Rightarrow>
          (let action = (if before = GNil then ''create'' else if after = GNil then ''delete'' else ''update'')
           in Inr (zero_event\<lparr>ChainID := chainID, ActorID := actorID, EntityType := entityType,
                EntityID := entityID, Action := action, Payload := diff_payload diff\<rparr>)))"

section \<open>The specification\<close>

definition iteration_order :: "key_order \<Rightarrow> bool" where
  "iteration_order visit \<longleftrightarrow> (\<forall>call ks. distinct ks \<longrightarrow> distinct (visit call ks) \<and> set (visit call ks) = set ks)"

text \<open>The key paths at which two objects differ, with the values on both sides.\<close>

fun differs :: "object \<Rightarrow> object \<Rightarrow> string list \<Rightarrow> FieldDiff \<Rightarrow> bool" where
  "differs before after [] fd = False"
| "differs before after (k # ks) fd =
     (case both_maps (map_of before k) (map_of after k) of
        Some (b, a) \<Rightarrow> differs b a ks fd
      | None \<Rightarrow> ks = [] \<and> map_of before k \<noteq> map_of after k
          \<and> fd = \<lparr>DBefore = valueOrNil (map_of before k), DAfter = valueOrNil (map_of after k)\<rparr>)"

fun join_path :: "string \<Rightarrow> string list \<Rightarrow> string" where
  "join_path prefix [] = prefix"
| "join_path prefix (k # ks) = join_path (path_of prefix k) ks"

section \<open>What the walk reports\<close>

text \<open>One turn of the loop of \<^verbatim>\<open>collectDiff\<close>.\<close>

definition diff_step ::
  "key_order \<Rightarrow> string list \<Rightarrow> string \<Rightarrow> object \<Rightarrow> object \<Rightarrow> string \<Rightarrow> ChangeDiff \<Rightarrow> ChangeDiff" where
  "diff_step visit call prefix before after k d =
     (case both_maps (map_of before k) (map_of after k) of
        Some (b, a) \<Rightarrow> collectDiff visit (call @ [k]) (path_of prefix k) b a d
      | None \<Rightarrow>
          if map_of before k \<noteq> None \<and> map_of after k \<noteq> None \<and> map_of before k = map_of after k then d
          else map_set (path_of prefix k)
            \<lparr>DBefore = valueOrNil (map_of before k), DAfter = valueOrNil (map_of after k)\<rparr> d)"

lemma collectDiff_fold:
  "collectDiff visit call prefix before after diff
     = fold (diff_step visit call prefix before after) (visit call (seen_keys before after)) diff"
  by (subst collectDiff.simps) (simp add: diff_step_def [abs_def] Let_def)

lemma set_seen_keys: "k \<in> set (seen_keys before after) \<longleftrightarrow> map_of before k \<noteq> None \<or> map_of after k \<noteq> None"
  by (auto simp: seen_keys_def map_of_eq_None_iff)

lemma set_visit: "iteration_order visit \<Longrightarrow> set (visit call (seen_keys before after)) = set (seen_keys before after)"
  by (simp add: iteration_order_def seen_keys_def)

text \<open>An invariant of the loop, for every nesting level.\<close>

lemma collectDiff_preserves:
  assumes "P d" "\<And>p fd d. P d \<Longrightarrow> P (map_set p fd d)"
  shows "P (collectDiff visit call prefix before after d)"
  using assms(1)
proof (induction visit call prefix before after d rule: collectDiff.induct)
  case (1 visit call prefix before after d)
  show ?case
  proof (subst collectDiff_fold, rule fold_invariant [of _ "\<lambda>k. k \<in> set (visit call (seen_keys before after))"])
    fix k d assume "k \<in> set (visit call (seen_keys before after))" "P d"
    with "1.IH" [OF this(1) refl] show "P (diff_step visit call prefix before after k d)"
      by (auto simp: diff_step_def assms(2) split: option.splits)
  qed (use "1.prems" in auto)
qed

lemma collectDiff_sorted: "sorted_keys d \<Longrightarrow> sorted_keys (collectDiff visit call prefix before after d)"
  by (rule collectDiff_preserves) auto

lemma collectDiff_keeps_keys: "p \<in> fst ` set d \<Longrightarrow> p \<in> fst ` set (collectDiff visit call prefix before after d)"
  by (rule collectDiff_preserves [where P = "\<lambda>d. p \<in> fst ` set d"]) auto

lemma diff_step_keeps_keys: "p \<in> fst ` set d \<Longrightarrow> p \<in> fst ` set (diff_step visit call prefix before after k d)"
  by (auto simp: diff_step_def collectDiff_keeps_keys split: option.splits)

lemma differs_Cons_leaf:
  assumes "both_maps (map_of before k) (map_of after k) = None"
  shows "differs before after (k # ks) fd \<longleftrightarrow> ks = [] \<and> map_of before k \<noteq> map_of after k
    \<and> fd = \<lparr>DBefore = valueOrNil (map_of before k), DAfter = valueOrNil (map_of after k)\<rparr>"
  using assms by simp

lemma collectDiff_sound:
  assumes "iteration_order visit"
  shows "(p, fd) \<in> set (collectDiff visit call prefix before after d) \<Longrightarrow>
    (p, fd) \<in> set d \<or> (\<exists>ks. differs before after ks fd \<and> p = join_path prefix ks)"
  using assms
proof (induction visit call prefix before after d arbitrary: p fd rule: collectDiff.induct)
  case (1 visit call prefix before after d)
  let ?Q = "\<lambda>e. \<forall>(p, fd) \<in> set e. (p, fd) \<in> set d \<or> (\<exists>ks. differs before after ks fd \<and> p = join_path prefix ks)"
  have "?Q (collectDiff visit call prefix before after d)"
  proof (subst collectDiff_fold, rule fold_invariant [of _ "\<lambda>k. k \<in> set (visit call (seen_keys before after))"])
    fix k e assume k: "k \<in> set (visit call (seen_keys before after))" and e: "?Q e"
    show "?Q (diff_step visit call prefix before after k e)"
    proof (cases "both_maps (map_of before k) (map_of after k)")
      case (Some ba)
      obtain b a where ba: "ba = (b, a)" by (cases ba)
      have "(q, fd) \<in> set e \<or> (\<exists>ks. differs before after (k # ks) fd \<and> q = join_path prefix (k # ks))"
        if "(q, fd) \<in> set (diff_step visit call prefix before after k e)" for q fd
        using "1.IH" [OF k refl Some ba [symmetric], of q fd] that Some ba "1.prems"(2)
        by (auto simp: diff_step_def)
      with e show ?thesis by blast
    next
      case None
      let ?FD = "\<lparr>DBefore = valueOrNil (map_of before k), DAfter = valueOrNil (map_of after k)\<rparr>"
      have seen: "map_of before k \<noteq> None \<or> map_of after k \<noteq> None"
        using k "1.prems"(2) by (simp add: set_visit set_seen_keys)
      have leaf: "\<exists>ks. differs before after ks ?FD \<and> path_of prefix k = join_path prefix ks"
        if "map_of before k \<noteq> map_of after k"
        using None that by (intro exI [of _ "[k]"]) simp
      show ?thesis
      proof (cases "map_of before k = map_of after k")
        case True
        with seen None e show ?thesis by (auto simp: diff_step_def)
      next
        case False
        have "set (diff_step visit call prefix before after k e) \<subseteq> insert (path_of prefix k, ?FD) (set e)"
          using None False set_map_set [of "path_of prefix k" ?FD e] by (simp add: diff_step_def)
        with e leaf [OF False] show ?thesis by blast
      qed
    qed
  qed auto
  with "1.prems"(1) show ?case by auto
qed

lemma collectDiff_complete:
  assumes "iteration_order visit"
  shows "differs before after ks fd \<Longrightarrow>
    join_path prefix ks \<in> fst ` set (collectDiff visit call prefix before after d)"
proof (induction ks arbitrary: before after prefix call d)
  case (Cons k ks)
  have "map_of before k \<noteq> None \<or> map_of after k \<noteq> None"
    using Cons.prems by (auto split: option.splits simp: both_maps_Some)
  then have "k \<in> set (visit call (seen_keys before after))"
    using assms by (simp add: set_visit set_seen_keys)
  then obtain us vs where v: "visit call (seen_keys before after) = us @ k # vs" by (meson split_list)
  have "join_path prefix (k # ks) \<in> fst ` set (diff_step visit call prefix before after k e)" for e
    using Cons.prems Cons.IH [of _ _ "path_of prefix k" "call @ [k]" e]
    by (auto simp: diff_step_def split: option.splits simp flip: image_iff)
  moreover have "p \<in> fst ` set e \<Longrightarrow> p \<in> fst ` set (fold (diff_step visit call prefix before after) vs e)" for p e
    by (rule fold_invariant [of _ "\<lambda>_. True" "\<lambda>e. p \<in> fst ` set e"]) (auto simp: diff_step_keeps_keys)
  ultimately show ?case unfolding collectDiff_fold v by simp
qed simp

lemma collectDiff_Nil_iff:
  assumes "iteration_order visit"
  shows "collectDiff visit call prefix before after [] = [] \<longleftrightarrow> (\<forall>ks fd. \<not> differs before after ks fd)"
proof
  assume "collectDiff visit call prefix before after [] = []"
  then show "\<forall>ks fd. \<not> differs before after ks fd"
    using collectDiff_complete [OF assms, of before after _ _ prefix call "[]"] by fastforce
next
  assume none: "\<forall>ks fd. \<not> differs before after ks fd"
  show "collectDiff visit call prefix before after [] = []"
  proof (rule ccontr)
    assume "collectDiff visit call prefix before after [] \<noteq> []"
    then obtain p fd where "(p, fd) \<in> set (collectDiff visit call prefix before after [])"
      by (cases "collectDiff visit call prefix before after []") auto
    from collectDiff_sound [OF assms this] none show False by simp
  qed
qed

lemma sorted_keys_values:
  assumes "sorted_keys m"
  shows "m = map (\<lambda>k. (k, the (map_of m k))) (map fst m)"
proof -
  have "\<forall>p \<in> set m. (fst p, the (map_of m (fst p))) = p"
    using sorted_keys_distinct [OF assms] by auto
  then show ?thesis by (simp add: map_idI)
qed

lemma sorted_keys_ext:
  assumes "sorted_keys m" "sorted_keys n" "map_of m = map_of n"
  shows "m = n"
proof -
  have "set (map fst m) = set (map fst n)"
    using assms(3) by (metis dom_map_of_conv_image_fst list.set_map)
  then have keys: "map fst m = map fst n"
    using assms(1,2) unfolding sorted_keys_def strict_sorted_iff by (simp add: sorted_distinct_set_unique)
  have "m = map (\<lambda>k. (k, the (map_of m k))) (map fst m)" by (rule sorted_keys_values [OF assms(1)])
  also have "\<dots> = map (\<lambda>k. (k, the (map_of n k))) (map fst n)" by (simp only: keys assms(3))
  also have "\<dots> = n" by (rule sorted_keys_values [OF assms(2), symmetric])
  finally show ?thesis .
qed

lemma normal_members:
  assumes "normal (GMap m)" "map_of m k = Some v"
  shows "normal v"
  using assms map_of_SomeD [OF assms(2)] by fastforce

lemma no_difference:
  assumes "normal (GMap b)" "normal (GMap a)" "\<forall>ks fd. \<not> differs b a ks fd"
  shows "b = a"
  using assms
proof (induction b arbitrary: a rule: measure_induct_rule [of "size_list (size_prod (\<lambda>x. 0) size)"])
  case (less b)
  have "map_of b k = map_of a k" for k
  proof (cases "both_maps (map_of b k) (map_of a k)")
    case None
    with less.prems(3) have "\<not> differs b a [k] \<lparr>DBefore = valueOrNil (map_of b k), DAfter = valueOrNil (map_of a k)\<rparr>"
      by blast
    with None show ?thesis by simp
  next
    case (Some ba)
    then obtain b' a' where m: "map_of b k = Some (GMap b')" "map_of a k = Some (GMap a')"
      by (cases ba) (auto simp: both_maps_Some)
    have "\<not> differs b' a' ks fd" for ks fd
      using less.prems(3) [rule_format, of "k # ks" fd] m by simp
    with less.IH [OF size_member_object [OF m(1)] normal_members [OF less.prems(1) m(1)]
        normal_members [OF less.prems(2) m(2)]] m
    show ?thesis by simp
  qed
  with less.prems(1,2) show ?case by (intro sorted_keys_ext) auto
qed

lemma no_self_difference: "\<not> differs m m ks fd"
proof (induction ks arbitrary: m)
  case (Cons k ks)
  then show ?case by (auto split: option.splits simp: both_maps_Some)
qed simp

lemma normalizeToObject_normal: "normalizeToObject v = Inr m \<Longrightarrow> normal (GMap m)"
  by (auto simp: normalizeToObject_def simp del: normal.simps split: if_splits option.splits goval.splits
      intro: json_decode_normal(1)) simp_all

lemma computeDiff_Inr:
  assumes "computeDiff visit before after = Inr d"
  obtains b a where "normalizeToObject before = Inr b" "normalizeToObject after = Inr a"
    "d = collectDiff visit [] [] b a []"
  using assms by (auto simp: computeDiff_def split: sum.splits)

section \<open>Paths\<close>

definition plain_key :: "string \<Rightarrow> bool" where
  "plain_key k \<longleftrightarrow> k \<noteq> [] \<and> CHR ''.'' \<notin> set k"

fun plain_keys :: "goval \<Rightarrow> bool" where
  "plain_keys (GMap kvs) = (\<forall>(k, v) \<in> set kvs. plain_key k \<and> plain_keys v)"
| "plain_keys _ = True"

lemma join_path_nonempty: "p \<noteq> [] \<Longrightarrow> join_path p ks = p @ concat (map (\<lambda>k. CHR ''.'' # k) ks)"
  by (induction ks arbitrary: p) (auto simp: path_of_def)

lemma join_path_start: "k \<noteq> [] \<Longrightarrow> join_path [] (k # ks) = k @ concat (map (\<lambda>k. CHR ''.'' # k) ks)"
  by (simp add: path_of_def join_path_nonempty)

lemma dotted_inj:
  assumes "k @ concat (map (\<lambda>k. CHR ''.'' # k) ks) = l @ concat (map (\<lambda>k. CHR ''.'' # k) ls)"
    and "\<forall>x \<in> set (k # ks) \<union> set (l # ls). CHR ''.'' \<notin> set x"
  shows "k # ks = l # ls"
  using assms
proof (induction ks arbitrary: k l ls)
  case Nil
  then show ?case by (cases ls) auto
next
  case (Cons k' ks)
  show ?case
  proof (cases ls)
    case Nil
    with Cons.prems show ?thesis by auto
  next
    case (Cons l' ls')
    have "k @ CHR ''.'' # (k' @ concat (map (\<lambda>k. CHR ''.'' # k) ks))
        = l @ CHR ''.'' # (l' @ concat (map (\<lambda>k. CHR ''.'' # k) ls'))"
      using Cons.prems(1) by (simp add: Cons)
    from split_at_char [OF this] Cons.prems(2) Cons.IH [of k' l' ls'] show ?thesis by (auto simp: Cons)
  qed
qed

lemma join_path_inj:
  assumes "join_path [] ks = join_path [] ls" "\<forall>k \<in> set ks \<union> set ls. plain_key k"
    and "ks \<noteq> []" "ls \<noteq> []"
  shows "ks = ls"
proof -
  obtain k ks' l ls' where s: "ks = k # ks'" "ls = l # ls'" using assms(3,4) by (meson list.exhaust)
  have "k @ concat (map (\<lambda>k. CHR ''.'' # k) ks') = l @ concat (map (\<lambda>k. CHR ''.'' # k) ls')"
    using assms(1,2) join_path_start [of k ks'] join_path_start [of l ls'] by (simp add: s plain_key_def)
  then show ?thesis unfolding s by (rule dotted_inj) (use assms(2) s in \<open>auto simp: plain_key_def\<close>)
qed

lemma plain_members:
  assumes "plain_keys (GMap m)" "map_of m k = Some v"
  shows "plain_key k" "plain_keys v"
  using assms(1) map_of_SomeD [OF assms(2)] by auto

lemma differs_plain:
  "differs b a ks fd \<Longrightarrow> plain_keys (GMap b) \<Longrightarrow> plain_keys (GMap a) \<Longrightarrow> ks \<noteq> [] \<and> (\<forall>k \<in> set ks. plain_key k)"
proof (induction ks arbitrary: b a)
  case (Cons k ks)
  have k: "plain_key k"
    using Cons.prems(1) plain_members(1) [OF Cons.prems(2), of k] plain_members(1) [OF Cons.prems(3), of k]
    by (cases "map_of b k"; cases "map_of a k") auto
  show ?case
  proof (cases "both_maps (map_of b k) (map_of a k)")
    case None
    with Cons.prems(1) k show ?thesis by simp
  next
    case (Some ba)
    then obtain b' a' where ba: "map_of b k = Some (GMap b')" "map_of a k = Some (GMap a')"
      by (cases ba) (auto simp: both_maps_Some)
    note p = plain_members(2) [OF Cons.prems(2) ba(1)] plain_members(2) [OF Cons.prems(3) ba(2)]
    have "differs b' a' ks fd" using Cons.prems(1) ba by simp
    from Cons.IH [OF this p] k show ?thesis by simp
  qed
qed simp

lemma differs_functional: "differs b a ks fd \<Longrightarrow> differs b a ks fd' \<Longrightarrow> fd = fd'"
proof (induction ks arbitrary: b a)
  case (Cons k ks)
  then show ?case by (cases "both_maps (map_of b k) (map_of a k)") auto
qed simp

section \<open>Properties\<close>

lemma collectDiff_exact:
  assumes "iteration_order visit" "plain_keys (GMap b)" "plain_keys (GMap a)"
    and "\<forall>k \<in> set ks. plain_key k" "ks \<noteq> []"
  shows "map_of (collectDiff visit [] [] b a []) (join_path [] ks) = Some fd \<longleftrightarrow> differs b a ks fd"
proof -
  have sound: "differs b a ks fd'"
    if "map_of (collectDiff visit [] [] b a []) (join_path [] ks) = Some fd'" for fd'
  proof -
    from collectDiff_sound [OF assms(1) map_of_SomeD [OF that]]
    obtain ls where ls: "differs b a ls fd'" "join_path [] ks = join_path [] ls" by auto
    note p = differs_plain [OF ls(1) assms(2,3)]
    have "ks = ls" by (rule join_path_inj [OF ls(2)]) (use p assms(4,5) in auto)
    with ls(1) show ?thesis by simp
  qed
  show ?thesis
  proof
    assume d: "differs b a ks fd"
    from collectDiff_complete [OF assms(1) d, of "[]" "[]" "[]"]
    obtain fd' where "map_of (collectDiff visit [] [] b a []) (join_path [] ks) = Some fd'"
      by (metis domD dom_map_of_conv_image_fst)
    with sound [OF this] differs_functional [OF d] show
      "map_of (collectDiff visit [] [] b a []) (join_path [] ks) = Some fd" by simp
  qed (rule sound)
qed

text \<open>
  C16. For snapshots whose keys are non-empty and contain no dot, \<^verbatim>\<open>computeDiff\<close> reports
  under a dotted path exactly the difference the two normalised snapshots have at that
  path, with the values of both sides, whatever the order in which maps are iterated.
\<close>

theorem computeDiff_exact:
  assumes "iteration_order visit" "computeDiff visit before after = Inr d"
    and "normalizeToObject before = Inr b" "normalizeToObject after = Inr a"
    and "plain_keys (GMap b)" "plain_keys (GMap a)" "list_all plain_key ks" "ks \<noteq> []"
  shows "map_of d (join_path [] ks) = Some fd \<longleftrightarrow> differs b a ks fd"
  using assms collectDiff_exact [OF assms(1,5,6), of ks fd]
  by (auto simp: computeDiff_def list_all_iff)

text \<open>
  \<^verbatim>\<open>computeDiff\<close> returns an empty diff exactly when the two snapshots normalise to the
  same object, in every iteration order.
\<close>

theorem computeDiff_empty_iff:
  assumes "iteration_order visit" "computeDiff visit before after = Inr d"
  shows "d = [] \<longleftrightarrow> normalizeToObject before = normalizeToObject after"
proof -
  from assms(2) obtain b a where n: "normalizeToObject before = Inr b" "normalizeToObject after = Inr a"
    and d: "d = collectDiff visit [] [] b a []" by (rule computeDiff_Inr)
  have "d = [] \<longleftrightarrow> b = a"
    unfolding d collectDiff_Nil_iff [OF assms(1)]
    using no_difference [OF normalizeToObject_normal [OF n(1)] normalizeToObject_normal [OF n(2)]]
    by (auto simp: no_self_difference)
  with n show ?thesis by simp
qed

text \<open>
  For snapshots whose keys are non-empty and contain no dot, the diff does not depend
  on the order in which Go iterates over the maps.
\<close>

theorem computeDiff_deterministic:
  assumes "iteration_order visit" "iteration_order visit'"
    and "normalizeToObject before = Inr b" "normalizeToObject after = Inr a"
    and "plain_keys (GMap b)" "plain_keys (GMap a)"
  shows "computeDiff visit before after = computeDiff visit' before after"
proof -
  let ?d = "collectDiff visit [] [] b a []" and ?d' = "collectDiff visit' [] [] b a []"
  have sub: "map_of (collectDiff v' [] [] b a []) p = Some fd"
    if "map_of (collectDiff v [] [] b a []) p = Some fd" "iteration_order v" "iteration_order v'" for p fd v v'
  proof -
    from collectDiff_sound [OF that(2) map_of_SomeD [OF that(1)]]
    obtain ks where ks: "differs b a ks fd" "p = join_path [] ks" by auto
    with collectDiff_exact [OF that(3) assms(5,6)] differs_plain [OF ks(1) assms(5,6)]
    show ?thesis by blast
  qed
  have "map_of ?d p = map_of ?d' p" for p
    using sub [OF _ assms(1,2), of p] sub [OF _ assms(2,1), of p]
    by (cases "map_of ?d p"; cases "map_of ?d' p") auto
  then have "?d = ?d'" by (intro sorted_keys_ext collectDiff_sorted) auto
  with assms(3,4) show ?thesis by (simp add: computeDiff_def)
qed

lemma differs_normal:
  "differs b a ks fd \<Longrightarrow> normal (GMap b) \<Longrightarrow> normal (GMap a) \<Longrightarrow> normal (DBefore fd) \<and> normal (DAfter fd)"
proof (induction ks arbitrary: b a)
  case (Cons k ks)
  show ?case
  proof (cases "both_maps (map_of b k) (map_of a k)")
    case None
    have "normal (valueOrNil (map_of m k))" if "normal (GMap m)" for m
      using normal_members [OF that, of k] by (cases "map_of m k") (auto simp: valueOrNil_def)
    with Cons.prems None show ?thesis by (simp del: normal.simps)
  next
    case (Some ba)
    then obtain b' a' where ba: "map_of b k = Some (GMap b')" "map_of a k = Some (GMap a')"
      by (cases ba) (auto simp: both_maps_Some)
    with Cons.IH [of b' a'] Cons.prems normal_members [OF Cons.prems(2) ba(1)]
      normal_members [OF Cons.prems(3) ba(2)]
    show ?thesis by simp
  qed
qed simp

lemma diff_payload_marshal:
  assumes "\<forall>(p, fd) \<in> set d. normal (DBefore fd) \<and> normal (DAfter fd)"
  shows "marshal (diff_payload d) \<noteq> None"
proof -
  have field: "marshal (GStruct (omitempty ''before'' (DBefore fd) @ omitempty ''after'' (DAfter fd))) \<noteq> None"
    if mem: "(p, fd) \<in> set d" for p fd
  proof -
    obtain t u where "marshal (DBefore fd) = Some t" "marshal (DAfter fd) = Some u"
      using assms mem normal_marshal [of "DBefore fd"] normal_marshal [of "DAfter fd"] by blast
    then show ?thesis by (auto simp: omitempty_def tag_def)
  qed
  then have "those (map (\<lambda>(k, v). tag k (marshal v)) (map (\<lambda>(p, fd). (p, GStruct (omitempty ''before'' (DBefore fd)
      @ omitempty ''after'' (DAfter fd)))) d)) \<noteq> None"
    unfolding those_map_None by (auto simp: tag_def simp del: marshal.simps)
  then show ?thesis by (auto simp: diff_payload_def)
qed

text \<open>
  An event built by \<^verbatim>\<open>BuildChangeEvent\<close> for non-empty identifiers passes \<^verbatim>\<open>Validate\<close>: its
  action is set and its payload, the diff, can always be marshalled.
\<close>

theorem BuildChangeEvent_valid:
  assumes "iteration_order visit"
    and "BuildChangeEvent visit chainID actorID entityType entityID before after = Inr e"
    and "chainID \<noteq> []" "actorID \<noteq> []" "entityType \<noteq> []" "entityID \<noteq> []"
  shows "Validate e = Inr ()"
proof -
  obtain d where d: "computeDiff visit before after = Inr d" "Payload e = diff_payload d"
    using assms(2) by (auto simp: BuildChangeEvent_def Let_def split: sum.splits)
  from d(1) obtain b a where n: "normalizeToObject before = Inr b" "normalizeToObject after = Inr a"
    and dd: "d = collectDiff visit [] [] b a []" by (rule computeDiff_Inr)
  have "\<forall>(p, fd) \<in> set d. normal (DBefore fd) \<and> normal (DAfter fd)"
    using collectDiff_sound [OF assms(1), of _ _ "[]" "[]" b a "[]"] differs_normal
      normalizeToObject_normal [OF n(1)] normalizeToObject_normal [OF n(2)] unfolding dd by fastforce
  from diff_payload_marshal [OF this] assms(2-6) d(2) show ?thesis
    unfolding Validate_ok_iff recordable_def
    by (auto simp: BuildChangeEvent_def Let_def split: sum.splits if_splits)
qed

section \<open>Witnesses\<close>

definition sample_before :: goval where
  "sample_before = GStruct [(''a'', GBool True), (''m'', GMap [(''x'', GString ''u'')])]"

definition sample_after :: goval where
  "sample_after = GStruct [(''a'', GBool True), (''m'', GMap [(''x'', GString ''v'')])]"

definition in_order :: key_order where
  "in_order call ks = ks"

definition reversed :: key_order where
  "reversed call ks = rev ks"

lemma sample_orders: "iteration_order in_order" "iteration_order reversed"
  by (simp_all add: iteration_order_def in_order_def reversed_def)

lemma normalizeToObject_char:
  assumes "marshal v \<noteq> None" "nesting v \<le> max_nesting_depth" "normal_form v = GMap m"
  shows "normalizeToObject v = Inr m"
  using assms json_decode_marshal [of v] by (auto simp: normalizeToObject_def)

lemma sample_objects:
  "normalizeToObject sample_before = Inr [(''a'', GBool True), (''m'', GMap [(''x'', GString ''u'')])]"
  "normalizeToObject sample_after = Inr [(''a'', GBool True), (''m'', GMap [(''x'', GString ''v'')])]"
  by (rule normalizeToObject_char; simp add: sample_before_def sample_after_def tag_def max_nesting_depth_def
      build_map_def to_valid_ascii)+

lemma sample_diff:
  "computeDiff visit sample_before sample_after = Inr (collectDiff visit [] []
     [(''a'', GBool True), (''m'', GMap [(''x'', GString ''u'')])]
     [(''a'', GBool True), (''m'', GMap [(''x'', GString ''v'')])] [])"
  by (simp add: computeDiff_def sample_objects)

theorem computeDiff_exact_witness:
  "\<exists>d. computeDiff in_order sample_before sample_after = Inr d \<and>
     map_of d ''m.x'' = Some \<lparr>DBefore = GString ''u'', DAfter = GString ''v''\<rparr> \<and> map_of d ''a'' = None"
  using computeDiff_exact [OF sample_orders(1) sample_diff sample_objects, of "[''m'', ''x'']"]
    computeDiff_exact [OF sample_orders(1) sample_diff sample_objects, of "[''a'']"]
  by (simp add: sample_diff plain_key_def path_of_def valueOrNil_def) (metis not_None_eq)

theorem computeDiff_empty_iff_witness:
  "\<exists>d. computeDiff in_order sample_before sample_after = Inr d \<and> d \<noteq> []"
  using computeDiff_empty_iff [OF sample_orders(1) sample_diff] by (simp add: sample_diff sample_objects)

theorem computeDiff_deterministic_witness:
  "computeDiff in_order sample_before sample_after = computeDiff reversed sample_before sample_after"
  by (rule computeDiff_deterministic [OF sample_orders sample_objects]) (simp_all add: plain_key_def)

theorem BuildChangeEvent_valid_witness:
  "\<exists>e. BuildChangeEvent reversed ''t'' ''alice'' ''user'' ''42'' sample_before sample_after = Inr e \<and>
     Validate e = Inr () \<and> Action e = ''update''"
proof -
  obtain e where e: "BuildChangeEvent reversed ''t'' ''alice'' ''user'' ''42'' sample_before sample_after = Inr e"
    "Action e = ''update''"
  proof -
    have "sample_before \<noteq> GNil" "sample_after \<noteq> GNil" by (simp_all add: sample_before_def sample_after_def)
    then show thesis using that by (simp add: BuildChangeEvent_def sample_diff Let_def)
  qed
  from BuildChangeEvent_valid [OF sample_orders(2) e(1)] e show ?thesis by simp
qed

end
