(* ===== verification/Memory.thy ===== *)
theory Memory
  imports Backend Events Diff
begin

text \<open>
  \<^verbatim>\<open>memory.go\<close>: the in-process backend.  The state is the struct \<^verbatim>\<open>memoryAuditLog\<close>: one
  slice of entries for all chains and, per chain, the tail a new entry is linked to.  Each
  method takes the state and returns the new one with its result and the effects on bus
  and logger; the clock is an argument of \<open>memory_Record\<close>.  A method body between
  \<^verbatim>\<open>mu.Lock\<close> and \<^verbatim>\<open>mu.Unlock\<close> is one step here.

  \<open>memory_inv\<close> is the representation invariant; \<open>memory_chain\<close> the abstraction to the chains of
  the contract, which the interpretation \<open>mem\<close> proves this backend to keep.
\<close>

record memoryChainTail =
  lastID :: EntryID
  lastHash :: string

record memoryAuditLog =
  entries :: "AuditEvent list"
  chains :: "string \<rightharpoonup> memoryChainTail"
  logger :: Logger
  bus :: "bus option"
  closed :: bool
  closeOnce :: bool

section \<open>Construction\<close>

type_synonym MemoryOption = "memoryAuditLog \<Rightarrow> memoryAuditLog"

definition WithLogger :: "Logger option \<Rightarrow> MemoryOption" where
  "WithLogger l a = a\<lparr>logger := OrNop l\<rparr>"

definition WithEventBus :: "bus option \<Rightarrow> MemoryOption" where
  "WithEventBus b a = a\<lparr>bus := b\<rparr>"

definition NewMemoryAuditLog :: "MemoryOption list \<Rightarrow> memoryAuditLog" where
  "NewMemoryAuditLog opts =
     fold (\<lambda>opt a. opt a) opts
       \<lparr>entries = [], chains = Map.empty, logger = NopLogger, bus = None, closed = False, closeOnce = False\<rparr>"

section \<open>Record and RecordChange\<close>

definition memory_Record ::
  "gotime \<Rightarrow> AuditEvent \<Rightarrow> memoryAuditLog \<Rightarrow> memoryAuditLog \<times> EntryID result \<times> effect list" where
  "memory_Record now event a =
     (if closed a then (a, Inl (Sentinel ErrClosed), [])
      else case Validate event of
        Inl err \<Rightarrow> (a, Inl (Errorf ''graudit: record'' [err]), [])
      | Inr _ \<Rightarrow>
        (let event = (if IsZero (Timestamp event) then event\<lparr>Timestamp := UTC now\<rparr> else event);
             (prevHash, nextID) = (case chains a (ChainID event) of
                None \<Rightarrow> (GenesisPrevHash, 1)
              | Some tail \<Rightarrow> (lastHash tail, lastID tail + 1))
         in case ComputeHash (ChainID event) nextID (ActorID event) (EntityType event) (EntityID event)
                (Action event) (Payload event) (Timestamp event) prevHash of
              Inl err \<Rightarrow> (a, Inl (Errorf ''graudit: record'' [err]), [])
            | Inr hash \<Rightarrow>
                (let event = event\<lparr>ID := nextID, Hash := hash, PrevHash := prevHash\<rparr>
                 in (a\<lparr>entries := entries a @ [event],
                       chains := (chains a)(ChainID event \<mapsto> \<lparr>lastID = nextID, lastHash = hash\<rparr>)\<rparr>,
                     Inr nextID,
                     PublishRecorded (bus a) (logger a) event))))"

definition memory_RecordChange ::
  "gotime \<Rightarrow> key_order \<Rightarrow> string \<Rightarrow> string \<Rightarrow> string \<Rightarrow> string \<Rightarrow> goval \<Rightarrow> goval \<Rightarrow> memoryAuditLog
     \<Rightarrow> memoryAuditLog \<times> EntryID result \<times> effect list" where
  "memory_RecordChange now visit chainID actorID entityType entityID before after a =
     (case BuildChangeEvent visit chainID actorID entityType entityID before after of
        Inl err \<Rightarrow> (a, Inl (Errorf ''graudit: record change'' [err]), [])
      | Inr event \<Rightarrow> memory_Record now event a)"

section \<open>Verify\<close>

definition latestEntryIDLocked :: "memoryAuditLog \<Rightarrow> string \<Rightarrow> EntryID option" where
  "latestEntryIDLocked a chainID = map_option lastID (chains a chainID)"

text \<open>The loop of \<^verbatim>\<open>verifyMemoryChain\<close>, at index \<open>i\<close> with the hash of the entry before.\<close>

fun verify_loop :: "nat \<Rightarrow> string \<Rightarrow> AuditEvent list \<Rightarrow> (bool \<times> VerifyResult) result" where
  "verify_loop i prevHash [] = Inr (True, verify_ok)"
| "verify_loop i prevHash (e # es) =
     (let expectPrev = (if i > 0 then prevHash else GenesisPrevHash) in
      if PrevHash e \<noteq> expectPrev then Inr (False, verify_broken (ID e) expectPrev (PrevHash e))
      else case ComputeHash (ChainID e) (ID e) (ActorID e) (EntityType e) (EntityID e) (Action e)
             (Payload e) (Timestamp e) (PrevHash e) of
        Inl err \<Rightarrow> Inl (Errorf ''graudit: verify'' [err])
      | Inr recomputed \<Rightarrow>
          if recomputed \<noteq> Hash e then Inr (False, verify_broken (ID e) recomputed (Hash e))
          else verify_loop (i + 1) (Hash e) es)"

definition verifyMemoryChain :: "AuditEvent list \<Rightarrow> (bool \<times> VerifyResult) result" where
  "verifyMemoryChain es = verify_loop 0 [] es"

definition memory_Verify ::
  "string \<Rightarrow> EntryID \<Rightarrow> EntryID \<Rightarrow> memoryAuditLog \<Rightarrow> (bool \<times> VerifyResult) result" where
  "memory_Verify chainID from to a =
     (if closed a then Inl (Sentinel ErrClosed)
      else if chainID = [] then Inl (Sentinel ErrChainIDRequired)
      else
        (let from = (if from < 1 then 1 else from) in
         if to = 0 \<and> latestEntryIDLocked a chainID = None then Inr (True, verify_empty)
         else
           (let to = (if to = 0 then the (latestEntryIDLocked a chainID) else to) in
            verifyMemoryChain
              (filter (\<lambda>e. ChainID e = chainID \<and> ID e \<ge> from \<and> ID e \<le> to) (entries a)))))"

section \<open>Query, GetEntry, LatestEntryID and Close\<close>

fun query_loop :: "QueryFilter \<Rightarrow> AuditEvent list \<Rightarrow> AuditEvent list \<Rightarrow> AuditEvent list" where
  "query_loop f out [] = out"
| "query_loop f out (e # es) =
     (if ChainID e \<noteq> fChainID f then query_loop f out es
      else if fActorID f \<noteq> [] \<and> ActorID e \<noteq> fActorID f then query_loop f out es
      else if fEntityType f \<noteq> [] \<and> EntityType e \<noteq> fEntityType f then query_loop f out es
      else if fEntityID f \<noteq> [] \<and> EntityID e \<noteq> fEntityID f then query_loop f out es
      else if \<not> IsZero (fFrom f) \<and> Before (Timestamp e) (fFrom f) then query_loop f out es
      else if \<not> IsZero (fTo f) \<and> After (Timestamp e) (fTo f) then query_loop f out es
      else
        (let out = out @ [e] in
         if fLimit f > 0 \<and> int (length out) \<ge> fLimit f then out else query_loop f out es))"

definition memory_Query :: "QueryFilter \<Rightarrow> memoryAuditLog \<Rightarrow> AuditEvent list result" where
  "memory_Query f a =
     (if closed a then Inl (Sentinel ErrClosed)
      else if fChainID f = [] then Inl (Sentinel ErrChainIDRequired)
      else Inr (query_loop f [] (entries a)))"

definition memory_GetEntry :: "string \<Rightarrow> EntryID \<Rightarrow> memoryAuditLog \<Rightarrow> AuditEvent result" where
  "memory_GetEntry chainID i a =
     (if closed a then Inl (Sentinel ErrClosed)
      else if chainID = [] then Inl (Sentinel ErrChainIDRequired)
      else case find (\<lambda>e. ChainID e = chainID \<and> ID e = i) (entries a) of
        Some e \<Rightarrow> Inr e
      | None \<Rightarrow> Inl (Sentinel ErrEntryNotFound))"

definition memory_LatestEntryID :: "string \<Rightarrow> memoryAuditLog \<Rightarrow> EntryID result" where
  "memory_LatestEntryID chainID a =
     (if closed a then Inl (Sentinel ErrClosed)
      else if chainID = [] then Inl (Sentinel ErrChainIDRequired)
      else case latestEntryIDLocked a chainID of
        None \<Rightarrow> Inl (Sentinel ErrEntryNotFound)
      | Some latest \<Rightarrow> Inr latest)"

definition memory_Close :: "memoryAuditLog \<Rightarrow> memoryAuditLog" where
  "memory_Close a = (if closeOnce a then a else a\<lparr>closed := True, closeOnce := True\<rparr>)"

lemmas memory_reads = memory_Verify_def memory_Query_def memory_GetEntry_def memory_LatestEntryID_def

section \<open>The abstraction and the invariant\<close>

definition memory_chain :: "memoryAuditLog \<Rightarrow> string \<Rightarrow> AuditEvent list" where
  "memory_chain a c = filter (\<lambda>e. ChainID e = c) (entries a)"

definition tail_of :: "AuditEvent list \<Rightarrow> memoryChainTail option" where
  "tail_of es = (if es = [] then None
     else Some \<lparr>lastID = of_nat (length es), lastHash = last_hash GenesisPrevHash es\<rparr>)"

definition memory_inv :: "memoryAuditLog \<Rightarrow> bool" where
  "memory_inv a \<longleftrightarrow> (\<forall>c. chains a c = tail_of (memory_chain a c) \<and> chain_ok c (memory_chain a c))"

lemma memory_tail:
  assumes "memory_inv a"
  shows "(case chains a c of None \<Rightarrow> (GenesisPrevHash, 1) | Some tail \<Rightarrow> (lastHash tail, lastID tail + 1))
    = (last_hash GenesisPrevHash (memory_chain a c), of_nat (length (memory_chain a c)) + 1)"
  using assms by (simp add: memory_inv_def tail_of_def)

text \<open>\<^verbatim>\<open>Record\<close> in terms of the abstraction.\<close>

lemma memory_Record_cases:
  assumes "memory_inv a"
  obtains "closed a" "memory_Record now event a = (a, Inl (Sentinel ErrClosed), [])"
  | err where "\<not> closed a" "Validate event = Inl err"
      "memory_Record now event a = (a, Inl (Errorf ''graudit: record'' [err]), [])"
  | err where "\<not> closed a" "Validate event = Inr ()"
      "seal (memory_chain a (ChainID event)) (stamp now event) = Inl err"
      "memory_Record now event a = (a, Inl (Errorf ''graudit: record'' [err]), [])"
  | e where "\<not> closed a" "Validate event = Inr ()"
      "seal (memory_chain a (ChainID event)) (stamp now event) = Inr e"
      "memory_Record now event a = (a\<lparr>entries := entries a @ [e],
         chains := (chains a)(ChainID event \<mapsto> \<lparr>lastID = ID e, lastHash = Hash e\<rparr>)\<rparr>,
         Inr (ID e), PublishRecorded (bus a) (logger a) e)"
proof -
  let ?c = "ChainID event"
  let ?p = "last_hash GenesisPrevHash (memory_chain a ?c)" and ?n = "of_nat (length (memory_chain a ?c)) + 1"
  let ?e = "(stamp now event)\<lparr>ID := ?n, PrevHash := ?p\<rparr>"
  note tail = memory_tail [OF assms, of ?c]
  have rec: "memory_Record now event a =
      (case entry_hash ?e of
         Inl err \<Rightarrow> (a, Inl (Errorf ''graudit: record'' [err]), [])
       | Inr h \<Rightarrow> (a\<lparr>entries := entries a @ [?e\<lparr>Hash := h\<rparr>],
           chains := (chains a)(?c \<mapsto> \<lparr>lastID = ?n, lastHash = h\<rparr>)\<rparr>, Inr ?n,
           PublishRecorded (bus a) (logger a) (?e\<lparr>Hash := h\<rparr>)))"
    if "\<not> closed a" "Validate event = Inr ()"
    using that unfolding memory_Record_def Let_def stamp_def [symmetric] ChainID_stamp tail
    by (simp add: entry_hash_def sealing_order split: sum.split)
  show thesis
  proof (cases "closed a \<or> Validate event \<noteq> Inr ()")
    case True
    then show thesis using that(1,2) by (cases "Validate event") (auto simp: memory_Record_def)
  next
    case False
    then show thesis
    proof (cases "entry_hash ?e")
      case (Inl err)
      with False rec that(3) [of err] show thesis by (simp add: seal_def)
    next
      case (Inr h)
      with False rec that(4) [of "?e\<lparr>Hash := h\<rparr>"] show thesis by (simp add: seal_def)
    qed
  qed
qed

section \<open>The invariant is kept\<close>

lemma memory_chain_append:
  "memory_chain (a\<lparr>entries := entries a @ [e], chains := t\<rparr>) c
     = (if ChainID e = c then memory_chain a c @ [e] else memory_chain a c)"
  by (simp add: memory_chain_def)

lemma memory_inv_append:
  assumes "memory_inv a" "seal (memory_chain a c) event = Inr e" "ChainID event = c"
  shows "memory_inv (a\<lparr>entries := entries a @ [e],
    chains := (chains a)(c \<mapsto> \<lparr>lastID = ID e, lastHash = Hash e\<rparr>)\<rparr>)"
proof -
  note e = seal_Inr [OF assms(2)]
  have "chain_ok c (memory_chain a c @ [e])"
    using assms by (auto simp: memory_inv_def intro: chain_ok_seal)
  moreover have "tail_of (memory_chain a c @ [e]) = Some \<lparr>lastID = ID e, lastHash = Hash e\<rparr>"
    by (simp add: tail_of_def e algebra_simps)
  ultimately show ?thesis
    using assms(1,3) e(4) by (auto simp: memory_inv_def memory_chain_append)
qed

lemma memory_Record_inv:
  assumes "memory_inv a"
  shows "memory_inv (fst (memory_Record now event a))"
  by (rule memory_Record_cases [OF assms, of now event]) (auto simp: assms intro: memory_inv_append)

lemma memory_Close_simps [simp]:
  "entries (memory_Close a) = entries a" "chains (memory_Close a) = chains a"
  "memory_chain (memory_Close a) = memory_chain a"
  by (auto simp: memory_Close_def memory_chain_def fun_eq_iff)

lemma memory_Close_inv: "memory_inv a \<Longrightarrow> memory_inv (memory_Close a)"
  by (simp add: memory_inv_def)

lemma memory_RecordChange_cases:
  obtains err where "BuildChangeEvent visit chainID actorID entityType entityID before after = Inl err"
      "memory_RecordChange now visit chainID actorID entityType entityID before after a
         = (a, Inl (Errorf ''graudit: record change'' [err]), [])"
  | event where "BuildChangeEvent visit chainID actorID entityType entityID before after = Inr event"
      "memory_RecordChange now visit chainID actorID entityType entityID before after a = memory_Record now event a"
  by (cases "BuildChangeEvent visit chainID actorID entityType entityID before after")
    (auto simp: memory_RecordChange_def)

text \<open>The states a program can bring a memory log into.\<close>

inductive memory_option :: "MemoryOption \<Rightarrow> bool" where
  "memory_option (WithLogger l)"
| "memory_option (WithEventBus b)"

inductive memory_reachable :: "memoryAuditLog \<Rightarrow> bool" where
  reach_new: "list_all memory_option opts \<Longrightarrow> memory_reachable (NewMemoryAuditLog opts)"
| reach_record: "memory_reachable a \<Longrightarrow> memory_reachable (fst (memory_Record now event a))"
| reach_change: "memory_reachable a \<Longrightarrow>
    memory_reachable (fst (memory_RecordChange now visit chainID actorID entityType entityID before after a))"
| reach_close: "memory_reachable a \<Longrightarrow> memory_reachable (memory_Close a)"

lemma memory_inv_new: "list_all memory_option opts \<Longrightarrow> memory_inv (NewMemoryAuditLog opts)"
proof -
  have opt: "entries (f a) = entries a \<and> chains (f a) = chains a" if "memory_option f" for f a
    using that by cases (simp_all add: WithLogger_def WithEventBus_def)
  have "list_all memory_option opts \<Longrightarrow> memory_inv a \<Longrightarrow> memory_inv (fold (\<lambda>f a. f a) opts a)" for a
    by (induction opts arbitrary: a) (auto simp: memory_inv_def memory_chain_def opt)
  then show "list_all memory_option opts \<Longrightarrow> memory_inv (NewMemoryAuditLog opts)"
    by (simp add: NewMemoryAuditLog_def memory_inv_def memory_chain_def tail_of_def)
qed

lemma memory_reachable_inv: "memory_reachable a \<Longrightarrow> memory_inv a"
proof (induction rule: memory_reachable.induct)
  case (reach_change a now visit chainID actorID entityType entityID before after)
  then show ?case
    by (cases rule: memory_RecordChange_cases [of visit chainID actorID entityType entityID before after now a])
      (auto intro: memory_Record_inv)
qed (auto intro: memory_inv_new memory_Record_inv memory_Close_inv)

section \<open>The walk\<close>

lemma verify_loop_walk:
  "verify_loop i p es = verify_walk (if i > 0 then p else GenesisPrevHash) es"
  by (induction es arbitrary: i p) (auto simp: entry_hash_def split: sum.splits)

lemma verifyMemoryChain_walk: "verifyMemoryChain es = verify_walk GenesisPrevHash es"
  by (simp add: verifyMemoryChain_def verify_loop_walk)

lemma latest_chain: "memory_inv a \<Longrightarrow> latestEntryIDLocked a c
    = (if memory_chain a c = [] then None else Some (of_nat (length (memory_chain a c))))"
  by (simp add: latestEntryIDLocked_def memory_inv_def tail_of_def)

lemma from_max: "(if fr < 1 then 1 else fr) = max 1 fr" for fr :: EntryID
  by (auto simp: max_def not_le not_less)

lemma filter_range: "filter (\<lambda>e. ChainID e = c \<and> ID e \<ge> from \<and> ID e \<le> to) (entries a)
    = in_range from to (memory_chain a c)"
  by (simp add: in_range_def memory_chain_def conj_ac)

lemma memory_Verify_spec:
  assumes "memory_inv a" "\<not> closed a" "c \<noteq> []"
  shows "memory_Verify c from to a =
    (if to = 0 \<and> memory_chain a c = [] then Inr (True, verify_empty)
     else verify_walk GenesisPrevHash (in_range (max 1 from)
       (if to = 0 then of_nat (length (memory_chain a c)) else to) (memory_chain a c)))"
  using assms unfolding memory_Verify_def Let_def from_max filter_range verifyMemoryChain_walk
  by (simp add: latest_chain)

section \<open>The contract\<close>

definition memory_record_op :: "gotime \<Rightarrow> AuditEvent \<Rightarrow> memoryAuditLog \<Rightarrow> memoryAuditLog \<times> EntryID result" where
  "memory_record_op now event a = (let (a', r, fx) = memory_Record now event a in (a', r))"

lemma memory_Record_frame:
  "memory_record_op now event a = (a', r) \<Longrightarrow> closed a' = closed a"
  "memory_record_op now event a = (a', Inl err) \<Longrightarrow> a' = a"
  by (auto simp: memory_record_op_def memory_Record_def Let_def split: if_splits sum.splits prod.splits)

interpretation mem: audit_reader memory_chain closed memory_inv "\<lambda>now. now" "\<lambda>_ _ _. True" memory_record_op
  "\<lambda>_. memory_Verify" "\<lambda>_. memory_GetEntry" "\<lambda>_. memory_LatestEntryID"
proof unfold_locales
  fix a a' :: memoryAuditLog and now event r err i c e fr to x
  show "memory_inv a \<Longrightarrow> memory_record_op now event a = (a', r) \<Longrightarrow> memory_inv a'"
    using memory_Record_inv [of a now event] by (auto simp: memory_record_op_def split: prod.splits)
  show "closed a \<Longrightarrow> memory_record_op now event a = (a, Inl (Sentinel ErrClosed))"
    by (simp add: memory_record_op_def memory_Record_def)
  show "memory_record_op now event a = (a', r) \<Longrightarrow> closed a' = closed a"
    by (rule memory_Record_frame)
  show "\<not> closed a \<Longrightarrow> Validate event = Inl err \<Longrightarrow>
      memory_record_op now event a = (a, Inl (Errorf ''graudit: record'' [err]))"
    by (simp add: memory_record_op_def memory_Record_def)
  show "memory_record_op now event a = (a', Inl err) \<Longrightarrow> memory_chain a' = memory_chain a"
    by (metis memory_Record_frame(2))
  show "memory_inv a \<Longrightarrow> memory_record_op now event a = (a', Inr i) \<Longrightarrow>
      \<exists>e. sealed (memory_chain a (ChainID event)) (stamp now event) e \<and> i = ID e \<and>
        memory_chain a' = (memory_chain a)(ChainID event := memory_chain a (ChainID event) @ [e])"
    by (rule memory_Record_cases [of a now event])
      (auto simp: memory_record_op_def memory_chain_append fun_eq_iff seal_Inr(4) intro: seal_sealed)
  show "memory_inv a \<Longrightarrow> memory_Verify c fr to a = Inr x \<Longrightarrow> unat fr < 2 ^ 63 \<Longrightarrow> unat to < 2 ^ 63 \<Longrightarrow>
      if to = 0 \<and> memory_chain a c = [] then x = (True, verify_empty)
      else verify_walk GenesisPrevHash (in_range (max 1 fr)
        (if to = 0 then of_nat (length (memory_chain a c)) else to) (memory_chain a c)) = Inr x"
    using memory_Verify_spec [of a c fr to] by (auto simp: memory_Verify_def [of c] split: if_splits)
  show "memory_inv a \<Longrightarrow> memory_GetEntry c i a = Inr e \<Longrightarrow> unat i < 2 ^ 63 \<Longrightarrow>
      e \<in> set (memory_chain a c) \<and> ID e = i"
    by (auto simp: memory_GetEntry_def memory_chain_def find_Some_iff split: if_splits option.splits)
  show "memory_inv a \<Longrightarrow> memory_LatestEntryID c a = Inr i \<Longrightarrow>
      memory_chain a c \<noteq> [] \<and> i = of_nat (length (memory_chain a c))"
    by (auto simp: memory_LatestEntryID_def latest_chain split: if_splits)
qed

section \<open>Properties\<close>

text \<open>
  C1. In every state a program can bring a memory log into, each chain is intact: its
  entries are numbered 1, 2, 3 and so on, the first is linked to the genesis hash and every other to
  the hash of its predecessor, every stored hash is the recomputed one, and the tail kept
  per chain is the position and hash of its last entry.
\<close>

theorem memory_chains_intact:
  assumes "memory_reachable a"
  shows "linked GenesisPrevHash (memory_chain a c) \<and> numbered 1 (memory_chain a c) \<and>
    chains a c = tail_of (memory_chain a c)"
  using memory_reachable_inv [OF assms] by (simp add: memory_inv_def chain_ok_def)

text \<open>
  C7. \<^verbatim>\<open>Verify\<close> over a whole chain (from 1 through the latest) returns, without an error, that
  the chain is valid in every reachable open state, and reports it as empty exactly when
  nothing was recorded in it.
\<close>

theorem memory_verify_accepts:
  assumes "memory_reachable a" "\<not> closed a" "c \<noteq> []" "length (memory_chain a c) < 2 ^ 64"
  shows "memory_Verify c 1 0 a = Inr (True, if memory_chain a c = [] then verify_empty else verify_ok)"
proof -
  have ok: "chain_ok c (memory_chain a c)"
    using memory_reachable_inv [OF assms(1)] by (simp add: memory_inv_def)
  then have "verify_walk GenesisPrevHash (memory_chain a c) = Inr (True, verify_ok)"
    by (simp add: verify_walk_ok_iff chain_ok_def)
  with in_range_all [OF ok assms(4)] memory_Verify_spec [OF memory_reachable_inv [OF assms(1)] assms(2,3)]
  show ?thesis by simp
qed

text \<open>
  Whatever sequence of \<^verbatim>\<open>Record\<close> calls is made on a memory log, with any mixture of
  chains and of failing calls, the positions returned for a chain continue where the
  chain ended and are consecutive: no gap and no repetition.
\<close>

theorem memory_ids_consecutive:
  assumes "memory_reachable a" "run_records memory_record_op calls a = (a', rs)"
  shows "ids_for c calls rs
    = map (\<lambda>k. of_nat k + 1) [length (memory_chain a c)..<length (memory_chain a' c)]"
  by (rule mem.run_ids [OF memory_reachable_inv [OF assms(1)] along_run_True assms(2)])

text \<open>
  Recording is append-only and isolated: after any sequence of \<^verbatim>\<open>Record\<close> calls every chain
  still begins with all its earlier entries, and a chain none of the calls named is unchanged.
\<close>

theorem memory_append_only:
  assumes "memory_reachable a" "run_records memory_record_op calls a = (a', rs)"
  shows "take (length (memory_chain a c)) (memory_chain a' c) = memory_chain a c \<and>
    (list_all (\<lambda>call. ChainID (snd call) \<noteq> c) calls \<longrightarrow> memory_chain a' c = memory_chain a c)"
proof -
  note inv = memory_reachable_inv [OF assms(1)]
  from mem.run_append_only [OF inv along_run_True assms(2), of c] mem.run_isolated [OF inv along_run_True assms(2), of c]
  show ?thesis by (auto simp: list_all_iff case_prod_beta)
qed

text \<open>
  \<^verbatim>\<open>verifyMemoryChain\<close> accepts a list of entries exactly when it is a hash chain from the
  genesis hash: every stored hash is the recomputed one and every previous hash is the
  hash stored before it.
\<close>

theorem verifyMemoryChain_accepts_iff:
  "verifyMemoryChain es = Inr (True, d) \<longleftrightarrow> linked GenesisPrevHash es \<and> d = verify_ok"
  by (simp add: verifyMemoryChain_walk verify_walk_ok_iff)

text \<open>
  C26. When \<^verbatim>\<open>verifyMemoryChain\<close> reports a break, it is at the first entry that fails: all
  entries before it are linked, and \<^verbatim>\<open>BrokenAt\<close>, \<^verbatim>\<open>Expected\<close> and \<^verbatim>\<open>Actual\<close> are its position and the
  two values that disagree, the previous hashes or, if those agree, the entry's own hashes.
\<close>

theorem verifyMemoryChain_breaks_at_first:
  assumes "verifyMemoryChain es = Inr (False, d)"
  shows "\<exists>pre e post. es = pre @ e # post \<and> linked GenesisPrevHash pre \<and>
    \<not> linked GenesisPrevHash (pre @ [e]) \<and> BrokenAt d = ID e \<and> \<not> Valid d \<and> Expected d \<noteq> Actual d \<and>
    (if PrevHash e \<noteq> last_hash GenesisPrevHash pre
     then Expected d = last_hash GenesisPrevHash pre \<and> Actual d = PrevHash e
     else entry_hash e = Inr (Expected d) \<and> Actual d = Hash e)"
proof -
  from verify_walk_broken [OF assms [unfolded verifyMemoryChain_walk]]
  obtain pre e post where es: "es = pre @ e # post" "linked GenesisPrevHash pre"
    and d: "(let prev = last_hash GenesisPrevHash pre in
       PrevHash e \<noteq> prev \<and> d = verify_broken (ID e) prev (PrevHash e) \<or>
       (\<exists>h. PrevHash e = prev \<and> entry_hash e = Inr h \<and> h \<noteq> Hash e \<and> d = verify_broken (ID e) h (Hash e)))"
    by blast
  from es d show ?thesis
    by (intro exI [of _ pre] exI [of _ e] exI [of _ post])
      (auto simp: Let_def verify_broken_def zero_VerifyResult_def linked_append)
qed

text \<open>
  C3. Tamper evidence against an anchor.  If two chains of the same length are both accepted
  and end in the same hash, then entry by entry they have the same hash and the same hashed
  bytes, or one of the pairs of entries is an explicit SHA-256 collision.
\<close>

theorem verify_tamper_evident:
  assumes "verifyMemoryChain es = Inr (True, d)" "verifyMemoryChain fs = Inr (True, d')"
    and "length es = length fs" "last_hash GenesisPrevHash es = last_hash GenesisPrevHash fs"
  shows "list_all2 (\<lambda>e f. entry_preimage e = entry_preimage f \<and> Hash e = Hash f) es fs \<or>
    (\<exists>(e, f) \<in> set (zip es fs). colliding e f)"
  using assms by (intro linked_determined) (simp_all add: verifyMemoryChain_walk verify_walk_ok_iff)

text \<open>
  Rewriting one entry that is not the last, with or without recomputing its hash, is
  detected: if the rest of the chain is left as it is, the chain is accepted only when
  the new entry hashes the same bytes as the old one, or collides with it.
\<close>

theorem verify_detects_rewrite:
  assumes "verifyMemoryChain (pre @ e # f # post) = Inr (True, d)"
    and "verifyMemoryChain (pre @ e' # f # post) = Inr (True, d')"
  shows "entry_preimage e' = entry_preimage e \<or> colliding e' e"
  using assms linked_replace(2) [of GenesisPrevHash pre e f post e']
  by (simp add: verifyMemoryChain_walk verify_walk_ok_iff)

text \<open>
  Deleting a block of entries that does not reach the end of an intact chain is
  accepted only if the last hash of the block is the hash the block started from.
\<close>

theorem verify_detects_deletion:
  assumes "verifyMemoryChain (pre @ b # blk @ e # post) = Inr (True, d)"
  shows "verifyMemoryChain (pre @ e # post) = Inr (True, d) \<longleftrightarrow> last_hash (Hash b) blk = PrevHash b"
  using assms linked_delete_block [of GenesisPrevHash pre b blk e post]
  by (simp add: verifyMemoryChain_walk verify_walk_ok_iff)

text \<open>Helper facts for the reading methods.\<close>

lemma query_loop_spec:
  "length out < nat (fLimit f) \<or> fLimit f \<le> 0 \<Longrightarrow>
     query_loop f out es = limited (fLimit f) (out @ filter (matches f) es)"
proof (induction es arbitrary: out)
  case Nil
  then show ?case by (auto simp: limited_def)
next
  case (Cons e es)
  have step: "query_loop f out (e # es) = (if matches f e
      then if fLimit f > 0 \<and> int (length (out @ [e])) \<ge> fLimit f then out @ [e] else query_loop f (out @ [e]) es
      else query_loop f out es)"
    by (simp add: matches_def Let_def)
  show ?case
  proof (cases "matches f e \<and> fLimit f > 0 \<and> int (length (out @ [e])) \<ge> fLimit f")
    case True
    with Cons.prems have "nat (fLimit f) = length (out @ [e])" by auto
    with True show ?thesis unfolding step by (simp add: limited_def)
  next
    case False
    with Cons.prems have "matches f e \<Longrightarrow> length (out @ [e]) < nat (fLimit f) \<or> fLimit f \<le> 0" by auto
    with False Cons.IH [of "out @ [e]"] Cons.IH [of out] Cons.prems show ?thesis
      unfolding step by (cases "matches f e") auto
  qed
qed

lemma filter_matches_chain: "filter (matches f) (entries a) = filter (matches f) (memory_chain a (fChainID f))"
  by (auto simp: memory_chain_def matches_def intro: filter_cong)

text \<open>
  C30. \<^verbatim>\<open>Query\<close> returns exactly the entries of the requested chain that match every set field of
  the filter, in the order they were recorded, cut to the first \<^verbatim>\<open>Limit\<close> when a positive
  limit is given; a closed log and an empty chain identifier are errors.
\<close>

theorem memory_Query_exact:
  "memory_Query f a =
     (if closed a then Inl (Sentinel ErrClosed)
      else if fChainID f = [] then Inl (Sentinel ErrChainIDRequired)
      else Inr (limited (fLimit f) (filter (matches f) (memory_chain a (fChainID f)))))"
  using query_loop_spec [of "[]" f "entries a"]
  by (simp add: memory_Query_def filter_matches_chain not_less) linarith

lemma find_filter: "find (\<lambda>e. P e \<and> Q e) es = find Q (filter P es)"
  by (induction es) auto

lemma find_chain: "find (\<lambda>e. ChainID e = c \<and> ID e = i) (entries a) = find (\<lambda>e. ID e = i) (memory_chain a c)"
  unfolding memory_chain_def by (rule find_filter)

lemma find_position:
  assumes "chain_ok c es" "length es < 2 ^ 64" "0 < n" "n < 2 ^ 64"
  shows "find (\<lambda>e. ID e = of_nat n) es = (if n \<le> length es then Some (es ! (n - 1)) else None)"
proof -
  have ID: "ID (es ! k) = of_nat n \<longleftrightarrow> Suc k = n" if "k < length es" for k
    using chain_ID [OF assms(1) that] assms(2,4) that
    by (simp add: word_of_nat_eq_iff take_bit_nat_eq_self del: of_nat_Suc)
  show ?thesis
  proof (cases "n \<le> length es")
    case True
    then have "n - 1 < length es" "ID (es ! (n - 1)) = of_nat n" "\<forall>j < n - 1. ID (es ! j) \<noteq> of_nat n"
      using assms(3) ID by auto
    then show ?thesis using True by (auto simp: find_Some_iff intro!: exI [of _ "n - 1"])
  next
    case False
    then have "\<forall>k < length es. ID (es ! k) \<noteq> of_nat n" using ID by auto
    then show ?thesis using False by (auto simp: find_None_iff in_set_conv_nth)
  qed
qed

text \<open>
  \<^verbatim>\<open>GetEntry\<close> on an open reachable log finds the entry at a position: position \<open>n\<close> of a chain
  is its \<open>n\<close>-th entry, and every position beyond the last is \<^verbatim>\<open>ErrEntryNotFound\<close>.
\<close>

theorem memory_GetEntry_position:
  assumes "memory_reachable a" "\<not> closed a" "c \<noteq> []"
    and "length (memory_chain a c) < 2 ^ 64" "0 < n" "n < 2 ^ 64"
  shows "memory_GetEntry c (of_nat n) a =
    (if n \<le> length (memory_chain a c) then Inr (memory_chain a c ! (n - 1)) else Inl (Sentinel ErrEntryNotFound))"
proof -
  have "chain_ok c (memory_chain a c)"
    using memory_reachable_inv [OF assms(1)] by (simp add: memory_inv_def)
  from find_position [OF this assms(4-6)] assms(2,3) show ?thesis
    by (simp add: memory_GetEntry_def find_chain)
qed

text \<open>
  After a successful \<^verbatim>\<open>Record\<close>, \<^verbatim>\<open>LatestEntryID\<close> of that chain is the position it returned and
  \<^verbatim>\<open>GetEntry\<close> at that position returns the event, with its timestamp set, the position, the
  link to the previous last hash and its own hash filled in.
\<close>

theorem memory_record_then_read:
  assumes "memory_reachable a" "length (memory_chain a (ChainID event)) < 2 ^ 63"
    and "memory_Record now event a = (a', Inr i, fx)"
  shows "memory_LatestEntryID (ChainID event) a' = Inr i \<and>
    memory_GetEntry (ChainID event) i a' = seal (memory_chain a (ChainID event)) (stamp now event)"
proof (rule memory_Record_cases [OF memory_reachable_inv [OF assms(1)], of now event])
  fix e
  let ?c = "ChainID event"
  assume e: "\<not> closed a" "Validate event = Inr ()" "seal (memory_chain a ?c) (stamp now event) = Inr e"
    and r: "memory_Record now event a = (a\<lparr>entries := entries a @ [e],
         chains := (chains a)(?c \<mapsto> \<lparr>lastID = ID e, lastHash = Hash e\<rparr>)\<rparr>,
         Inr (ID e), PublishRecorded (bus a) (logger a) e)"
  have a': "\<not> closed a'" "?c \<noteq> []" "memory_chain a' ?c = memory_chain a ?c @ [e]" "i = ID e"
    "chains a' ?c = Some \<lparr>lastID = ID e, lastHash = Hash e\<rparr>"
    using assms(3) e r seal_Inr(4) [OF e(3)]
    by (auto simp: memory_chain_append Validate_ok_iff recordable_def)
  have ID: "ID e = of_nat (Suc (length (memory_chain a ?c)))" using seal_Inr(1) [OF e(3)] by simp
  have "memory_inv a'" using memory_Record_inv [OF memory_reachable_inv [OF assms(1)], of now event] assms(3) by simp
  then have "chain_ok ?c (memory_chain a' ?c)" by (simp add: memory_inv_def)
  from find_position [OF this, of "Suc (length (memory_chain a ?c))"] assms(2) a'(3)
  have "find (\<lambda>x. ID x = ID e) (memory_chain a' ?c) = Some e" unfolding ID by simp
  with a' e(3) show ?thesis
    by (simp add: memory_GetEntry_def memory_LatestEntryID_def latestEntryIDLocked_def find_chain)
qed (use assms(3) in auto)

text \<open>The once-guard of \<^verbatim>\<open>Close\<close> has run exactly in the closed states.\<close>

lemma memory_reachable_once: "memory_reachable a \<Longrightarrow> closeOnce a = closed a"
proof (induction rule: memory_reachable.induct)
  case (reach_new opts)
  have opt: "closeOnce (f a) = closeOnce a \<and> closed (f a) = closed a" if "memory_option f" for f a
    using that by cases (simp_all add: WithLogger_def WithEventBus_def)
  have "list_all memory_option opts \<Longrightarrow> closeOnce a = closed a \<Longrightarrow>
      closeOnce (fold (\<lambda>f a. f a) opts a) = closed (fold (\<lambda>f a. f a) opts a)" for a
    by (induction opts arbitrary: a) (auto simp: opt)
  with reach_new show ?case by (simp add: NewMemoryAuditLog_def)
next
  case (reach_record a now event)
  then show ?case by (auto simp: memory_Record_def Let_def split: sum.splits prod.splits)
next
  case (reach_change a now visit chainID actorID entityType entityID before after)
  then show ?case
    by (auto simp: memory_RecordChange_def memory_Record_def Let_def split: sum.splits prod.splits)
qed (auto simp: memory_Close_def)

text \<open>
  After \<^verbatim>\<open>Close\<close> every other method returns \<^verbatim>\<open>ErrClosed\<close> (\<^verbatim>\<open>RecordChange\<close> after its diff
  succeeded) and changes nothing, and a second \<^verbatim>\<open>Close\<close> is a no-op.
\<close>

theorem memory_closed:
  assumes "memory_reachable a" "a' = memory_Close a"
  shows "memory_Record now event a' = (a', Inl (Sentinel ErrClosed), []) \<and>
    fst (memory_RecordChange now visit chainID actorID entityType entityID before after a') = a' \<and>
    memory_Verify chainID fr to a' = Inl (Sentinel ErrClosed) \<and>
    memory_Query f a' = Inl (Sentinel ErrClosed) \<and>
    memory_GetEntry chainID i a' = Inl (Sentinel ErrClosed) \<and>
    memory_LatestEntryID chainID a' = Inl (Sentinel ErrClosed) \<and>
    memory_Close a' = a'"
proof -
  have "closed a'" "closeOnce a'" using memory_reachable_once [OF assms(1)] assms(2) by (auto simp: memory_Close_def)
  then show ?thesis
    by (auto simp: memory_Record_def memory_RecordChange_def memory_reads memory_Close_def split: sum.splits)
qed

text \<open>
  \<^verbatim>\<open>Record\<close> publishes exactly once, and the stored entry itself, when it succeeds on a log
  with a bus; a failing \<^verbatim>\<open>Record\<close> publishes nothing.
\<close>

theorem memory_Record_publishes:
  assumes "memory_Record now event a = (a', r, fx)"
  shows "published fx = (case r of
      Inl err \<Rightarrow> []
    | Inr i \<Rightarrow> if bus a = None then [] else [recorded_event (last (entries a'))])"
  using assms
  by (auto simp: memory_Record_def Let_def published_PublishRecorded split: if_splits sum.splits prod.splits)

text \<open>
  The bus and the logger are a side channel: which bus and logger a log has, and
  whether publishing fails, changes neither the result of \<^verbatim>\<open>Record\<close> nor what it stores.
\<close>

theorem memory_Record_ignores_bus:
  "memory_record_op now event (a\<lparr>bus := b, logger := l\<rparr>)
     = (let (a', r) = memory_record_op now event a in (a'\<lparr>bus := b, logger := l\<rparr>, r))"
  by (auto simp: memory_record_op_def memory_Record_def Let_def split: sum.splits prod.splits option.splits)

text \<open>
  \<^verbatim>\<open>RecordChange\<close> records one entry that carries the diff as payload and the action
  derived from which snapshot is nil; when a snapshot is no JSON object it fails with an
  error wrapping \<^verbatim>\<open>ErrInvalidEvent\<close> and stores nothing.
\<close>

theorem memory_RecordChange_exact:
  "case computeDiff visit before after of
     Inl err \<Rightarrow> memory_RecordChange now visit chainID actorID entityType entityID before after a
         = (a, Inl (Errorf ''graudit: record change'' [err]), []) \<and> errors_Is err ErrInvalidEvent
   | Inr d \<Rightarrow> memory_RecordChange now visit chainID actorID entityType entityID before after a
         = memory_Record now (zero_event\<lparr>ChainID := chainID, ActorID := actorID, EntityType := entityType,
             EntityID := entityID,
             Action := (if before = GNil then ''create'' else if after = GNil then ''delete'' else ''update''),
             Payload := diff_payload d\<rparr>) a"
  by (auto simp: memory_RecordChange_def BuildChangeEvent_def computeDiff_def Let_def split: sum.splits)

text \<open>
  C39. A verification that starts after the first entry compares its first entry with the
  genesis hash: for an intact chain, \<^verbatim>\<open>Verify\<close> from a position \<open>n\<close> of 2 or more reports the chain
  broken at \<open>n\<close>, although nothing was changed, unless the entry before happens to have
  the genesis hash.
\<close>

theorem memory_verify_subrange:
  assumes "memory_reachable a" "\<not> closed a" "c \<noteq> []" "length (memory_chain a c) < 2 ^ 64"
    and "2 \<le> n" "n \<le> length (memory_chain a c)"
  shows "memory_Verify c (of_nat n) 0 a = Inr
    (let h = Hash (memory_chain a c ! (n - 2)) in
     if h = GenesisPrevHash then (True, verify_ok)
     else (False, verify_broken (of_nat n) GenesisPrevHash h))"
proof -
  let ?es = "memory_chain a c"
  note inv = memory_reachable_inv [OF assms(1)]
  have ok: "chain_ok c ?es" using inv by (simp add: memory_inv_def)
  have range: "in_range (of_nat n) (of_nat (length ?es)) ?es = drop (n - 1) ?es"
    by (rule in_range_from [OF ok assms(4)]) (use assms(5,6) in auto)
  have d: "drop (n - 1) ?es = ?es ! (n - 1) # drop n ?es"
    using assms(5,6) Cons_nth_drop_Suc [of "n - 1" ?es] by simp
  have e: "ID (?es ! (n - 1)) = of_nat n" "PrevHash (?es ! (n - 1)) = Hash (?es ! (n - 2))"
    using chain_ID [OF ok, of "n - 1"] linked_nth(2) [of GenesisPrevHash ?es "n - 1"] ok assms(5,6)
    by (auto simp: chain_ok_def numeral_2_eq_2 diff_Suc split: nat.splits)
  have "linked GenesisPrevHash (take (n - 1) ?es @ drop (n - 1) ?es)" using ok by (simp add: chain_ok_def)
  then have "linked (Hash (?es ! (n - 2))) (drop (n - 1) ?es)"
    unfolding linked_append d using e(2) by auto
  then have walk: "verify_walk (Hash (?es ! (n - 2))) (drop (n - 1) ?es) = Inr (True, verify_ok)"
    by (simp add: verify_walk_ok_iff)
  have "max 1 (of_nat n :: EntryID) = of_nat n"
    using of_nat_u64_le [of 1 n] assms(4-6) by (simp add: max_def)
  moreover have "verify_walk GenesisPrevHash (drop (n - 1) ?es)
      = Inr (False, verify_broken (of_nat n) GenesisPrevHash (Hash (?es ! (n - 2))))"
    if "Hash (?es ! (n - 2)) \<noteq> GenesisPrevHash"
    unfolding d verify_walk.simps e using that by simp
  moreover have "?es \<noteq> []" using assms(5,6) by auto
  ultimately show ?thesis
    using walk unfolding memory_Verify_spec [OF inv assms(2,3)] Let_def
    by (cases "Hash (?es ! (n - 2)) = GenesisPrevHash") (simp_all only: range if_False simp_thms if_True)
qed

text \<open>
  Cutting entries off the end of an intact chain is not detected by \<^verbatim>\<open>verifyMemoryChain\<close>:
  every prefix of an accepted chain is accepted.
\<close>

theorem verify_accepts_truncated:
  assumes "verifyMemoryChain (es @ lost) = Inr (True, d)"
  shows "verifyMemoryChain es = Inr (True, d)"
  using assms by (simp add: verifyMemoryChain_walk verify_walk_ok_iff linked_append)

section \<open>Witnesses\<close>

definition sample_log :: memoryAuditLog where
  "sample_log = fst (memory_Record sample_time sample_event
     (fst (memory_Record sample_time sample_event (NewMemoryAuditLog []))))"

lemma new_log_simps [simp]:
  "memory_reachable (NewMemoryAuditLog [])" "closed (NewMemoryAuditLog []) = False"
  "memory_chain (NewMemoryAuditLog []) c = []"
  using reach_new [of "[]"] by (simp_all add: NewMemoryAuditLog_def memory_chain_def)

lemma memory_Record_sample:
  assumes "memory_reachable a" "\<not> closed a"
  shows "memory_reachable (fst (memory_Record now sample_event a))"
    "\<not> closed (fst (memory_Record now sample_event a))"
    "memory_chain (fst (memory_Record now sample_event a)) ''tenant-1''
       = seal_all (memory_chain a ''tenant-1'') [sample_event]"
    "\<exists>i. fst (snd (memory_Record now sample_event a)) = Inr i"
proof -
  show "memory_reachable (fst (memory_Record now sample_event a))" by (rule reach_record [OF assms(1)])
  obtain e where e: "seal (memory_chain a ''tenant-1'') sample_event = Inr e"
    by (rule seal_no_payload [of sample_event]) (simp add: event_simps)
  have st: "stamp now sample_event = sample_event" by (simp add: stamp_def event_simps)
  have c: "ChainID e = ''tenant-1''" using seal_Inr(4) [OF e] by (simp add: event_simps)
  have "memory_Record now sample_event a = (a\<lparr>entries := entries a @ [e],
      chains := (chains a)(''tenant-1'' \<mapsto> \<lparr>lastID = ID e, lastHash = Hash e\<rparr>)\<rparr>,
      Inr (ID e), PublishRecorded (bus a) (logger a) e)"
    by (rule memory_Record_cases [OF memory_reachable_inv [OF assms(1)], of now sample_event])
      (use assms(2) e in \<open>simp_all add: st event_simps\<close>)
  then show "\<not> closed (fst (memory_Record now sample_event a))"
    "memory_chain (fst (memory_Record now sample_event a)) ''tenant-1''
       = seal_all (memory_chain a ''tenant-1'') [sample_event]"
    "\<exists>i. fst (snd (memory_Record now sample_event a)) = Inr i"
    using assms(2) c e by (simp_all add: memory_chain_append)
qed

lemma sample_log_simps:
  "memory_reachable sample_log" "\<not> closed sample_log" "length (memory_chain sample_log ''tenant-1'') = 2"
  unfolding sample_log_def
  by (simp_all add: memory_Record_sample length_seal_all event_simps del: seal_all.simps)

theorem memory_chains_intact_witness:
  "linked GenesisPrevHash (memory_chain sample_log ''tenant-1'') \<and> numbered 1 (memory_chain sample_log ''tenant-1'') \<and>
   chains sample_log ''tenant-1'' = tail_of (memory_chain sample_log ''tenant-1'') \<and>
   length (memory_chain sample_log ''tenant-1'') = 2"
  using memory_chains_intact [OF sample_log_simps(1), of "''tenant-1''"] sample_log_simps(3) by simp

theorem memory_verify_accepts_witness: "memory_Verify ''tenant-1'' 1 0 sample_log = Inr (True, verify_ok)"
  using memory_verify_accepts [OF sample_log_simps(1,2), of "''tenant-1''"] sample_log_simps(3) by auto

definition sample_calls :: "(gotime \<times> AuditEvent) list" where
  "sample_calls = [(sample_time, sample_event), (sample_time, sample_event)]"

lemma run_sample: "fst (run_records memory_record_op sample_calls (NewMemoryAuditLog [])) = sample_log"
  by (simp add: sample_calls_def sample_log_def memory_record_op_def case_prod_beta Let_def)

lemma run_sample_pair:
  "run_records memory_record_op sample_calls (NewMemoryAuditLog [])
     = (sample_log, snd (run_records memory_record_op sample_calls (NewMemoryAuditLog [])))"
  by (metis run_sample prod.collapse)

theorem memory_ids_consecutive_witness:
  "ids_for ''tenant-1'' sample_calls (snd (run_records memory_record_op sample_calls (NewMemoryAuditLog []))) = [1, 2]"
  using memory_ids_consecutive [OF new_log_simps(1) run_sample_pair, of "''tenant-1''"] sample_log_simps(3)
  by (simp add: upt_rec)

theorem memory_append_only_witness:
  "take 0 (memory_chain sample_log ''tenant-1'') = [] \<and> memory_chain sample_log ''tenant-2'' = []"
  using memory_append_only [OF new_log_simps(1) run_sample_pair, of "''tenant-1''"]
    memory_append_only [OF new_log_simps(1) run_sample_pair, of "''tenant-2''"]
  by (simp add: sample_calls_def event_simps)

theorem verifyMemoryChain_breaks_at_first_witness:
  "\<exists>pre e post. [zero_event] = pre @ e # post \<and> linked GenesisPrevHash pre \<and> ID e = 0 \<and>
     \<not> linked GenesisPrevHash (pre @ [e])"
proof -
  have "verifyMemoryChain [zero_event] = Inr (False, verify_broken 0 GenesisPrevHash [])"
    by (simp add: verifyMemoryChain_def zero_event_def GenesisPrevHash_def)
  from verifyMemoryChain_breaks_at_first [OF this] show ?thesis
    by (auto simp: verify_broken_def zero_VerifyResult_def)
qed

text \<open>Two chains that differ in where the actor ends and the entity type begins.\<close>

definition sample_chain :: "AuditEvent list" where
  "sample_chain = seal_all [] [sample_event, sample_event]"

definition shifted_chain :: "AuditEvent list" where
  "shifted_chain = seal_all [] [shifted_event, sample_event]"

lemma sample_chain_accepted:
  "verifyMemoryChain sample_chain = Inr (True, verify_ok)" "verifyMemoryChain shifted_chain = Inr (True, verify_ok)"
proof -
  have "chain_ok ''tenant-1'' sample_chain" "chain_ok ''tenant-1'' shifted_chain"
    unfolding sample_chain_def shifted_chain_def
    by (rule seal_all_chain_ok; simp add: event_simps shifted_event_def)+
  then show "verifyMemoryChain sample_chain = Inr (True, verify_ok)"
    "verifyMemoryChain shifted_chain = Inr (True, verify_ok)"
    by (simp_all add: verifyMemoryChain_walk verify_walk_ok_iff chain_ok_def)
qed

lemma sample_chain_shape:
  obtains h h2 where
    "sample_chain = [sample_event\<lparr>ID := 1, PrevHash := GenesisPrevHash, Hash := h\<rparr>,
       sample_event\<lparr>ID := 2, PrevHash := h, Hash := h2\<rparr>]"
    "shifted_chain = [shifted_event\<lparr>ID := 1, PrevHash := GenesisPrevHash, Hash := h\<rparr>,
       sample_event\<lparr>ID := 2, PrevHash := h, Hash := h2\<rparr>]"
proof -
  have ok: "\<exists>h. entry_hash (sample_event\<lparr>ID := i, PrevHash := p\<rparr>) = Inr h" for i p
    by (simp add: entry_hash_def ComputeHash_def canonicalJSON_def event_simps)
  obtain h where h: "entry_hash (sample_event\<lparr>ID := 1, PrevHash := GenesisPrevHash\<rparr>) = Inr h" using ok by blast
  obtain h2 where h2: "entry_hash (sample_event\<lparr>ID := 2, PrevHash := h\<rparr>) = Inr h2" using ok by blast
  show thesis
    by (rule that [of h h2]) (simp_all add: sample_chain_def shifted_chain_def seal_def Let_def shifted_hash h h2)
qed

theorem verify_tamper_evident_witness:
  "sample_chain \<noteq> shifted_chain \<and>
   (list_all2 (\<lambda>e f. entry_preimage e = entry_preimage f \<and> Hash e = Hash f) sample_chain shifted_chain \<or>
    (\<exists>(e, f) \<in> set (zip sample_chain shifted_chain). colliding e f))"
proof -
  obtain h h2 where s:
    "sample_chain = [sample_event\<lparr>ID := 1, PrevHash := GenesisPrevHash, Hash := h\<rparr>,
       sample_event\<lparr>ID := 2, PrevHash := h, Hash := h2\<rparr>]"
    "shifted_chain = [shifted_event\<lparr>ID := 1, PrevHash := GenesisPrevHash, Hash := h\<rparr>,
       sample_event\<lparr>ID := 2, PrevHash := h, Hash := h2\<rparr>]"
    by (rule sample_chain_shape)
  have "length sample_chain = length shifted_chain"
    "last_hash GenesisPrevHash sample_chain = last_hash GenesisPrevHash shifted_chain" by (simp_all add: s)
  from verify_tamper_evident [OF sample_chain_accepted this] show ?thesis
    by (simp add: s shifted_event_def sample_event_def zero_event_def)
qed

theorem verify_detects_rewrite_witness:
  "\<exists>h. let e = sample_event\<lparr>ID := 1, PrevHash := GenesisPrevHash, Hash := h\<rparr>;
        e' = shifted_event\<lparr>ID := 1, PrevHash := GenesisPrevHash, Hash := h\<rparr>
    in e' \<noteq> e \<and> (entry_preimage e' = entry_preimage e \<or> colliding e' e)"
proof -
  obtain h h2 where s:
    "sample_chain = [sample_event\<lparr>ID := 1, PrevHash := GenesisPrevHash, Hash := h\<rparr>,
       sample_event\<lparr>ID := 2, PrevHash := h, Hash := h2\<rparr>]"
    "shifted_chain = [shifted_event\<lparr>ID := 1, PrevHash := GenesisPrevHash, Hash := h\<rparr>,
       sample_event\<lparr>ID := 2, PrevHash := h, Hash := h2\<rparr>]"
    by (rule sample_chain_shape)
  from verify_detects_rewrite [of "[]" _ _ "[]", simplified, OF sample_chain_accepted [unfolded s]]
  show ?thesis by (intro exI [of _ h]) (simp add: shifted_event_def sample_event_def zero_event_def)
qed

theorem verify_detects_deletion_witness:
  "\<exists>h h2. let b = sample_event\<lparr>ID := 1, PrevHash := GenesisPrevHash, Hash := h\<rparr>;
        e = sample_event\<lparr>ID := 2, PrevHash := h, Hash := h2\<rparr>
    in verifyMemoryChain [b, e] = Inr (True, verify_ok) \<and>
      (verifyMemoryChain [e] = Inr (True, verify_ok) \<longleftrightarrow> h = GenesisPrevHash)"
proof -
  obtain h h2 where s:
    "sample_chain = [sample_event\<lparr>ID := 1, PrevHash := GenesisPrevHash, Hash := h\<rparr>,
       sample_event\<lparr>ID := 2, PrevHash := h, Hash := h2\<rparr>]"
    by (rule sample_chain_shape)
  have "verifyMemoryChain ([] @ hd sample_chain # [] @ sample_chain ! 1 # []) = Inr (True, verify_ok)"
    using sample_chain_accepted(1) by (simp add: s)
  from verify_detects_deletion [OF this] sample_chain_accepted(1) show ?thesis
    by (intro exI [of _ h] exI [of _ h2]) (simp add: s)
qed

theorem memory_GetEntry_position_witness:
  "memory_GetEntry ''tenant-1'' 2 sample_log = Inr (memory_chain sample_log ''tenant-1'' ! 1) \<and>
   memory_GetEntry ''tenant-1'' 3 sample_log = Inl (Sentinel ErrEntryNotFound)"
  using memory_GetEntry_position [OF sample_log_simps(1,2), of "''tenant-1''" 2]
    memory_GetEntry_position [OF sample_log_simps(1,2), of "''tenant-1''" 3] sample_log_simps(3)
  by simp

theorem memory_closed_witness:
  "memory_Record sample_time sample_event (memory_Close sample_log)
     = (memory_Close sample_log, Inl (Sentinel ErrClosed), []) \<and>
   memory_Close (memory_Close sample_log) = memory_Close sample_log"
  using memory_closed [OF sample_log_simps(1) refl] by blast

theorem memory_verify_subrange_witness:
  "memory_Verify ''tenant-1'' 2 0 sample_log = Inr
    (let h = Hash (memory_chain sample_log ''tenant-1'' ! 0) in
     if h = GenesisPrevHash then (True, verify_ok) else (False, verify_broken 2 GenesisPrevHash h))"
  using memory_verify_subrange [OF sample_log_simps(1,2), of "''tenant-1''" 2] sample_log_simps(3)
  by (simp add: Let_def)

theorem verify_accepts_truncated_witness:
  "verifyMemoryChain [hd sample_chain] = Inr (True, verify_ok)"
proof -
  obtain h h2 where s:
    "sample_chain = [sample_event\<lparr>ID := 1, PrevHash := GenesisPrevHash, Hash := h\<rparr>,
       sample_event\<lparr>ID := 2, PrevHash := h, Hash := h2\<rparr>]"
    by (rule sample_chain_shape)
  have "verifyMemoryChain ([hd sample_chain] @ tl sample_chain) = Inr (True, verify_ok)"
    using sample_chain_accepted(1) by (simp add: s)
  then show ?thesis by (rule verify_accepts_truncated)
qed

theorem memory_record_then_read_witness:
  "\<exists>i. memory_LatestEntryID ''tenant-1'' (fst (memory_Record sample_time sample_event sample_log)) = Inr i \<and>
     memory_GetEntry ''tenant-1'' i (fst (memory_Record sample_time sample_event sample_log))
       = seal (memory_chain sample_log ''tenant-1'') sample_event"
proof -
  obtain i where "fst (snd (memory_Record sample_time sample_event sample_log)) = Inr i"
    using memory_Record_sample(4) [OF sample_log_simps(1,2)] by blast
  then have "memory_Record sample_time sample_event sample_log
      = (fst (memory_Record sample_time sample_event sample_log), Inr i,
         snd (snd (memory_Record sample_time sample_event sample_log)))"
    by (metis prod.collapse)
  from memory_record_then_read [OF sample_log_simps(1) _ this] sample_log_simps(3) show ?thesis
    by (intro exI [of _ i]) (simp add: event_simps stamp_def)
qed

theorem memory_Record_publishes_witness:
  "published (snd (snd (memory_Record sample_time sample_event (WithEventBus (Some (\<lambda>ev. None)) (NewMemoryAuditLog [])))))
     = [recorded_event (last (entries (fst (memory_Record sample_time sample_event
          (WithEventBus (Some (\<lambda>ev. None)) (NewMemoryAuditLog []))))))]"
proof -
  let ?a = "WithEventBus (Some (\<lambda>ev. None)) (NewMemoryAuditLog [])"
  have r: "memory_reachable ?a" "\<not> closed ?a" "bus ?a \<noteq> None"
    using reach_new [of "[WithEventBus (Some (\<lambda>ev. None))]"]
    by (simp_all add: memory_option.intros NewMemoryAuditLog_def WithEventBus_def)
  obtain i where "fst (snd (memory_Record sample_time sample_event ?a)) = Inr i"
    using memory_Record_sample(4) [OF r(1,2)] by blast
  then have "memory_Record sample_time sample_event ?a
      = (fst (memory_Record sample_time sample_event ?a), Inr i, snd (snd (memory_Record sample_time sample_event ?a)))"
    by (metis prod.collapse)
  from memory_Record_publishes [OF this] r(3) show ?thesis by simp
qed

end
