(* ===== verification/Example.thy ===== *)
theory Example
  imports Memory
begin

text \<open>
  \<^verbatim>\<open>example/example.go\<close>: the program that shows the in-memory log at work.  Its world is the
  log, the clock readings still to come, what went to the terminal and what bus and logger
  received.  A part of \<^verbatim>\<open>main\<close> turns a world into a result and a new world; no result means
  that \<^verbatim>\<open>log.Fatal\<close> ended the process, after which nothing runs, not even the deferred
  \<^verbatim>\<open>Close\<close>.  The bus the program creates and closes is a parameter, the outcome of its
  \<^verbatim>\<open>Publish\<close>; so is the order in which \<^verbatim>\<open>RecordChange\<close> iterates over maps.
\<close>

section \<open>The world of the program\<close>

datatype printed = PString string | PUint EntryID | PInt int | PBool bool | PResult VerifyResult

datatype line =
    Println "printed list"
  | Printf string "printed list"
  | Fatal goerror

record world =
  auditLog :: memoryAuditLog
  clock :: "gotime list"
  terminal :: "line list"
  side_effects :: "effect list"

type_synonym 'a io = "world \<Rightarrow> 'a option \<times> world"

text \<open>Two parts in sequence: the second runs with the result of the first, unless the process has ended.\<close>

definition and_then :: "'a io \<Rightarrow> ('a \<Rightarrow> 'b io) \<Rightarrow> 'b io" where
  "and_then p q w = (case p w of (None, w') \<Rightarrow> (None, w') | (Some x, w') \<Rightarrow> q x w')"

definition print :: "line \<Rightarrow> unit io" where
  "print l w = (Some (), w\<lparr>terminal := terminal w @ [l]\<rparr>)"

text \<open>The check after every call: \<^verbatim>\<open>if err != nil { log.Fatal(err) }\<close>.\<close>

definition or_fatal :: "'a result \<Rightarrow> 'a io" where
  "or_fatal r w = (case r of
     Inl err \<Rightarrow> (None, w\<lparr>terminal := terminal w @ [Fatal err]\<rparr>)
   | Inr x \<Rightarrow> (Some x, w))"

text \<open>A call that writes to the log reads the clock; one that reads leaves the log alone.\<close>

definition writing :: "(gotime \<Rightarrow> memoryAuditLog \<Rightarrow> memoryAuditLog \<times> EntryID result \<times> effect list) \<Rightarrow> EntryID io" where
  "writing call w =
     (let (a, r, fx) = call (hd (clock w)) (auditLog w)
      in or_fatal r (w\<lparr>auditLog := a, clock := tl (clock w), side_effects := side_effects w @ fx\<rparr>))"

definition reading :: "(memoryAuditLog \<Rightarrow> 'a result) \<Rightarrow> 'a io" where
  "reading call w = or_fatal (call (auditLog w)) w"

section \<open>The program\<close>

definition tenantChainID :: string where
  "tenantChainID = ''tenant:acme''"

definition platformChainID :: string where
  "platformChainID = ''platform:ops''"

definition invoice_created :: AuditEvent where
  "invoice_created = zero_event\<lparr>ChainID := tenantChainID, ActorID := ''user:42'', EntityType := ''invoice'',
     EntityID := ''inv_123'', Action := ''create'',
     Payload := GMap [(''amount'', GInt 100), (''currency'', GString ''USD'')]\<rparr>"

definition invoice_draft :: goval where
  "invoice_draft = GMap [(''amount'', GInt 100), (''status'', GString ''draft'')]"

definition invoice_sent :: goval where
  "invoice_sent = GMap [(''amount'', GInt 100), (''status'', GString ''sent'')]"

definition tenant_provisioned :: AuditEvent where
  "tenant_provisioned = zero_event\<lparr>ChainID := platformChainID, ActorID := ''operator:jane'', EntityType := ''tenant'',
     EntityID := ''acme'', Action := ''provision'', Payload := GMap [(''plan'', GString ''enterprise'')]\<rparr>"

definition invoice_filter :: QueryFilter where
  "invoice_filter = \<lparr>fChainID = tenantChainID, fActorID = [], fEntityType = ''invoice'', fEntityID = ''inv_123'',
     fFrom = zero_time, fTo = zero_time, fLimit = 0\<rparr>"

definition record_entries :: "key_order \<Rightarrow> (EntryID \<times> EntryID) io" where
  "record_entries visit =
     and_then (writing (\<lambda>now. memory_Record now invoice_created)) (\<lambda>tenantID1.
     and_then (print (Println [PString ''recorded tenant entry'', PUint tenantID1])) (\<lambda>_.
     and_then (writing (\<lambda>now. memory_RecordChange now visit tenantChainID ''user:42'' ''invoice'' ''inv_123''
       invoice_draft invoice_sent)) (\<lambda>tenantID2.
     and_then (print (Println [PString ''recorded tenant change entry'', PUint tenantID2])) (\<lambda>_.
     and_then (writing (\<lambda>now. memory_Record now tenant_provisioned)) (\<lambda>platformID1.
     and_then (print (Println [PString ''recorded platform entry'', PUint platformID1])) (\<lambda>_ w.
       (Some (tenantID1, platformID1), w)))))))"

definition verify_chains :: "EntryID \<Rightarrow> unit io" where
  "verify_chains platformID1 =
     and_then (reading (memory_Verify tenantChainID 1 0)) (\<lambda>(tenantOK, tenantDetail).
     and_then (print (Printf ''verify tenant chain (before tampering): ok=%v detail=%+v\<newline>''
       [PBool tenantOK, PResult tenantDetail])) (\<lambda>_.
     and_then (reading (memory_Verify platformChainID 1 platformID1)) (\<lambda>(platformOK, platformDetail).
     print (Printf ''verify platform chain (before tampering): ok=%v detail=%+v\<newline>''
       [PBool platformOK, PResult platformDetail]))))"

definition read_back :: "EntryID \<Rightarrow> unit io" where
  "read_back tenantID1 =
     and_then (reading (memory_GetEntry tenantChainID tenantID1)) (\<lambda>tenantEntry1.
     and_then (print (Printf ''fetched tenant entry #%d directly: action=%q entity=%s/%s\<newline>''
       [PUint (ID tenantEntry1), PString (Action tenantEntry1), PString (EntityType tenantEntry1),
        PString (EntityID tenantEntry1)])) (\<lambda>_.
     and_then (reading (memory_LatestEntryID tenantChainID)) (\<lambda>tenantLatest.
     and_then (print (Println [PString ''tenant chain's latest entry id:'', PUint tenantLatest])) (\<lambda>_.
     and_then (reading (memory_Query invoice_filter)) (\<lambda>tenantEntries.
     print (Printf ''found %d entries for invoice inv_123 in the tenant chain\<newline>''
       [PInt (int (length tenantEntries))]))))))"

text \<open>\<^verbatim>\<open>main\<close> itself, with the deferred \<^verbatim>\<open>Close\<close> when it returns.\<close>

definition example_main :: "key_order \<Rightarrow> bus \<Rightarrow> gotime list \<Rightarrow> unit option \<times> world" where
  "example_main visit closed_bus now =
     and_then (record_entries visit) (\<lambda>(tenantID1, platformID1).
     and_then (verify_chains platformID1) (\<lambda>_.
     and_then (read_back tenantID1) (\<lambda>_ w.
       (Some (), w\<lparr>auditLog := memory_Close (auditLog w)\<rparr>))))
     \<lparr>auditLog = NewMemoryAuditLog [WithLogger (Some CallerLogger), WithEventBus (Some closed_bus)],
      clock = now, terminal = [], side_effects = []\<rparr>"

section \<open>The calls succeed\<close>

definition a_memory_log :: "bus \<Rightarrow> memoryAuditLog \<Rightarrow> bool" where
  "a_memory_log publish a \<longleftrightarrow> memory_reachable a \<and> \<not> closed a \<and> bus a = Some publish \<and> logger a = CallerLogger"

text \<open>What a bus that refuses every event makes of one recorded entry.\<close>

definition refused :: "bus \<Rightarrow> AuditEvent \<Rightarrow> effect list" where
  "refused publish e =
     [Publish (recorded_event e), Warn ''graudit: publish failed'' (ID e) (the (publish (recorded_event e)))]"

lemma seal_hashable:
  assumes "canonicalJSON (Payload event) = Inr t"
  obtains e where "seal es event = Inr e"
  using assms by (auto simp: seal_def Let_def entry_hash_def ComputeHash_def)

lemma small_payload:
  assumes "marshal v = Some t" "nesting v \<le> max_nesting_depth"
  obtains u where "canonicalJSON v = Inr u"
  using canonicalJSON_char [OF assms] by blast

lemma memory_Record_succeeds:
  assumes "a_memory_log publish a" "\<forall>ev. publish ev \<noteq> None"
    and "Validate event = Inr ()" "nesting (Payload event) \<le> max_nesting_depth"
  obtains a' e where "memory_Record now event a = (a', Inr (ID e), refused publish e)" "a_memory_log publish a'"
    "seal (memory_chain a (ChainID event)) (stamp now event) = Inr e"
    "memory_chain a' = (memory_chain a)(ChainID event := memory_chain a (ChainID event) @ [e])"
proof -
  have log: "memory_reachable a" "\<not> closed a" "bus a = Some publish" "logger a = CallerLogger"
    using assms(1) by (auto simp: a_memory_log_def)
  obtain t where t: "marshal (Payload event) = Some t"
    using assms(3) by (auto simp: Validate_ok_iff recordable_def)
  obtain u where "canonicalJSON (Payload event) = Inr u" by (rule small_payload [OF t assms(4)])
  then have "canonicalJSON (Payload (stamp now event)) = Inr u" by (simp add: stamp_def)
  then obtain e where e: "seal (memory_chain a (ChainID event)) (stamp now event) = Inr e"
    by (rule seal_hashable)
  let ?a' = "a\<lparr>entries := entries a @ [e], chains := (chains a)(ChainID event \<mapsto> \<lparr>lastID = ID e, lastHash = Hash e\<rparr>)\<rparr>"
  have rec: "memory_Record now event a = (?a', Inr (ID e), PublishRecorded (bus a) (logger a) e)"
    by (rule memory_Record_cases [OF memory_reachable_inv [OF log(1)], of now event]) (use log(2) assms(3) e in auto)
  obtain err where "publish (recorded_event e) = Some err" using assms(2) by blast
  then have pub: "PublishRecorded (bus a) (logger a) e = refused publish e"
    by (simp add: PublishRecorded_def refused_def log(3,4))
  have "memory_reachable ?a'" using reach_record [OF log(1), of now event] by (simp add: rec)
  then have "a_memory_log publish ?a'" using log by (simp add: a_memory_log_def)
  moreover have "memory_chain ?a' = (memory_chain a)(ChainID event := memory_chain a (ChainID event) @ [e])"
    using seal_Inr(4) [OF e] by (simp add: memory_chain_append fun_eq_iff)
  ultimately show thesis using that e rec unfolding pub by blast
qed

section \<open>The change of the invoice\<close>

lemma two_keys:
  assumes "distinct xs" "set xs = {x, y}" "x \<noteq> y"
  shows "xs = [x, y] \<or> xs = [y, x]"
proof -
  have "length xs = 2" using assms distinct_card [OF assms(1)] by simp
  then obtain u v where "xs = [u, v]" by (auto simp: numeral_2_eq_2 length_Suc_conv)
  with assms(2,3) show ?thesis by (auto simp: doubleton_eq_iff)
qed

lemma invoice_amount: "dec_int 100 = ''100''"
  by (simp add: dec_int_def dec_nat_step digit_char_def char_of_ord)

lemma invoice_objects:
  "normalizeToObject invoice_draft = Inr [(''amount'', GNumber ''100''), (''status'', GString ''draft'')]"
  "normalizeToObject invoice_sent = Inr [(''amount'', GNumber ''100''), (''status'', GString ''sent'')]"
  by (rule normalizeToObject_char; simp add: invoice_draft_def invoice_sent_def tag_def max_nesting_depth_def
      build_map_def to_valid_ascii invoice_amount)+

definition status_change :: ChangeDiff where
  "status_change = [(''status'', \<lparr>DBefore = GString ''draft'', DAfter = GString ''sent''\<rparr>)]"

lemma invoice_diff:
  assumes "iteration_order visit"
  shows "computeDiff visit invoice_draft invoice_sent = Inr status_change"
proof -
  let ?ks = "seen_keys [(''amount'', GNumber ''100''), (''status'', GString ''draft'')]
     [(''amount'', GNumber ''100''), (''status'', GString ''sent'')]"
  have ks: "?ks = [''amount'', ''status'']" by (simp add: seen_keys_def)
  have "distinct ?ks" "set ?ks = {''amount'', ''status''}" unfolding ks by simp_all
  with assms [unfolded iteration_order_def, rule_format, of ?ks "[]"]
  have "distinct (visit [] ?ks)" "set (visit [] ?ks) = {''amount'', ''status''}" by simp_all
  from two_keys [OF this] have orders: "visit [] ?ks = [''amount'', ''status''] \<or> visit [] ?ks = [''status'', ''amount'']" by simp
  let ?turn = "\<lambda>k d. diff_step visit [] [] [(''amount'', GNumber ''100''), (''status'', GString ''draft'')]
     [(''amount'', GNumber ''100''), (''status'', GString ''sent'')] k d"
  have "?turn ''amount'' d = d" "?turn ''status'' [] = status_change" for d
    by (simp_all add: diff_step_def status_change_def path_of_def valueOrNil_def)
  then have "fold ?turn (visit [] ?ks) [] = status_change" using orders by auto
  then show ?thesis by (simp add: computeDiff_def invoice_objects collectDiff_fold)
qed

section \<open>The run\<close>

definition invoice_changed :: AuditEvent where
  "invoice_changed = zero_event\<lparr>ChainID := tenantChainID, ActorID := ''user:42'', EntityType := ''invoice'',
     EntityID := ''inv_123'', Action := ''update'', Payload := diff_payload status_change\<rparr>"

lemma memory_RecordChange_invoice:
  "iteration_order visit \<Longrightarrow> memory_RecordChange now visit tenantChainID ''user:42'' ''invoice'' ''inv_123''
     invoice_draft invoice_sent a = memory_Record now invoice_changed a"
  by (simp add: memory_RecordChange_def BuildChangeEvent_def invoice_diff invoice_changed_def Let_def)
    (simp add: invoice_draft_def invoice_sent_def)

lemma stamp_zero: "Timestamp event = zero_time \<Longrightarrow> stamp now event = event\<lparr>Timestamp := UTC now\<rparr>"
  by (simp add: stamp_def IsZero_def zero_time_def)

lemmas example_events = invoice_created_def invoice_changed_def tenant_provisioned_def zero_event_def

lemma example_events_valid:
  "Validate invoice_created = Inr ()" "Validate invoice_changed = Inr ()" "Validate tenant_provisioned = Inr ()"
  "nesting (Payload invoice_created) \<le> max_nesting_depth" "nesting (Payload invoice_changed) \<le> max_nesting_depth"
  "nesting (Payload tenant_provisioned) \<le> max_nesting_depth"
  by (simp_all add: Validate_ok_iff recordable_def example_events tenantChainID_def platformChainID_def
      max_nesting_depth_def tag_def diff_payload_def status_change_def omitempty_def)

lemma chain_names: "tenantChainID \<noteq> platformChainID" "tenantChainID \<noteq> []" "platformChainID \<noteq> []"
  by (simp_all add: tenantChainID_def platformChainID_def)

lemma and_then_print [simp]: "and_then (print l) q w = q () (w\<lparr>terminal := terminal w @ [l]\<rparr>)"
  by (simp add: and_then_def print_def)

lemma and_then_reading [simp]: "call (auditLog w) = Inr x \<Longrightarrow> and_then (reading call) q w = q x w"
  by (simp add: and_then_def reading_def or_fatal_def)

lemma and_then_writing [simp]:
  "call (hd (clock w)) (auditLog w) = (a, Inr i, fx) \<Longrightarrow> and_then (writing call) q w
     = q i (w\<lparr>auditLog := a, clock := tl (clock w), side_effects := side_effects w @ fx\<rparr>)"
  by (simp add: and_then_def writing_def or_fatal_def)

lemma and_then_assoc [simp]: "and_then (and_then p q) r = and_then p (\<lambda>x. and_then (q x) r)"
  by (auto simp: and_then_def fun_eq_iff split: prod.splits option.splits)

text \<open>The three entries the program records, as they end up in the chains.\<close>

definition example_entries :: "bus \<Rightarrow> gotime list \<Rightarrow> memoryAuditLog \<Rightarrow> AuditEvent \<Rightarrow> AuditEvent \<Rightarrow> AuditEvent \<Rightarrow> bool" where
  "example_entries publish now a e1 e2 e3 \<longleftrightarrow>
     a_memory_log publish a \<and> memory_chain a tenantChainID = [e1, e2] \<and> memory_chain a platformChainID = [e3] \<and>
     seal [] (invoice_created\<lparr>Timestamp := UTC (now ! 0)\<rparr>) = Inr e1 \<and>
     seal [e1] (invoice_changed\<lparr>Timestamp := UTC (now ! 1)\<rparr>) = Inr e2 \<and>
     seal [] (tenant_provisioned\<lparr>Timestamp := UTC (now ! 2)\<rparr>) = Inr e3"

definition first_log :: "bus \<Rightarrow> memoryAuditLog" where
  "first_log publish = NewMemoryAuditLog [WithLogger (Some CallerLogger), WithEventBus (Some publish)]"

lemma first_log_simps: "a_memory_log publish (first_log publish)" "memory_chain (first_log publish) c = []"
  using reach_new [of "[WithLogger (Some CallerLogger), WithEventBus (Some publish)]"]
  by (simp_all add: memory_option.intros first_log_def a_memory_log_def NewMemoryAuditLog_def WithLogger_def
      WithEventBus_def OrNop_def memory_chain_def)

lemma record_entries_run:
  assumes "iteration_order visit" "\<forall>ev. publish ev \<noteq> None" "length now = 3"
  obtains a e1 e2 e3 where "example_entries publish now a e1 e2 e3"
    "record_entries visit \<lparr>auditLog = first_log publish, clock = now, terminal = [], side_effects = []\<rparr>
      = (Some (1, 1), \<lparr>auditLog = a, clock = [], terminal =
          [Println [PString ''recorded tenant entry'', PUint 1],
           Println [PString ''recorded tenant change entry'', PUint 2],
           Println [PString ''recorded platform entry'', PUint 1]],
         side_effects = refused publish e1 @ refused publish e2 @ refused publish e3\<rparr>)"
proof -
  obtain t1 t2 t3 where now: "now = [t1, t2, t3]" using assms(3) by (auto simp: numeral_3_eq_3 length_Suc_conv)
  have chains: "ChainID invoice_created = tenantChainID" "ChainID invoice_changed = tenantChainID"
    "ChainID tenant_provisioned = platformChainID" by (simp_all add: example_events)
  have zero: "Timestamp invoice_created = zero_time" "Timestamp invoice_changed = zero_time"
    "Timestamp tenant_provisioned = zero_time" by (simp_all add: example_events)
  obtain a1 e1 where 1: "memory_Record t1 invoice_created (first_log publish) = (a1, Inr (ID e1), refused publish e1)"
    "a_memory_log publish a1" "seal [] (stamp t1 invoice_created) = Inr e1"
    "memory_chain a1 = (memory_chain (first_log publish))(tenantChainID := [e1])"
    using memory_Record_succeeds [OF first_log_simps(1) assms(2) example_events_valid(1,4), of t1]
    by (auto simp: first_log_simps(2) chains)
  obtain a2 e2 where 2: "memory_Record t2 invoice_changed a1 = (a2, Inr (ID e2), refused publish e2)"
    "a_memory_log publish a2" "seal [e1] (stamp t2 invoice_changed) = Inr e2"
    "memory_chain a2 = (memory_chain a1)(tenantChainID := [e1, e2])"
    using memory_Record_succeeds [OF 1(2) assms(2) example_events_valid(2,5), of t2] by (auto simp: 1(4) chains)
  obtain a3 e3 where 3: "memory_Record t3 tenant_provisioned a2 = (a3, Inr (ID e3), refused publish e3)"
    "a_memory_log publish a3" "seal [] (stamp t3 tenant_provisioned) = Inr e3"
    "memory_chain a3 = (memory_chain a2)(platformChainID := [e3])"
    using memory_Record_succeeds [OF 2(2) assms(2) example_events_valid(3,6), of t3] chain_names(1)
    by (auto simp: 1(4) 2(4) chains first_log_simps(2))
  have ids: "ID e1 = 1" "ID e2 = 2" "ID e3 = 1"
    using seal_Inr(1) [OF 1(3)] seal_Inr(1) [OF 2(3)] seal_Inr(1) [OF 3(3)] by simp_all
  show thesis
  proof (rule that)
    show "example_entries publish now a3 e1 e2 e3"
      using 1 2 3 chain_names(1) by (simp add: example_entries_def now stamp_zero zero)
    show "record_entries visit \<lparr>auditLog = first_log publish, clock = now, terminal = [], side_effects = []\<rparr>
      = (Some (1, 1), \<lparr>auditLog = a3, clock = [], terminal =
          [Println [PString ''recorded tenant entry'', PUint 1],
           Println [PString ''recorded tenant change entry'', PUint 2],
           Println [PString ''recorded platform entry'', PUint 1]],
         side_effects = refused publish e1 @ refused publish e2 @ refused publish e3\<rparr>)"
      using 1(1) 2(1) 3(1) by (simp add: record_entries_def memory_RecordChange_invoice [OF assms(1)] ids now)
  qed
qed

lemma example_entry_fields:
  assumes "example_entries publish now a e1 e2 e3"
  shows "ID e1 = 1" "Action e1 = ''create''" "EntityType e1 = ''invoice''" "EntityID e1 = ''inv_123''"
    "ChainID e1 = tenantChainID" "Payload e1 = Payload invoice_created" "Timestamp e1 = UTC (now ! 0)"
    "ID e2 = 2" "EntityType e2 = ''invoice''" "EntityID e2 = ''inv_123''" "ChainID e2 = tenantChainID"
    "Payload e2 = Payload invoice_changed" "Timestamp e2 = UTC (now ! 1)"
    "ID e3 = 1" "Payload e3 = Payload tenant_provisioned" "Timestamp e3 = UTC (now ! 2)"
proof -
  have e: "seal [] (invoice_created\<lparr>Timestamp := UTC (now ! 0)\<rparr>) = Inr e1"
    "seal [e1] (invoice_changed\<lparr>Timestamp := UTC (now ! 1)\<rparr>) = Inr e2"
    "seal [] (tenant_provisioned\<lparr>Timestamp := UTC (now ! 2)\<rparr>) = Inr e3"
    using assms by (auto simp: example_entries_def)
  show "ID e1 = 1" "Action e1 = ''create''" "EntityType e1 = ''invoice''" "EntityID e1 = ''inv_123''"
    "ChainID e1 = tenantChainID" "Payload e1 = Payload invoice_created" "Timestamp e1 = UTC (now ! 0)"
    using seal_Inr [OF e(1)] by (simp_all add: invoice_created_def zero_event_def)
  show "ID e2 = 2" "EntityType e2 = ''invoice''" "EntityID e2 = ''inv_123''" "ChainID e2 = tenantChainID"
    "Payload e2 = Payload invoice_changed" "Timestamp e2 = UTC (now ! 1)"
    using seal_Inr [OF e(2)] by (simp_all add: invoice_changed_def zero_event_def)
  show "ID e3 = 1" "Payload e3 = Payload tenant_provisioned" "Timestamp e3 = UTC (now ! 2)"
    using seal_Inr [OF e(3)] by (simp_all add: tenant_provisioned_def zero_event_def)
qed

lemma example_log_reads:
  assumes "example_entries publish now a e1 e2 e3"
  shows "memory_Verify tenantChainID 1 0 a = Inr (True, verify_ok)"
    "memory_Verify platformChainID 1 1 a = Inr (True, verify_ok)"
    "memory_GetEntry tenantChainID 1 a = Inr e1"
    "memory_LatestEntryID tenantChainID a = Inr 2"
    "memory_Query invoice_filter a = Inr [e1, e2]"
proof -
  have a: "memory_inv a" "\<not> closed a" and chains: "memory_chain a tenantChainID = [e1, e2]"
    "memory_chain a platformChainID = [e3]"
    using assms memory_reachable_inv by (auto simp: example_entries_def a_memory_log_def)
  note f = example_entry_fields [OF assms]
  have "linked GenesisPrevHash [e1, e2]" "linked GenesisPrevHash [e3]"
    using a(1) chains unfolding memory_inv_def chain_ok_def by metis+
  then have walk: "verify_walk GenesisPrevHash [e1, e2] = Inr (True, verify_ok)"
    "verify_walk GenesisPrevHash [e3] = Inr (True, verify_ok)"
    by (simp_all only: verify_walk_ok_iff simp_thms)
  note spec = memory_Verify_spec [OF a]
  show "memory_Verify tenantChainID 1 0 a = Inr (True, verify_ok)"
    "memory_Verify platformChainID 1 1 a = Inr (True, verify_ok)"
    by (simp_all add: spec chain_names chains in_range_def f walk del: verify_walk.simps)
  show "memory_GetEntry tenantChainID 1 a = Inr e1"
    by (simp add: memory_GetEntry_def a chain_names find_chain chains f)
  show "memory_LatestEntryID tenantChainID a = Inr 2"
    by (simp add: memory_LatestEntryID_def a chain_names latest_chain chains)
  show "memory_Query invoice_filter a = Inr [e1, e2]"
    using query_loop_spec [of "[]" invoice_filter "entries a"] a(2)
    by (simp add: memory_Query_def filter_matches_chain invoice_filter_def chain_names chains matches_def limited_def
        f IsZero_def zero_time_def)
qed

text \<open>
  C15. The example program runs to its end without \<^verbatim>\<open>log.Fatal\<close>, whatever the clock reads and in
  whatever order maps are iterated, although its bus refuses every event: both tenant calls
  get the positions 1 and 2 and the platform call gets 1 in its own chain, both chains verify,
  entry 1 is the invoice's creation, the latest position is 2 and the query finds both
  entries.  The change is stored as the one field that differs, each entry was published
  once and its refusal logged, and the log is closed at the end.
\<close>

theorem example_main_output:
  assumes "iteration_order visit" "\<forall>ev. publish ev \<noteq> None" "length now = 3"
  shows "\<exists>w e1 e2 e3. example_main visit publish now = (Some (), w) \<and>
    terminal w =
      [Println [PString ''recorded tenant entry'', PUint 1],
       Println [PString ''recorded tenant change entry'', PUint 2],
       Println [PString ''recorded platform entry'', PUint 1],
       Printf ''verify tenant chain (before tampering): ok=%v detail=%+v\<newline>'' [PBool True, PResult verify_ok],
       Printf ''verify platform chain (before tampering): ok=%v detail=%+v\<newline>'' [PBool True, PResult verify_ok],
       Printf ''fetched tenant entry #%d directly: action=%q entity=%s/%s\<newline>''
         [PUint 1, PString ''create'', PString ''invoice'', PString ''inv_123''],
       Println [PString ''tenant chain's latest entry id:'', PUint 2],
       Printf ''found %d entries for invoice inv_123 in the tenant chain\<newline>'' [PInt 2]] \<and>
    side_effects w = refused publish e1 @ refused publish e2 @ refused publish e3 \<and>
    memory_chain (auditLog w) tenantChainID = [e1, e2] \<and> memory_chain (auditLog w) platformChainID = [e3] \<and>
    map Payload [e1, e2, e3] = map Payload [invoice_created, invoice_changed, tenant_provisioned] \<and>
    map Timestamp [e1, e2, e3] = map UTC now \<and> closed (auditLog w)"
proof -
  obtain t1 t2 t3 where now: "now = [t1, t2, t3]" using assms(3) by (auto simp: numeral_3_eq_3 length_Suc_conv)
  obtain a e1 e2 e3 where a: "example_entries publish now a e1 e2 e3"
    and run: "record_entries visit \<lparr>auditLog = first_log publish, clock = now, terminal = [], side_effects = []\<rparr>
      = (Some (1, 1), \<lparr>auditLog = a, clock = [], terminal =
          [Println [PString ''recorded tenant entry'', PUint 1],
           Println [PString ''recorded tenant change entry'', PUint 2],
           Println [PString ''recorded platform entry'', PUint 1]],
         side_effects = refused publish e1 @ refused publish e2 @ refused publish e3\<rparr>)"
    by (rule record_entries_run [OF assms])
  note reads = example_log_reads [OF a]
  note f = example_entry_fields [OF a]
  have close: "closed (memory_Close a)" using a memory_reachable_once [of a]
    by (auto simp: example_entries_def a_memory_log_def memory_Close_def)
  have chains: "memory_chain a tenantChainID = [e1, e2]" "memory_chain a platformChainID = [e3]"
    using a by (auto simp: example_entries_def)
  show ?thesis
    unfolding example_main_def first_log_def [symmetric]
    by (simp add: and_then_def [of "record_entries visit"] run)
      (simp add: verify_chains_def read_back_def reads f close chains now)
qed

section \<open>Witness\<close>

definition refusing_bus :: bus where
  "refusing_bus ev = Some (Native ''bus is closed'')"

theorem example_main_output_witness:
  "\<exists>w. example_main reversed refusing_bus [sample_time, sample_time, sample_time] = (Some (), w) \<and>
     length (terminal w) = 8 \<and> length (side_effects w) = 6 \<and> closed (auditLog w)"
proof -
  have "\<forall>ev. refusing_bus ev \<noteq> None" "length [sample_time, sample_time, sample_time] = 3"
    by (simp_all add: refusing_bus_def)
  from example_main_output [OF sample_orders(2) this] obtain w e1 e2 e3 where
    "example_main reversed refusing_bus [sample_time, sample_time, sample_time] = (Some (), w)"
    "length (terminal w) = 8" "closed (auditLog w)"
    "side_effects w = refused refusing_bus e1 @ refused refusing_bus e2 @ refused refusing_bus e3"
    by fastforce
  then show ?thesis by (simp add: refused_def)
qed

end
