(* ===== verification/DecoderLimit.thy ===== *)
theory DecoderLimit
  imports ChainHash
begin

text \<open>
  The decoder of \<^verbatim>\<open>encoding/json\<close> refuses nesting deeper than 10000, its encoder does not.  So there are
  payloads that marshal, and pass \<^verbatim>\<open>Validate\<close> of \<^verbatim>\<open>audit.go\<close>, and that \<^verbatim>\<open>canonicalJSON\<close> of \<^verbatim>\<open>hash.go\<close>
  rejects.  \<open>canonicalJSON_too_deep\<close> says which, \<open>deep_payload\<close> is one.
\<close>

section \<open>More room changes nothing for what was accepted\<close>

lemma parse_mono:
  "parse_value d s = Some vr \<Longrightarrow> d \<le> d' \<Longrightarrow> parse_value d' s = Some vr"
  "parse_elems d s = Some vsr \<Longrightarrow> d \<le> d' \<Longrightarrow> parse_elems d' s = Some vsr"
  "parse_members d s = Some kvsr \<Longrightarrow> d \<le> d' \<Longrightarrow> parse_members d' s = Some kvsr"
proof (induction d s and d s and d s arbitrary: vr d' and vsr d' and kvsr d'
    rule: parse_value_parse_elems_parse_members.induct)
  case (1 d s)
  from "1.prems" obtain c cs where c: "skip_ws s = c # cs"
    by (subst (asm) parse_value.simps) (auto split: list.splits)
  consider (obj) "c = CHR ''{''" | (arr) "c = CHR ''[''" | (other) "c \<noteq> CHR ''{''" "c \<noteq> CHR ''[''" by blast
  then show ?case
  proof cases
    case obj
    with "1.prems" c obtain e es where e: "skip_ws cs = e # es" "d \<noteq> 0"
      by (subst (asm) parse_value.simps) (auto split: list.splits if_splits)
    show ?thesis
    proof (cases "e = CHR ''}''")
      case True
      with "1.prems" obj c e show ?thesis by (subst (asm) parse_value.simps) (subst parse_value.simps, simp)
    next
      case False
      with "1.prems"(1) obj c e obtain p where p: "parse_members (d - 1) (e # es) = Some p"
        "vr = map_prod (GMap \<circ> build_map) id p"
        by (subst (asm) parse_value.simps) auto
      have "parse_members (d' - 1) (e # es) = Some p"
        using "1.IH"(1) [OF c obj e(2,1) False p(1)] "1.prems"(2) by simp
      with "1.prems"(2) obj c e False p(2) show ?thesis by (subst parse_value.simps) simp
    qed
  next
    case arr
    with "1.prems" c obtain e es where e: "skip_ws cs = e # es" "d \<noteq> 0"
      by (subst (asm) parse_value.simps) (auto split: list.splits if_splits)
    have neq: "c \<noteq> CHR ''{''" using arr by simp
    show ?thesis
    proof (cases "e = CHR '']''")
      case True
      with "1.prems" arr c e show ?thesis by (subst (asm) parse_value.simps) (subst parse_value.simps, simp)
    next
      case False
      with "1.prems"(1) arr c e obtain p where p: "parse_elems (d - 1) (e # es) = Some p" "vr = map_prod GSlice id p"
        by (subst (asm) parse_value.simps) auto
      have "parse_elems (d' - 1) (e # es) = Some p"
        using "1.IH"(2) [OF c neq arr e(2,1) False p(1)] "1.prems"(2) by simp
      with "1.prems"(2) arr c e False p(2) show ?thesis by (subst parse_value.simps) simp
    qed
  next
    case other
    with "1.prems" c show ?thesis by (subst (asm) parse_value.simps) (subst parse_value.simps, simp)
  qed
next
  case (2 d s)
  from "2.prems" obtain v rest c cs where p: "parse_value d s = Some (v, rest)" "skip_ws rest = c # cs"
    by (subst (asm) parse_elems.simps) (auto split: option.splits list.splits)
  note p' = "2.IH"(1) [OF p(1) "2.prems"(2)]
  show ?case
  proof (cases "c = CHR '']''")
    case True
    with "2.prems" p p' show ?thesis by (subst (asm) parse_elems.simps) (subst parse_elems.simps, simp)
  next
    case False
    with "2.prems" p obtain us where u: "c = CHR '','' \<and> length cs < length s"
      "parse_elems d cs = Some us" "vsr = map_prod (Cons v) id us"
      by (subst (asm) parse_elems.simps) (auto split: if_splits)
    note u' = "2.IH"(2) [OF p(1) refl p(2) False u(1,2) "2.prems"(2)]
    from p' p(2) False u u' show ?thesis by (subst parse_elems.simps) simp
  qed
next
  case (3 d s)
  from "3.prems" obtain qs k r1 es v rest c cs where
    p: "skip_ws s = c_quote # qs" "unquote qs = Some (k, r1)" "skip_ws r1 = CHR '':'' # es"
      "length es < length s" "parse_value d es = Some (v, rest)" "skip_ws rest = c # cs"
    by (subst (asm) parse_members.simps) (auto split: option.splits list.splits if_splits)
  have g: "\<not> c_quote \<noteq> c_quote" "\<not> (CHR '':'' \<noteq> CHR '':'' \<or> length s \<le> length es)" using p(4) by auto
  have p': "parse_value d' es = Some (v, rest)"
    by (rule "3.IH"(1) [OF p(1) g(1) p(2) refl p(3) g(2) p(5) "3.prems"(2)])
  show ?case
  proof (cases "c = CHR ''}''")
    case True
    with "3.prems" p p' show ?thesis by (subst (asm) parse_members.simps) (subst parse_members.simps, simp)
  next
    case False
    with "3.prems" p obtain us where u: "c = CHR '','' \<and> length cs < length s"
      "parse_members d cs = Some us" "kvsr = map_prod (Cons (k, v)) id us"
      by (subst (asm) parse_members.simps) (auto split: if_splits)
    note u' = "3.IH"(2) [OF p(1) g(1) p(2) refl p(3) g(2) p(5) refl p(6) False u(1,2) "3.prems"(2)]
    from p p' False u u' show ?thesis by (subst parse_members.simps) simp
  qed
qed

section \<open>Payloads that are too deep\<close>

lemma json_decode_of_marshal:
  assumes "marshal v = Some t" "json_decode t = Some w"
  shows "w = normal_form v" "nesting (normal_form v) \<le> max_nesting_depth"
proof -
  obtain rest where p: "parse_value max_nesting_depth t = Some (w, rest)" using assms(2) by (auto simp: json_decode_def)
  have "parse_value (max max_nesting_depth (nesting v)) t = Some (w, rest)"
    using parse_mono(1) [OF p] by simp
  moreover have "parse_value (max max_nesting_depth (nesting v)) t = Some (normal_form v, [])"
    using parse_value_marshal [OF assms(1), of _ "[]"] by simp
  ultimately show "w = normal_form v" by simp
  with json_decode_normal(2) [OF assms(2)] show "nesting (normal_form v) \<le> max_nesting_depth" by simp
qed

lemma canonicalJSON_too_deep:
  assumes "marshal v = Some t" "max_nesting_depth < nesting (normal_form v)"
  shows "canonicalJSON v = Inl (Errorf ''canonicalJSON: normalize'' [Native ''json''])"
proof -
  have "v \<noteq> GNil" using assms(2) by auto
  moreover have "json_decode t = None" using json_decode_of_marshal(2) [OF assms(1)] assms(2) by (cases "json_decode t") auto
  ultimately show ?thesis using assms(1) by (simp add: canonicalJSON_def)
qed

text \<open>A slice in a slice in a slice, \<open>n\<close> levels deep.\<close>

fun nested_slices :: "nat \<Rightarrow> goval" where
  "nested_slices 0 = GSlice []"
| "nested_slices (Suc n) = GSlice [nested_slices n]"

lemma nested_slices_simps [simp]:
  "nesting (nested_slices n) = Suc n" "normal_form (nested_slices n) = nested_slices n"
  "nested_slices n \<noteq> GNil" "\<exists>t. marshal (nested_slices n) = Some t"
  by (induction n) auto

definition deep_payload :: goval where
  "deep_payload = nested_slices max_nesting_depth"

lemma deep_payload_rejected:
  "marshal deep_payload \<noteq> None" "canonicalJSON deep_payload = Inl (Errorf ''canonicalJSON: normalize'' [Native ''json''])"
proof -
  obtain t where t: "marshal deep_payload = Some t" using nested_slices_simps(4) [of max_nesting_depth]
    unfolding deep_payload_def by blast
  then show "marshal deep_payload \<noteq> None" by simp
  show "canonicalJSON deep_payload = Inl (Errorf ''canonicalJSON: normalize'' [Native ''json''])"
    by (rule canonicalJSON_too_deep [OF t]) (simp add: deep_payload_def)
qed

end
