(* ===== verification/Tampering.thy ===== *)
theory Tampering
  imports Memory DecoderLimit
begin

text \<open>
  A stored payload that changes under the log.  The in-memory backend keeps the \<^verbatim>\<open>Payload\<close> of an
  event as the interface value it was given (\<^verbatim>\<open>memory.go\<close>, \<^verbatim>\<open>Record\<close>), so a map the caller still
  holds, or one a reader got from \<^verbatim>\<open>Query\<close>, can be written to afterwards; the tests do the same on
  purpose with \<^verbatim>\<open>tamperMemoryEntry\<close> of \<^verbatim>\<open>memory_test.go\<close>.  \<open>overwrite_payload\<close> is that write.  The
  theorem says what the log makes of it: the read methods return the new payload, \<^verbatim>\<open>Verify\<close> reports
  the entry, and no other chain is touched.
\<close>

section \<open>The write\<close>

fun overwrite :: "string \<Rightarrow> EntryID \<Rightarrow> goval \<Rightarrow> AuditEvent list \<Rightarrow> AuditEvent list option" where
  "overwrite chainID entryID v [] = None"
| "overwrite chainID entryID v (e # es) =
     (if ChainID e = chainID \<and> ID e = entryID then Some (e\<lparr>Payload := v\<rparr> # es)
      else map_option (Cons e) (overwrite chainID entryID v es))"

definition overwrite_payload :: "string \<Rightarrow> EntryID \<Rightarrow> goval \<Rightarrow> memoryAuditLog \<Rightarrow> memoryAuditLog option" where
  "overwrite_payload chainID entryID v a =
     map_option (\<lambda>es. a\<lparr>entries := es\<rparr>) (overwrite chainID entryID v (entries a))"

definition tamperMemoryEntry :: "string \<Rightarrow> EntryID \<Rightarrow> memoryAuditLog \<Rightarrow> memoryAuditLog option" where
  "tamperMemoryEntry chainID entryID a = overwrite_payload chainID entryID (GMap [(''tampered'', GBool True)]) a"

section \<open>What it does to the chains\<close>

lemma overwrite_Some:
  assumes "overwrite c i v es = Some es'"
  obtains pre e post where "es = pre @ e # post" "es' = pre @ e\<lparr>Payload := v\<rparr> # post" "ChainID e = c" "ID e = i"
    "\<forall>x \<in> set pre. \<not> (ChainID x = c \<and> ID x = i)"
proof -
  have "\<exists>pre e post. es = pre @ e # post \<and> es' = pre @ e\<lparr>Payload := v\<rparr> # post \<and> ChainID e = c \<and> ID e = i \<and>
      (\<forall>x \<in> set pre. \<not> (ChainID x = c \<and> ID x = i))"
    using assms
  proof (induction es arbitrary: es')
    case (Cons x es)
    show ?case
    proof (cases "ChainID x = c \<and> ID x = i")
      case True
      with Cons.prems show ?thesis by (intro exI [of _ "[]"]) auto
    next
      case False
      with Cons.prems obtain es'' where es: "overwrite c i v es = Some es''" "es' = x # es''" by auto
      from Cons.IH [OF es(1)] obtain pre e post where "es = pre @ e # post" "es'' = pre @ e\<lparr>Payload := v\<rparr> # post"
        "ChainID e = c" "ID e = i" "\<forall>x \<in> set pre. \<not> (ChainID x = c \<and> ID x = i)" by blast
      with False es(2) show ?thesis by (intro exI [of _ "x # pre"] exI [of _ e] exI [of _ post]) simp
    qed
  qed simp
  with that show thesis by blast
qed

lemma find_first: "\<forall>x \<in> set pre. \<not> P x \<Longrightarrow> P y \<Longrightarrow> find P (pre @ y # post) = Some y"
  by (induction pre) auto

lemma verify_walk_append: "linked p es \<Longrightarrow> verify_walk p (es @ fs) = verify_walk (last_hash p es) fs"
  by (induction es arbitrary: p) auto

text \<open>The hash of an entry with another payload, which may have no canonical JSON.\<close>

lemma entry_hash_payload:
  "entry_hash (e\<lparr>Payload := w\<rparr>) = Inl err \<longleftrightarrow>
     (\<exists>err'. canonicalJSON w = Inl err' \<and> err = Errorf ''graudit: compute hash'' [err'])"
  by (auto simp: entry_hash_def ComputeHash_def split: sum.splits)

text \<open>The walk over an intact chain in which one payload is another.\<close>

lemma walk_overwritten:
  assumes "linked p (pre @ e # post)"
  shows "verify_walk p (pre @ e\<lparr>Payload := v\<rparr> # post) =
    (case entry_hash (e\<lparr>Payload := v\<rparr>) of
       Inl err \<Rightarrow> Inl (Errorf ''graudit: verify'' [err])
     | Inr h \<Rightarrow> if h = Hash e then Inr (True, verify_ok) else Inr (False, verify_broken (ID e) h (Hash e)))"
proof -
  have l: "linked p pre" "PrevHash e = last_hash p pre" "linked (Hash e) post"
    using assms(1) by (simp_all add: linked_append)
  have "verify_walk (Hash e) post = Inr (True, verify_ok)" using l(3) by (simp add: verify_walk_ok_iff)
  then show ?thesis using l(2) by (simp add: verify_walk_append [OF l(1)] split: sum.split)
qed

section \<open>What the log makes of it\<close>

text \<open>A payload with other canonical text changes the hash, or the two entries collide.\<close>

lemma overwritten_hash:
  assumes "entry_hash e = Inr (Hash e)" "entry_hash (e\<lparr>Payload := w\<rparr>) = Inr h"
  shows "canonicalJSON w = canonicalJSON (Payload e) \<Longrightarrow> h = Hash e"
    "canonicalJSON w \<noteq> canonicalJSON (Payload e) \<Longrightarrow> h = Hash e \<Longrightarrow> colliding (e\<lparr>Payload := w\<rparr>) e"
proof -
  assume "canonicalJSON w = canonicalJSON (Payload e)"
  then have "hash_content (e\<lparr>Payload := w\<rparr>) = hash_content e" by (simp add: hash_content_def)
  from entry_hash_content [OF this] assms show "h = Hash e" by simp
next
  assume ne: "canonicalJSON w \<noteq> canonicalJSON (Payload e)" and h: "h = Hash e"
  from same_hash_cases [OF assms(2) [unfolded h] assms(1)] show "colliding (e\<lparr>Payload := w\<rparr>) e"
  proof
    assume pre: "entry_preimage (e\<lparr>Payload := w\<rparr>) = entry_preimage e"
    obtain x where x: "entry_preimage e = Inr x" using assms(1) by (auto simp: entry_hash_Inr_iff)
    from edit_preimage [OF x, of "EditPayload w"] pre x ne show ?thesis by (simp add: hash_content_def)
  qed
qed

text \<open>
  C22. A caller that changes a payload the in-memory log was given changes the stored entry: the
  position now reads back with the new payload, whatever it is.  If the new payload has no canonical
  JSON, \<^verbatim>\<open>Verify\<close> of the whole chain returns the error of the hash; otherwise it reports the chain
  broken there, with the recomputed and the stored hash, unless the canonical JSON is the same (then
  nothing is noticed, rightly) or the two versions of the entry are a SHA-256 collision.  Every
  other chain is as before.
\<close>

theorem memory_overwritten_payload:
  assumes "memory_reachable a" "\<not> closed a" "c \<noteq> []" "length (memory_chain a c) < 2 ^ 64"
    and "overwrite_payload c i w a = Some a'"
  shows "\<exists>e. e \<in> set (memory_chain a c) \<and> ID e = i \<and>
    memory_GetEntry c i a' = Inr (e\<lparr>Payload := w\<rparr>) \<and>
    (case canonicalJSON w of
       Inl err \<Rightarrow> memory_Verify c 1 0 a' = Inl (Errorf ''graudit: verify'' [Errorf ''graudit: compute hash'' [err]])
     | Inr t \<Rightarrow> \<exists>h. entry_hash (e\<lparr>Payload := w\<rparr>) = Inr h \<and>
         (if canonicalJSON (Payload e) = Inr t then memory_Verify c 1 0 a' = Inr (True, verify_ok)
          else memory_Verify c 1 0 a' = Inr (False, verify_broken i h (Hash e)) \<or> colliding (e\<lparr>Payload := w\<rparr>) e)) \<and>
    (\<forall>d. d \<noteq> c \<longrightarrow> memory_chain a' d = memory_chain a d)"
proof -
  note inv = memory_reachable_inv [OF assms(1)]
  obtain es' where es': "overwrite c i w (entries a) = Some es'" "a' = a\<lparr>entries := es'\<rparr>"
    using assms(5) by (auto simp: overwrite_payload_def)
  obtain pre e post where es: "entries a = pre @ e # post" "es' = pre @ e\<lparr>Payload := w\<rparr> # post"
    and e: "ChainID e = c" "ID e = i" and first: "\<forall>x \<in> set pre. \<not> (ChainID x = c \<and> ID x = i)"
    by (rule overwrite_Some [OF es'(1)])
  let ?e = "e\<lparr>Payload := w\<rparr>" and ?in = "filter (\<lambda>e. ChainID e = c)"
  have chain: "memory_chain a c = ?in pre @ e # ?in post" "memory_chain a' c = ?in pre @ ?e # ?in post"
    by (simp_all add: memory_chain_def es es'(2) e)
  have ok: "chain_ok c (?in pre @ e # ?in post)" using inv unfolding memory_inv_def chain(1) [symmetric] by blast
  then have link: "linked GenesisPrevHash (?in pre @ e # ?in post)" unfolding chain_ok_def by blast
  have stored: "entry_hash e = Inr (Hash e)" using link unfolding linked_append linked.simps by blast
  let ?n = "of_nat (length (memory_chain a c)) :: EntryID"
  have "in_range 1 ?n (?in pre @ e # ?in post) = ?in pre @ e # ?in post"
    using in_range_all [OF ok] assms(4) by (simp add: chain(1))
  then have "\<forall>x \<in> set (?in pre @ e # ?in post). 1 \<le> ID x \<and> ID x \<le> ?n"
    unfolding in_range_def filter_id_conv .
  then have range: "in_range 1 ?n (memory_chain a' c) = ?in pre @ ?e # ?in post"
    unfolding chain(2) in_range_def filter_id_conv by simp
  have open': "closed a' = closed a" "latestEntryIDLocked a' c = Some ?n"
    using latest_chain [OF inv, of c] by (simp_all add: es'(2) latestEntryIDLocked_def chain(1))
  have "memory_Verify c 1 0 a' = verify_walk GenesisPrevHash (?in pre @ ?e # ?in post)"
    unfolding memory_Verify_def Let_def from_max filter_range verifyMemoryChain_walk
    using assms(2,3) range by (simp add: open')
  then have verify: "memory_Verify c 1 0 a' = (case entry_hash ?e of
      Inl err \<Rightarrow> Inl (Errorf ''graudit: verify'' [err])
    | Inr h \<Rightarrow> if h = Hash e then Inr (True, verify_ok) else Inr (False, verify_broken i h (Hash e)))"
    using walk_overwritten [OF link, of w] by (simp only: e)
  have "case canonicalJSON w of
       Inl err \<Rightarrow> memory_Verify c 1 0 a' = Inl (Errorf ''graudit: verify'' [Errorf ''graudit: compute hash'' [err]])
     | Inr t \<Rightarrow> \<exists>h. entry_hash ?e = Inr h \<and>
         (if canonicalJSON (Payload e) = Inr t then memory_Verify c 1 0 a' = Inr (True, verify_ok)
          else memory_Verify c 1 0 a' = Inr (False, verify_broken i h (Hash e)) \<or> colliding ?e e)"
  proof (cases "entry_hash ?e")
    case (Inl err)
    with verify entry_hash_payload [of w e err] show ?thesis by auto
  next
    case (Inr h)
    then obtain t where t: "canonicalJSON w = Inr t" using entry_hash_ok_iff [of ?e] by auto
    show ?thesis using overwritten_hash [OF stored Inr] verify Inr by (cases "h = Hash e") (auto simp: t)
  qed
  moreover have "memory_GetEntry c i a' = Inr ?e"
    using assms(2,3) find_first [OF first, of ?e post] by (simp add: memory_GetEntry_def open' es'(2) es(2) e)
  moreover have "memory_chain a' d = memory_chain a d" if "d \<noteq> c" for d
    using that e(1) by (simp add: memory_chain_def es es'(2))
  moreover have "e \<in> set (memory_chain a c)" by (simp add: chain(1))
  ultimately show ?thesis using e(2) by blast
qed

section \<open>Witness\<close>

lemma overwrite_None_iff: "overwrite c i v es = None \<longleftrightarrow> (\<forall>e \<in> set es. \<not> (ChainID e = c \<and> ID e = i))"
  by (induction es) auto

definition tampered :: goval where
  "tampered = GMap [(''tampered'', GBool True)]"

lemma tampered_canonical: "canonicalJSON tampered \<noteq> canonicalJSON GNil" "\<exists>t. canonicalJSON tampered = Inr t"
proof -
  have m: "\<exists>t. marshal tampered = Some t" "nesting tampered \<le> max_nesting_depth" "marshal GNil \<noteq> None" "nesting GNil \<le> max_nesting_depth"
    by (simp_all add: tampered_def tag_def max_nesting_depth_def)
  show "\<exists>t. canonicalJSON tampered = Inr t" using m(1,2) canonicalJSON_char by blast
  have "canonicalJSON GNil = Inr ''null''" by (simp add: canonicalJSON_def)
  moreover have "canonicalJSON tampered \<noteq> Inr ''null''"
  proof
    assume "canonicalJSON tampered = Inr ''null''"
    then have "marshal (normal_form tampered) = Some ''null''"
      using m(1,2) canonicalJSON_char [of tampered] normal_marshal [OF marshal_normal [of tampered]] by auto
    then show False by (simp add: tampered_def build_map_def tag_def object_text_def)
  qed
  ultimately show "canonicalJSON tampered \<noteq> canonicalJSON GNil" by simp
qed

lemma sample_log_payloads: "e \<in> set (entries sample_log) \<Longrightarrow> Payload e = GNil"
  by (auto simp: sample_log_def memory_Record_def NewMemoryAuditLog_def Let_def event_simps
      split: sum.splits prod.splits)

lemma sample_overwritten: "\<exists>a'. overwrite_payload ''tenant-1'' 1 v sample_log = Some a'"
proof -
  let ?c = "''tenant-1''"
  have "chain_ok ?c (memory_chain sample_log ?c)"
    using memory_reachable_inv [OF sample_log_simps(1)] by (simp add: memory_inv_def)
  from chain_ID [OF this, of 0] have first: "ID (memory_chain sample_log ?c ! 0) = 1" using sample_log_simps(3) by simp
  have "memory_chain sample_log ?c ! 0 \<in> set (memory_chain sample_log ?c)" using sample_log_simps(3) by (intro nth_mem) simp
  then have "overwrite ?c 1 v (entries sample_log) \<noteq> None"
    using first unfolding overwrite_None_iff memory_chain_def by auto
  then show ?thesis by (auto simp: overwrite_payload_def)
qed

text \<open>A payload that can be hashed, as in the tests, and one that cannot.\<close>

theorem memory_overwritten_payload_witness:
  "(\<exists>a' e h. tamperMemoryEntry ''tenant-1'' 1 sample_log = Some a' \<and>
     memory_GetEntry ''tenant-1'' 1 a' = Inr (e\<lparr>Payload := tampered\<rparr>) \<and>
     (memory_Verify ''tenant-1'' 1 0 a' = Inr (False, verify_broken 1 h (Hash e)) \<or> colliding (e\<lparr>Payload := tampered\<rparr>) e)) \<and>
   (\<exists>a' err. overwrite_payload ''tenant-1'' 1 deep_payload sample_log = Some a' \<and>
     memory_Verify ''tenant-1'' 1 0 a' = Inl err)"
proof (rule conjI)
  let ?c = "''tenant-1''"
  have room: "length (memory_chain sample_log ?c) < 2 ^ 64" using sample_log_simps(3) by simp
  obtain t where t: "canonicalJSON tampered = Inr t" using tampered_canonical(2) by blast
  obtain a' where a': "overwrite_payload ?c 1 tampered sample_log = Some a'" using sample_overwritten by blast
  from memory_overwritten_payload [OF sample_log_simps(1,2) _ room a'] t obtain e where
    e: "e \<in> set (memory_chain sample_log ?c)" "memory_GetEntry ?c 1 a' = Inr (e\<lparr>Payload := tampered\<rparr>)"
      "\<exists>h. if canonicalJSON (Payload e) = Inr t then memory_Verify ?c 1 0 a' = Inr (True, verify_ok)
       else memory_Verify ?c 1 0 a' = Inr (False, verify_broken 1 h (Hash e)) \<or> colliding (e\<lparr>Payload := tampered\<rparr>) e"
    by auto
  have "Payload e = GNil" using e(1) sample_log_payloads by (simp add: memory_chain_def)
  then have "canonicalJSON (Payload e) \<noteq> Inr t" using tampered_canonical(1) t by simp
  with e(2,3) a' show "\<exists>a' e h. tamperMemoryEntry ?c 1 sample_log = Some a' \<and>
     memory_GetEntry ?c 1 a' = Inr (e\<lparr>Payload := tampered\<rparr>) \<and>
     (memory_Verify ?c 1 0 a' = Inr (False, verify_broken 1 h (Hash e)) \<or> colliding (e\<lparr>Payload := tampered\<rparr>) e)"
    by (auto simp: tamperMemoryEntry_def tampered_def)
  obtain b where b: "overwrite_payload ?c 1 deep_payload sample_log = Some b" using sample_overwritten by blast
  from memory_overwritten_payload [OF sample_log_simps(1,2) _ room b]
  show "\<exists>a' err. overwrite_payload ?c 1 deep_payload sample_log = Some a' \<and> memory_Verify ?c 1 0 a' = Inl err"
    using b deep_payload_rejected(2) by auto
qed

end
