(* ===== verification/SharedPayloads.thy ===== *)
theory SharedPayloads
  imports Tampering
begin

text \<open>
  Payloads that are shared.  \<^verbatim>\<open>Record\<close> of \<^verbatim>\<open>memory.go\<close> stores the interface value it is given and \<^verbatim>\<open>Query\<close>
  and \<^verbatim>\<open>GetEntry\<close> hand it out again, so entries, callers and readers may all hold the same map.  Here a
  stored payload is a reference: what reading it gives in a heap, an arbitrary function, so that
  references may share cells in any way.  \<open>actual\<close> is the log as the code has it at a moment, with every
  reference read in the present heap; \<open>Record_actual\<close> shows that the code's \<open>memory_Record\<close> on it is
  \<open>shared_Record\<close>.  The theorem says what \<^verbatim>\<open>Verify\<close> makes of any history of calls and writes.
\<close>

section \<open>References and the log that holds them\<close>

type_synonym 'h reference = "'h \<Rightarrow> goval"

text \<open>
  \<open>recorded_log\<close> keeps the payloads as they were when they were hashed; the code does not have them any
  more, they are what the present ones are compared with.
\<close>

record 'h shared_log =
  recorded_log :: memoryAuditLog
  references :: "'h reference list"
  heap :: 'h

definition read_entries :: "'h \<Rightarrow> AuditEvent list \<Rightarrow> 'h reference list \<Rightarrow> AuditEvent list" where
  "read_entries h es rs = map2 (\<lambda>e ref. e\<lparr>Payload := ref h\<rparr>) es rs"

definition actual :: "'h shared_log \<Rightarrow> memoryAuditLog" where
  "actual s = (recorded_log s)\<lparr>entries := read_entries (heap s) (entries (recorded_log s)) (references s)\<rparr>"

definition shared_Record ::
  "gotime \<Rightarrow> AuditEvent \<Rightarrow> 'h reference \<Rightarrow> 'h shared_log \<Rightarrow> 'h shared_log \<times> EntryID result \<times> effect list" where
  "shared_Record now event ref s =
     (case memory_Record now (event\<lparr>Payload := ref (heap s)\<rparr>) (recorded_log s) of
        (a, r, fx) \<Rightarrow>
          (s\<lparr>recorded_log := a, references := (if isl r then references s else references s @ [ref])\<rparr>, r, fx))"

inductive shared_reachable :: "'h shared_log \<Rightarrow> bool" where
  created: "list_all memory_option opts \<Longrightarrow>
    shared_reachable \<lparr>recorded_log = NewMemoryAuditLog opts, references = [], heap = h\<rparr>"
| recorded: "shared_reachable s \<Longrightarrow> shared_reachable (fst (shared_Record now event ref s))"
| heap_written: "shared_reachable s \<Longrightarrow> shared_reachable (s\<lparr>heap := h\<rparr>)"
| log_closed: "shared_reachable s \<Longrightarrow> shared_reachable (s\<lparr>recorded_log := memory_Close (recorded_log s)\<rparr>)"

section \<open>The code runs on the actual log\<close>

lemma memory_Record_entries:
  assumes "memory_Record now event a = (a', r, fx)"
  shows "length (entries a') = length (entries a) + (if isl r then 0 else 1)"
  using assms by (auto simp: memory_Record_def Let_def split: if_splits sum.splits prod.splits)

lemma shared_inv:
  assumes "shared_reachable s"
  shows "memory_reachable (recorded_log s)" "length (references s) = length (entries (recorded_log s))"
proof -
  have "memory_reachable (recorded_log s) \<and> length (references s) = length (entries (recorded_log s))"
    using assms
  proof (induction rule: shared_reachable.induct)
    case (created opts h)
    have opt: "entries (f a) = entries a" if "memory_option f" for f a
      using that by cases (simp_all add: WithLogger_def WithEventBus_def)
    have "list_all memory_option opts \<Longrightarrow> entries (fold (\<lambda>f a. f a) opts a) = entries a" for a
      by (induction opts arbitrary: a) (auto simp: opt)
    from this [OF created] have "entries (NewMemoryAuditLog opts) = []" by (simp add: NewMemoryAuditLog_def)
    with created show ?case by (simp add: reach_new)
  next
    case (recorded s now event ref)
    obtain a r fx where m: "memory_Record now (event\<lparr>Payload := ref (heap s)\<rparr>) (recorded_log s) = (a, r, fx)"
      by (metis prod_cases3)
    have "memory_reachable a" using reach_record [of "recorded_log s" now "event\<lparr>Payload := ref (heap s)\<rparr>"] recorded.IH m by simp
    with memory_Record_entries [OF m] recorded.IH show ?case by (simp add: shared_Record_def m)
  next
    case (log_closed s)
    then show ?case by (simp add: reach_close)
  qed simp_all
  then show "memory_reachable (recorded_log s)" "length (references s) = length (entries (recorded_log s))" by auto
qed

lemma Record_actual:
  assumes "shared_reachable s" "shared_Record now event ref s = (s', r, fx)"
  shows "memory_Record now (event\<lparr>Payload := ref (heap s)\<rparr>) (actual s) = (actual s', r, fx)"
  using assms(2) shared_inv(2) [OF assms(1)]
  by (auto simp: shared_Record_def memory_Record_def actual_def read_entries_def Let_def
      split: if_splits sum.splits prod.splits)

section \<open>The chains of the actual log\<close>

definition reread :: "AuditEvent \<Rightarrow> AuditEvent \<Rightarrow> bool" where
  "reread e e' \<longleftrightarrow> e' = e\<lparr>Payload := Payload e'\<rparr>"

lemma reread_fields:
  assumes "reread e e'"
  shows "ChainID e' = ChainID e" "ID e' = ID e" "PrevHash e' = PrevHash e" "Hash e' = Hash e"
  using assms unfolding reread_def by (metis AuditEvent.simps AuditEvent.update_convs AuditEvent.select_convs AuditEvent.surjective)+

lemma reread_filter:
  assumes "list_all2 reread es es'" "\<And>e e'. reread e e' \<Longrightarrow> P e' = P e"
  shows "list_all2 reread (filter P es) (filter P es')"
  using assms by (induction rule: list_all2_induct) auto

lemma actual_chain:
  assumes "shared_reachable s"
  shows "list_all2 reread (memory_chain (recorded_log s) c) (memory_chain (actual s) c)"
proof -
  have "list_all2 reread es (read_entries h es rs)" if "length rs = length es" for es h and rs :: "'b reference list"
    using that by (auto simp: list_all2_conv_all_nth read_entries_def reread_def)
  from this [OF shared_inv(2) [OF assms]] show ?thesis
    unfolding memory_chain_def by (auto simp: actual_def intro!: reread_filter dest: reread_fields)
qed

section \<open>The verification of the actual log\<close>

text \<open>The first entry of a chain whose payload reads back as other JSON than it was hashed with.\<close>

definition first_changed :: "AuditEvent list \<Rightarrow> AuditEvent list \<Rightarrow> (AuditEvent \<times> AuditEvent) option" where
  "first_changed es es' = find (\<lambda>(e, e'). canonicalJSON (Payload e') \<noteq> canonicalJSON (Payload e)) (zip es es')"

lemma reread_hash:
  assumes "reread e e'" "entry_hash e = Inr (Hash e)" "entry_hash e' = Inr h"
  shows "canonicalJSON (Payload e') = canonicalJSON (Payload e) \<Longrightarrow> h = Hash e"
    "canonicalJSON (Payload e') \<noteq> canonicalJSON (Payload e) \<Longrightarrow> h = Hash e \<Longrightarrow> colliding e' e"
  using overwritten_hash [OF assms(2), of "Payload e'" h] assms(1,3) unfolding reread_def by metis+

lemma walk_reread:
  assumes "list_all2 reread es es'" "linked p es"
  shows "case first_changed es es' of
      None \<Rightarrow> verify_walk p es' = Inr (True, verify_ok)
    | Some (e, e') \<Rightarrow>
        (case canonicalJSON (Payload e') of
           Inl err \<Rightarrow> verify_walk p es' = Inl (Errorf ''graudit: verify'' [Errorf ''graudit: compute hash'' [err]])
         | Inr t \<Rightarrow> colliding e' e \<or>
             (\<exists>h. entry_hash e' = Inr h \<and> verify_walk p es' = Inr (False, verify_broken (ID e) h (Hash e))))"
  using assms
proof (induction arbitrary: p rule: list_all2_induct)
  case Nil
  then show ?case by (simp add: first_changed_def)
next
  case (Cons e es e' es')
  note f = reread_fields [OF Cons.hyps(1)]
  have l: "PrevHash e = p" "entry_hash e = Inr (Hash e)" "linked (Hash e) es" using Cons.prems(1) by simp_all
  show ?case
  proof (cases "canonicalJSON (Payload e') = canonicalJSON (Payload e)")
    case True
    then obtain h where h: "entry_hash e' = Inr h" using l(2) entry_hash_ok_iff by metis
    from True have "first_changed (e # es) (e' # es') = first_changed es es'" by (simp add: first_changed_def)
    moreover have "verify_walk p (e' # es') = verify_walk (Hash e) es'"
      using reread_hash(1) [OF Cons.hyps(1) l(2) h True] h l(1) by (simp add: f)
    ultimately show ?thesis using Cons.IH [OF l(3)] by (simp only:)
  next
    case False
    then have fst: "first_changed (e # es) (e' # es') = Some (e, e')" by (simp add: first_changed_def)
    show ?thesis
    proof (cases "entry_hash e'")
      case (Inl err)
      moreover from this obtain err' where "canonicalJSON (Payload e') = Inl err'" "err = Errorf ''graudit: compute hash'' [err']"
        by (auto simp: entry_hash_def ComputeHash_def split: sum.splits)
      ultimately show ?thesis using l(1) f(3) by (simp add: fst)
    next
      case (Inr h)
      then have walk: "verify_walk p (e' # es') =
          (if h = Hash e then verify_walk (Hash e) es' else Inr (False, verify_broken (ID e) h (Hash e)))"
        using l(1) by (simp add: f)
      obtain t where t: "canonicalJSON (Payload e') = Inr t" using Inr entry_hash_ok_iff by blast
      from reread_hash(2) [OF Cons.hyps(1) l(2) Inr False] show ?thesis
        unfolding fst option.case prod.case t sum.case walk using Inr by auto
    qed
  qed
qed

lemma actual_Verify:
  assumes "shared_reachable s" "\<not> closed (recorded_log s)" "c \<noteq> []" "length (memory_chain (recorded_log s) c) < 2 ^ 64"
  shows "memory_Verify c 1 0 (actual s) = (if memory_chain (recorded_log s) c = [] then Inr (True, verify_empty)
    else verify_walk GenesisPrevHash (memory_chain (actual s) c))"
proof -
  let ?es = "memory_chain (recorded_log s) c" and ?es' = "memory_chain (actual s) c"
  let ?n = "of_nat (length ?es) :: EntryID"
  note inv = memory_reachable_inv [OF shared_inv(1) [OF assms(1)]]
  note chain = actual_chain [OF assms(1), of c]
  have "chain_ok c ?es" using inv by (simp add: memory_inv_def)
  then have "in_range 1 ?n ?es = ?es" using in_range_all assms(4) by blast
  then have "\<forall>x \<in> set ?es. 1 \<le> ID x \<and> ID x \<le> ?n" unfolding in_range_def filter_id_conv .
  moreover have "\<exists>e \<in> set ?es. ID x = ID e" if "x \<in> set ?es'" for x
    using chain that reread_fields(2) by (fastforce simp: list_all2_conv_all_nth in_set_conv_nth)
  ultimately have "\<forall>x \<in> set ?es'. 1 \<le> ID x \<and> ID x \<le> ?n" by metis
  then have range: "in_range 1 ?n ?es' = ?es'" unfolding in_range_def filter_id_conv .
  have "closed (actual s) = closed (recorded_log s)"
    "latestEntryIDLocked (actual s) c = latestEntryIDLocked (recorded_log s) c"
    by (simp_all add: actual_def latestEntryIDLocked_def)
  then show ?thesis
    unfolding memory_Verify_def Let_def from_max filter_range verifyMemoryChain_walk
    using assms(2,3) range latest_chain [OF inv, of c] by simp
qed

text \<open>
  C17. Shared payloads: whatever calls were made and whatever was written, in between and afterwards, to maps that
  entries, callers and readers share, \<^verbatim>\<open>Verify\<close> of a whole chain accepts it when every payload
  still reads as the JSON it was hashed with.  Otherwise the first entry that does not decides: if its
  payload has no canonical JSON any more, \<^verbatim>\<open>Verify\<close> returns the error of the hash; if it has, \<^verbatim>\<open>Verify\<close>
  reports that entry, with its recomputed and its stored hash, or two given versions of that entry
  are a SHA-256 collision.
\<close>

theorem shared_payloads_verified:
  assumes "shared_reachable s" "\<not> closed (recorded_log s)" "c \<noteq> []" "length (memory_chain (recorded_log s) c) < 2 ^ 64"
  shows "case first_changed (memory_chain (recorded_log s) c) (memory_chain (actual s) c) of
      None \<Rightarrow> memory_Verify c 1 0 (actual s)
        = Inr (True, if memory_chain (recorded_log s) c = [] then verify_empty else verify_ok)
    | Some (e, e') \<Rightarrow>
        (case canonicalJSON (Payload e') of
           Inl err \<Rightarrow> memory_Verify c 1 0 (actual s)
             = Inl (Errorf ''graudit: verify'' [Errorf ''graudit: compute hash'' [err]])
         | Inr t \<Rightarrow> colliding e' e \<or>
             (\<exists>h. entry_hash e' = Inr h \<and> memory_Verify c 1 0 (actual s) = Inr (False, verify_broken (ID e) h (Hash e))))"
proof -
  let ?es = "memory_chain (recorded_log s) c"
  have "linked GenesisPrevHash ?es"
    using memory_reachable_inv [OF shared_inv(1) [OF assms(1)]] by (simp add: memory_inv_def chain_ok_def)
  from walk_reread [OF actual_chain [OF assms(1)] this] actual_Verify [OF assms(1-4)]
  show ?thesis by (cases "?es = []") (auto simp: first_changed_def split: option.splits prod.splits sum.splits)
qed

section \<open>Witness\<close>

text \<open>Two entries with one payload between them: the caller records the same cell twice, then writes to it.\<close>

definition sample_shared :: "goval \<Rightarrow> goval shared_log" where
  "sample_shared v = (fst (shared_Record sample_time sample_event id (fst (shared_Record sample_time sample_event id
     \<lparr>recorded_log = NewMemoryAuditLog [], references = [], heap = GNil\<rparr>))))\<lparr>heap := v\<rparr>"

lemma sample_shared_simps:
  "shared_reachable (sample_shared v)" "recorded_log (sample_shared v) = sample_log" "heap (sample_shared v) = v"
  "references (sample_shared v) = [id, id]"
proof -
  have start: "shared_reachable \<lparr>recorded_log = NewMemoryAuditLog [], references = [], heap = GNil\<rparr>"
    by (rule created) simp
  show "shared_reachable (sample_shared v)"
    unfolding sample_shared_def by (rule heap_written [OF recorded [OF recorded [OF start]]])
  have ev: "sample_event\<lparr>Payload := GNil\<rparr> = sample_event" by (simp add: event_simps)
  have ok: "\<exists>i. fst (snd (memory_Record sample_time sample_event (NewMemoryAuditLog []))) = Inr i"
    "\<exists>i. fst (snd (memory_Record sample_time sample_event
        (fst (memory_Record sample_time sample_event (NewMemoryAuditLog []))))) = Inr i"
    by (rule memory_Record_sample(4); simp add: memory_Record_sample(1,2))+
  show "recorded_log (sample_shared v) = sample_log" "heap (sample_shared v) = v" "references (sample_shared v) = [id, id]"
    using ok by (auto simp: sample_shared_def shared_Record_def ev sample_log_def case_prod_beta)
qed

lemma sample_shared_first:
  assumes "canonicalJSON v \<noteq> canonicalJSON GNil"
  obtains e e' where "first_changed (memory_chain (recorded_log (sample_shared v)) ''tenant-1'')
      (memory_chain (actual (sample_shared v)) ''tenant-1'') = Some (e, e')"
    "e \<in> set (memory_chain sample_log ''tenant-1'')" "Payload e' = v"
proof -
  let ?c = "''tenant-1''" and ?s = "sample_shared v"
  obtain e1 es where es: "memory_chain (recorded_log ?s) ?c = e1 # es"
    using sample_log_simps(3) by (cases "memory_chain sample_log ?c") (simp_all add: sample_shared_simps)
  obtain e1' es' where es': "memory_chain (actual ?s) ?c = e1' # es'" "reread e1 e1'"
    using actual_chain [OF sample_shared_simps(1) [of v], of ?c] by (auto simp: es list_all2_Cons1)
  have all: "\<forall>x \<in> set (memory_chain (actual ?s) ?c). Payload x = v"
  proof
    fix x assume "x \<in> set (memory_chain (actual ?s) ?c)"
    then obtain e ref where "(e, ref) \<in> set (zip (entries (recorded_log ?s)) (references ?s))" "x = e\<lparr>Payload := ref (heap ?s)\<rparr>"
      by (auto simp: memory_chain_def actual_def read_entries_def)
    with set_zip_rightD [OF this(1)] show "Payload x = v" by (auto simp: sample_shared_simps)
  qed
  have "Payload e1 = GNil" using es by (intro sample_log_payloads) (auto simp: memory_chain_def sample_shared_simps filter_eq_Cons_iff)
  then show thesis
    using that [of e1 e1'] all assms es es' by (simp add: first_changed_def sample_shared_simps)
qed

theorem shared_payloads_verified_witness:
  "(\<exists>e e'. e \<in> set (memory_chain sample_log ''tenant-1'') \<and> Payload e' = tampered \<and>
     (colliding e' e \<or> (\<exists>h. entry_hash e' = Inr h \<and>
        memory_Verify ''tenant-1'' 1 0 (actual (sample_shared tampered)) = Inr (False, verify_broken (ID e) h (Hash e))))) \<and>
   (\<exists>err. memory_Verify ''tenant-1'' 1 0 (actual (sample_shared deep_payload)) = Inl err)"
proof (rule conjI)
  let ?c = "''tenant-1''"
  have room: "\<not> closed (recorded_log (sample_shared v))" "length (memory_chain (recorded_log (sample_shared v)) ?c) < 2 ^ 64" for v
    using sample_log_simps(2,3) by (simp_all add: sample_shared_simps)
  obtain t where t: "canonicalJSON tampered = Inr t" using tampered_canonical(2) by blast
  obtain e e' where e: "first_changed (memory_chain (recorded_log (sample_shared tampered)) ?c)
      (memory_chain (actual (sample_shared tampered)) ?c) = Some (e, e')"
    "e \<in> set (memory_chain sample_log ?c)" "Payload e' = tampered" by (rule sample_shared_first [OF tampered_canonical(1)])
  from shared_payloads_verified [OF sample_shared_simps(1) [of tampered] room(1) [of tampered] _ room(2) [of tampered]] e t show "\<exists>e e'. e \<in> set (memory_chain sample_log ?c) \<and> Payload e' = tampered \<and>
     (colliding e' e \<or> (\<exists>h. entry_hash e' = Inr h \<and>
        memory_Verify ?c 1 0 (actual (sample_shared tampered)) = Inr (False, verify_broken (ID e) h (Hash e))))"
    by auto
  have "canonicalJSON deep_payload \<noteq> canonicalJSON GNil"
    using deep_payload_rejected(2) by (simp add: canonicalJSON_def)
  then obtain d d' where d: "first_changed (memory_chain (recorded_log (sample_shared deep_payload)) ?c)
      (memory_chain (actual (sample_shared deep_payload)) ?c) = Some (d, d')" "Payload d' = deep_payload"
    by (rule sample_shared_first)
  from shared_payloads_verified [OF sample_shared_simps(1) [of deep_payload] room(1) [of deep_payload] _ room(2) [of deep_payload]] d deep_payload_rejected(2)
  show "\<exists>err. memory_Verify ?c 1 0 (actual (sample_shared deep_payload)) = Inl err" by auto
qed

end
