(* ===== verification/Database.thy ===== *)
theory Database
  imports Backend Events Diff
begin

text \<open>
  What the two database backends share.  The drivers are outside the repository; the code
  relies on three things they document, stated here as predicates that the theorems take as
  hypotheses:
    \<^item> \<open>transactional\<close>: a function that runs a callback in a transaction either reports success
      and leaves what the callback did, or reports an error.  In the error case the
      transaction had no effect, unless its commit was left in doubt: then it may have
      taken place.  \<open>retrying\<close> is the same for a driver that may run the callback again.
    \<^item> \<open>certain\<close>: no commit is left in doubt.
    \<^item> \<open>keeps_ms\<close>: a timestamp is stored at least to the millisecond.
  Any other call of a driver may fail; which ones do is part of the environment of an operation.
\<close>

definition driver_error :: goerror where
  "driver_error = Native ''driver''"

definition call :: "bool \<Rightarrow> 'a \<Rightarrow> 'a result" where
  "call fails x = (if fails then Inl driver_error else Inr x)"

lemma call_simps [simp]: "call False x = Inr x" "call True x = Inl driver_error"
  by (simp_all add: call_def)

definition tx_outcome :: "('srv \<times> 'a \<Rightarrow> bool) \<Rightarrow> 'srv \<Rightarrow> 'srv \<times> 'a result \<Rightarrow> bool" where
  "tx_outcome did srv res \<longleftrightarrow>
     (case res of
        (srv', Inr x) \<Rightarrow> did (srv', x)
      | (srv', Inl err) \<Rightarrow> srv' = srv \<or> (\<exists>x. did (srv', x)))"

definition transactional :: "(('srv \<Rightarrow> ('srv \<times> 'a) result) \<Rightarrow> 'srv \<Rightarrow> 'srv \<times> 'a result) \<Rightarrow> bool" where
  "transactional tx \<longleftrightarrow> (\<forall>fn srv. tx_outcome (\<lambda>p. fn srv = Inr p) srv (tx fn srv))"

definition retrying :: "((nat \<Rightarrow> 'srv \<Rightarrow> ('srv \<times> 'a) result) \<Rightarrow> 'srv \<Rightarrow> 'srv \<times> 'a result) \<Rightarrow> bool" where
  "retrying tx \<longleftrightarrow> (\<forall>fn srv. tx_outcome (\<lambda>p. \<exists>attempt. fn attempt srv = Inr p) srv (tx fn srv))"

definition certain :: "('f \<Rightarrow> 'srv \<Rightarrow> 'srv \<times> 'a result) \<Rightarrow> bool" where
  "certain tx \<longleftrightarrow> (\<forall>fn srv srv' err. tx fn srv = (srv', Inl err) \<longrightarrow> srv' = srv)"

lemma certainD: "certain tx \<Longrightarrow> tx fn srv = (srv', Inl err) \<Longrightarrow> srv' = srv"
  by (auto simp: certain_def)

text \<open>The three ways a transaction can end.\<close>

lemma tx_outcome_cases:
  assumes "tx_outcome did srv (srv', r)"
  obtains (finished) x where "r = Inr x" "did (srv', x)"
  | (undone) err where "r = Inl err" "srv' = srv"
  | (doubtful) err x where "r = Inl err" "did (srv', x)"
  using assms by (cases r) (auto simp: tx_outcome_def)

definition keeps_ms :: "(gotime \<Rightarrow> gotime) \<Rightarrow> bool" where
  "keeps_ms tz \<longleftrightarrow> (\<forall>t. ns (tz t) div Millisecond = ns t div Millisecond)"

lemma Payload_stamp [simp]: "Payload (stamp now event) = Payload event"
  by (simp add: stamp_def)

lemma json_decode_Nil [simp]: "json_decode [] = None"
  by (simp add: json_decode_def parse_value.simps skip_ws_def)

lemma marshalPayload_Validate:
  assumes "Validate event = Inr ()"
  obtains raw where "marshalPayload (Payload event) = Inr raw"
  using assms that by (cases "marshalPayload (Payload event)")
    (auto simp: Validate_ok_iff recordable_def dest: marshalPayload_error)

text \<open>Drivers for the examples: every transaction commits, or none does.\<close>

definition commit_always :: "('srv \<Rightarrow> ('srv \<times> 'a) result) \<Rightarrow> 'srv \<Rightarrow> 'srv \<times> 'a result" where
  "commit_always fn srv = (case fn srv of Inl err \<Rightarrow> (srv, Inl err) | Inr (srv', x) \<Rightarrow> (srv', Inr x))"

definition commit_never :: "'f \<Rightarrow> 'srv \<Rightarrow> 'srv \<times> 'a result" where
  "commit_never fn srv = (srv, Inl driver_error)"

lemma example_drivers:
  "transactional commit_always" "certain commit_always" "transactional commit_never" "certain commit_never"
  "retrying (\<lambda>fn. commit_always (fn 0))" "certain (\<lambda>fn. commit_always (fn 0))"
  by (auto simp: transactional_def retrying_def certain_def tx_outcome_def commit_always_def commit_never_def
      split: sum.splits prod.splits)

lemma keeps_ms_Truncate: "keeps_ms (Truncate 1000)" "keeps_ms (Truncate Millisecond)"
proof -
  have "(n - n mod 1000) div 1000000 = n div 1000000" for n :: int
    using zdiv_zmult2_eq [of 1000 "n - n mod 1000" 1000] zdiv_zmult2_eq [of 1000 n 1000]
    by (simp add: minus_mod_eq_mult_div)
  then show "keeps_ms (Truncate 1000)" by (simp add: keeps_ms_def Truncate_def Millisecond_def)
  show "keeps_ms (Truncate Millisecond)" by (simp add: keeps_ms_def Truncate_def minus_mod_eq_mult_div Millisecond_def)
qed

end
