(* ===== verification/Postgres.thy ===== *)
theory Postgres
  imports Database
begin

unbundle bit_operations_syntax

text \<open>
  \<^verbatim>\<open>postgres.go\<close> and \<^verbatim>\<open>internal/postgresdb\<close>: the PostgreSQL backend.  The table
  \<^verbatim>\<open>graudit_entries\<close> is a list of rows; each SQL statement of \<^verbatim>\<open>audit.sql.go\<close> is a function on
  it, with the primary key and the unique index on the hash as \<^verbatim>\<open>schema.sql\<close> declares them.
  An \<^verbatim>\<open>int64\<close> is an \<^typ>\<open>int\<close>, converted to and from an \<^typ>\<open>EntryID\<close> as Go does.

  The server and the driver are outside the repository.  How the server represents a
  \<^verbatim>\<open>jsonb\<close> value and a \<^verbatim>\<open>timestamptz\<close> are parameters, kept with the table in \<open>pg_server\<close>; which
  calls fail, and the driver's \<^verbatim>\<open>BeginFunc\<close>, come with the environment of each operation, so the
  theorems hold for every pattern of failures.  The advisory lock makes a transaction one step here.

  \<open>pg_inv\<close> is the invariant of the table, \<open>pg_chain\<close> the chains it represents; the interpretation \<open>pg\<close>
  shows that the backend keeps the contract for all admissible calls.
\<close>

section \<open>Rows and statements (internal/postgresdb)\<close>

record GrauditEntry =
  gChainID :: string
  gEntryID :: int
  gActorID :: string
  gEntityType :: string
  gEntityID :: string
  gAction :: string
  gPayload :: string
  gTimestamp :: gotime
  gHash :: string
  gPrevHash :: string

record QueryEntriesParams =
  qChainID :: string
  qActorID :: "string option"
  qEntityType :: "string option"
  qEntityID :: "string option"
  qFromTs :: "gotime option"
  qToTs :: "gotime option"
  qLim :: "int option"

definition chain_rows :: "string \<Rightarrow> GrauditEntry list \<Rightarrow> GrauditEntry list" where
  "chain_rows c rs = sort_key gEntryID (filter (\<lambda>r. gChainID r = c) rs)"

definition GetEntryByID :: "string \<Rightarrow> int \<Rightarrow> GrauditEntry list \<Rightarrow> GrauditEntry option" where
  "GetEntryByID c i rs = find (\<lambda>r. gChainID r = c \<and> gEntryID r = i) rs"

definition GetLastEntry :: "string \<Rightarrow> GrauditEntry list \<Rightarrow> GrauditEntry option" where
  "GetLastEntry c rs = (case rev (chain_rows c rs) of [] \<Rightarrow> None | r # _ \<Rightarrow> Some r)"

definition InsertEntry :: "GrauditEntry \<Rightarrow> GrauditEntry list \<Rightarrow> GrauditEntry list option" where
  "InsertEntry r rs =
     (if list_ex (\<lambda>q. gChainID q = gChainID r \<and> gEntryID q = gEntryID r) rs then None
      else if list_ex (\<lambda>q. gHash q = gHash r) rs then None
      else Some (rs @ [r]))"

definition ListEntriesInRange :: "string \<Rightarrow> int \<Rightarrow> int \<Rightarrow> GrauditEntry list \<Rightarrow> GrauditEntry list" where
  "ListEntriesInRange c fr to rs =
     sort_key gEntryID (filter (\<lambda>r. gChainID r = c \<and> fr \<le> gEntryID r \<and> gEntryID r \<le> to) rs)"

definition null_or :: "('a \<Rightarrow> bool) \<Rightarrow> 'a option \<Rightarrow> bool" where
  "null_or P x = (case x of None \<Rightarrow> True | Some y \<Rightarrow> P y)"

definition QueryEntries :: "QueryEntriesParams \<Rightarrow> GrauditEntry list \<Rightarrow> GrauditEntry list" where
  "QueryEntries p rs =
     (let out = sort_key gEntryID (filter (\<lambda>r. gChainID r = qChainID p
            \<and> null_or (\<lambda>x. gActorID r = x) (qActorID p)
            \<and> null_or (\<lambda>x. gEntityType r = x) (qEntityType p)
            \<and> null_or (\<lambda>x. gEntityID r = x) (qEntityID p)
            \<and> null_or (\<lambda>t. ns (gTimestamp r) \<ge> ns t) (qFromTs p)
            \<and> null_or (\<lambda>t. ns (gTimestamp r) \<le> ns t) (qToTs p)) rs)
      in case qLim p of None \<Rightarrow> out | Some n \<Rightarrow> take (nat n) out)"

section \<open>The server and the environment of a call\<close>

record pg_server =
  rows :: "GrauditEntry list"
  jsonb :: "string \<Rightarrow> string"
  timestamptz :: "gotime \<Rightarrow> gotime"

record pg_env =
  pg_now :: gotime
  lock_fails :: bool
  last_fails :: bool
  insert_fails :: bool
  read_fails :: bool
  BeginFunc :: "(pg_server \<Rightarrow> (pg_server \<times> AuditEvent) result) \<Rightarrow> pg_server \<Rightarrow> pg_server \<times> AuditEvent result"

section \<open>Conversions\<close>

definition pgEntryID :: "int \<Rightarrow> EntryID" where
  "pgEntryID i = word_of_int i"

definition toPgEntryID :: "EntryID \<Rightarrow> int" where
  "toPgEntryID i = sint i"

text \<open>FNV-1a over the bytes of the chain identifier, read as a signed 32-bit integer.\<close>

definition chainLockKey :: int where
  "chainLockKey = 892374651"

definition fnv1a :: "string \<Rightarrow> u32" where
  "fnv1a s = foldl (\<lambda>h c. (h XOR of_nat (ord c)) * 16777619) 2166136261 s"

definition chainLockSubKey :: "string \<Rightarrow> int" where
  "chainLockSubKey chainID = sint (fnv1a chainID)"

definition postgresEntryToAuditEvent :: "GrauditEntry \<Rightarrow> AuditEvent result" where
  "postgresEntryToAuditEvent row =
     (case DecodeStoredPayload (gPayload row) of
        Inl err \<Rightarrow> Inl err
      | Inr payload \<Rightarrow>
          Inr \<lparr>ChainID = gChainID row, ID = pgEntryID (gEntryID row), ActorID = gActorID row,
            EntityType = gEntityType row, EntityID = gEntityID row, Action = gAction row,
            Payload = payload, Timestamp = UTC (gTimestamp row), Hash = gHash row, PrevHash = gPrevHash row\<rparr>)"

section \<open>Record and RecordChange\<close>

record postgresAuditLog =
  server :: pg_server
  plogger :: Logger
  pbus :: "bus option"
  ownsPool :: bool
  poolClosed :: bool
  pclosed :: bool
  pcloseOnce :: bool

text \<open>The value of a column as it is stored: a nil payload is NULL, read back as no bytes.\<close>

definition store_payload :: "pg_server \<Rightarrow> string \<Rightarrow> string" where
  "store_payload srv raw = (if raw = [] then [] else jsonb srv raw)"

text \<open>Where the next entry goes, given the last row of the chain, and the row inserted for it.\<close>

definition next_position :: "GrauditEntry option \<Rightarrow> string \<times> EntryID" where
  "next_position latest =
     (case latest of
        Some r \<Rightarrow> (gHash r, pgEntryID (gEntryID r) + 1)
      | None \<Rightarrow> (GenesisPrevHash, 1))"

definition entry_params :: "pg_server \<Rightarrow> AuditEvent \<Rightarrow> string \<Rightarrow> EntryID \<Rightarrow> string \<Rightarrow> string \<Rightarrow> GrauditEntry" where
  "entry_params srv event payloadBytes nextID hash prevHash =
     \<lparr>gChainID = ChainID event, gEntryID = toPgEntryID nextID, gActorID = ActorID event,
      gEntityType = EntityType event, gEntityID = EntityID event, gAction = Action event,
      gPayload = store_payload srv payloadBytes,
      gTimestamp = timestamptz srv (Timestamp event), gHash = hash, gPrevHash = prevHash\<rparr>"

text \<open>The function \<^verbatim>\<open>Record\<close> passes to \<^verbatim>\<open>BeginFunc\<close>.\<close>

definition record_tx :: "pg_env \<Rightarrow> AuditEvent \<Rightarrow> string \<Rightarrow> pg_server \<Rightarrow> (pg_server \<times> AuditEvent) result" where
  "record_tx env event payloadBytes srv =
     (if lock_fails env then Inl driver_error
      else case call (last_fails env) (GetLastEntry (ChainID event) (rows srv)) of
        Inl err \<Rightarrow> Inl err
      | Inr latest \<Rightarrow>
        (let (prevHash, nextID) = next_position latest
         in case ComputeHash (ChainID event) nextID (ActorID event) (EntityType event) (EntityID event)
                (Action event) (Payload event) (Timestamp event) prevHash of
              Inl err \<Rightarrow> Inl err
            | Inr hash \<Rightarrow>
              (case (if insert_fails env then None
                     else InsertEntry (entry_params srv event payloadBytes nextID hash prevHash) (rows srv)) of
                 None \<Rightarrow> Inl driver_error
               | Some rs \<Rightarrow>
                   Inr (srv\<lparr>rows := rs\<rparr>, event\<lparr>ID := nextID, Hash := hash, PrevHash := prevHash\<rparr>))))"

definition postgres_Record ::
  "pg_env \<Rightarrow> AuditEvent \<Rightarrow> postgresAuditLog \<Rightarrow> postgresAuditLog \<times> EntryID result \<times> effect list" where
  "postgres_Record env event a =
     (if pclosed a then (a, Inl (Sentinel ErrClosed), [])
      else case Validate event of
        Inl err \<Rightarrow> (a, Inl (Errorf ''graudit: record'' [err]), [])
      | Inr _ \<Rightarrow>
        (let event = (if IsZero (Timestamp event) then event\<lparr>Timestamp := UTC (pg_now env)\<rparr> else event)
         in case marshalPayload (Payload event) of
              Inl err \<Rightarrow> (a, Inl (Errorf ''graudit: record'' [err]), [])
            | Inr payloadBytes \<Rightarrow>
              (case BeginFunc env (record_tx env event payloadBytes) (server a) of
                 (srv, Inl err) \<Rightarrow>
                   (a\<lparr>server := srv\<rparr>, Inl (Errorf ''graudit: record'' [Sentinel ErrBackendUnavailable]), [])
               | (srv, Inr recorded) \<Rightarrow>
                   (a\<lparr>server := srv\<rparr>, Inr (ID recorded), PublishRecorded (pbus a) (plogger a) recorded))))"

definition postgres_RecordChange ::
  "pg_env \<Rightarrow> key_order \<Rightarrow> string \<Rightarrow> string \<Rightarrow> string \<Rightarrow> string \<Rightarrow> goval \<Rightarrow> goval \<Rightarrow> postgresAuditLog
     \<Rightarrow> postgresAuditLog \<times> EntryID result \<times> effect list" where
  "postgres_RecordChange env visit chainID actorID entityType entityID before after a =
     (case BuildChangeEvent visit chainID actorID entityType entityID before after of
        Inl err \<Rightarrow> (a, Inl (Errorf ''graudit: record change'' [err]), [])
      | Inr event \<Rightarrow> postgres_Record env event a)"

section \<open>Verify\<close>

definition pg_resolveLatestEntryID :: "bool \<Rightarrow> string \<Rightarrow> postgresAuditLog \<Rightarrow> EntryID result" where
  "pg_resolveLatestEntryID fails chainID a =
     (case call fails (GetLastEntry chainID (rows (server a))) of
        Inl err \<Rightarrow> Inl (Sentinel ErrBackendUnavailable)
      | Inr None \<Rightarrow> Inl (Sentinel ErrEntryNotFound)
      | Inr (Some row) \<Rightarrow> Inr (pgEntryID (gEntryID row)))"

fun pg_verify_loop :: "nat \<Rightarrow> string \<Rightarrow> GrauditEntry list \<Rightarrow> (bool \<times> VerifyResult) result" where
  "pg_verify_loop i prevHash [] = Inr (True, verify_ok)"
| "pg_verify_loop i prevHash (row # rs) =
     (let expectPrev = (if i > 0 then prevHash else GenesisPrevHash) in
      if gPrevHash row \<noteq> expectPrev
      then Inr (False, verify_broken (pgEntryID (gEntryID row)) expectPrev (gPrevHash row))
      else case DecodeStoredPayload (gPayload row) of
        Inl err \<Rightarrow> Inl (Errorf ''graudit: verify'' [err])
      | Inr payload \<Rightarrow>
        (case ComputeHash (gChainID row) (pgEntryID (gEntryID row)) (gActorID row) (gEntityType row)
               (gEntityID row) (gAction row) payload (gTimestamp row) (gPrevHash row) of
          Inl err \<Rightarrow> Inl (Errorf ''graudit: verify'' [err])
        | Inr recomputed \<Rightarrow>
            if recomputed \<noteq> gHash row
            then Inr (False, verify_broken (pgEntryID (gEntryID row)) recomputed (gHash row))
            else pg_verify_loop (i + 1) (gHash row) rs))"

text \<open>
  \<^verbatim>\<open>Verify\<close> reads in two statements, the latest position and then the rows; \<open>srv\<close> is the table at
  the time of the second, to which others may have added.  \<open>postgres_Verify\<close> is the case of no
  writer in between.
\<close>

definition postgres_Verify_between ::
  "pg_env \<Rightarrow> string \<Rightarrow> EntryID \<Rightarrow> EntryID \<Rightarrow> postgresAuditLog \<Rightarrow> pg_server \<Rightarrow> (bool \<times> VerifyResult) result" where
  "postgres_Verify_between env chainID from to a srv =
     (if pclosed a then Inl (Sentinel ErrClosed)
      else if chainID = [] then Inl (Sentinel ErrChainIDRequired)
      else
        (let from = (if from < 1 then 1 else from);
             list = (\<lambda>to. case call (read_fails env)
                 (ListEntriesInRange chainID (toPgEntryID from) (toPgEntryID to) (rows srv)) of
                  Inl err \<Rightarrow> Inl (Errorf ''graudit: verify'' [Sentinel ErrBackendUnavailable])
                | Inr rs \<Rightarrow> pg_verify_loop 0 [] rs)
         in if to = 0 then
              (case pg_resolveLatestEntryID (last_fails env) chainID a of
                 Inl err \<Rightarrow> if errors_Is err ErrEntryNotFound then Inr (True, verify_empty)
                   else Inl (Errorf ''graudit: verify'' [err])
               | Inr latest \<Rightarrow> list latest)
            else list to))"

definition postgres_Verify ::
  "pg_env \<Rightarrow> string \<Rightarrow> EntryID \<Rightarrow> EntryID \<Rightarrow> postgresAuditLog \<Rightarrow> (bool \<times> VerifyResult) result" where
  "postgres_Verify env chainID from to a = postgres_Verify_between env chainID from to a (server a)"

lemmas postgres_Verify_unfold = postgres_Verify_def postgres_Verify_between_def

section \<open>Query, GetEntry, LatestEntryID and Close\<close>

definition query_params :: "QueryFilter \<Rightarrow> QueryEntriesParams" where
  "query_params f =
     \<lparr>qChainID = fChainID f,
      qActorID = (if fActorID f \<noteq> [] then Some (fActorID f) else None),
      qEntityType = (if fEntityType f \<noteq> [] then Some (fEntityType f) else None),
      qEntityID = (if fEntityID f \<noteq> [] then Some (fEntityID f) else None),
      qFromTs = (if \<not> IsZero (fFrom f) then Some (fFrom f) else None),
      qToTs = (if \<not> IsZero (fTo f) then Some (fTo f) else None),
      qLim = (if fLimit f > 0 then Some (fLimit f) else None)\<rparr>"

text \<open>Timestamp parameters reach the server as \<^verbatim>\<open>timestamptz\<close> values.\<close>

definition bind_params :: "pg_server \<Rightarrow> QueryEntriesParams \<Rightarrow> QueryEntriesParams" where
  "bind_params srv p = p\<lparr>qFromTs := map_option (timestamptz srv) (qFromTs p),
     qToTs := map_option (timestamptz srv) (qToTs p)\<rparr>"

definition postgres_Query :: "pg_env \<Rightarrow> QueryFilter \<Rightarrow> postgresAuditLog \<Rightarrow> AuditEvent list result" where
  "postgres_Query env f a =
     (if pclosed a then Inl (Sentinel ErrClosed)
      else if fChainID f = [] then Inl (Sentinel ErrChainIDRequired)
      else case call (read_fails env) (QueryEntries (bind_params (server a) (query_params f)) (rows (server a))) of
        Inl err \<Rightarrow> Inl (Errorf ''graudit: query'' [Sentinel ErrBackendUnavailable])
      | Inr rs \<Rightarrow> wrap_err ''graudit: query'' (collect (map postgresEntryToAuditEvent rs)))"

definition postgres_GetEntry :: "pg_env \<Rightarrow> string \<Rightarrow> EntryID \<Rightarrow> postgresAuditLog \<Rightarrow> AuditEvent result" where
  "postgres_GetEntry env chainID i a =
     (if pclosed a then Inl (Sentinel ErrClosed)
      else if chainID = [] then Inl (Sentinel ErrChainIDRequired)
      else case call (read_fails env) (GetEntryByID chainID (toPgEntryID i) (rows (server a))) of
        Inl err \<Rightarrow> Inl (Errorf ''graudit: get entry'' [Sentinel ErrBackendUnavailable])
      | Inr None \<Rightarrow> Inl (Sentinel ErrEntryNotFound)
      | Inr (Some row) \<Rightarrow> wrap_err ''graudit: get entry'' (postgresEntryToAuditEvent row))"

definition postgres_LatestEntryID :: "pg_env \<Rightarrow> string \<Rightarrow> postgresAuditLog \<Rightarrow> EntryID result" where
  "postgres_LatestEntryID env chainID a =
     (if pclosed a then Inl (Sentinel ErrClosed)
      else if chainID = [] then Inl (Sentinel ErrChainIDRequired)
      else wrap_err ''graudit: latest entry id'' (pg_resolveLatestEntryID (last_fails env) chainID a))"

definition postgres_Close :: "postgresAuditLog \<Rightarrow> postgresAuditLog \<times> effect list" where
  "postgres_Close a =
     (if pcloseOnce a then (a, [])
      else (a\<lparr>pclosed := True, pcloseOnce := True, poolClosed := poolClosed a \<or> ownsPool a\<rparr>,
            (if ownsPool a then [PoolClosed] else []) @ log_info (plogger a) ''graudit: audit log closed'' []))"

section \<open>Construction\<close>

text \<open>
  What \<^verbatim>\<open>pgxpool\<close> does with a configuration is a parameter: parsing a DSN, opening a pool with the
  resulting settings (the server it reaches), and whether a ping succeeds.
\<close>

record pool_config =
  MaxConns :: int
  MinConns :: int
  MaxConnLifetime :: int

record PostgresConfig =
  DSN :: string
  Pool :: "pg_server option"
  cfgMaxConns :: int
  cfgMinConns :: int
  cfgMaxConnLifetime :: int
  cfgLogger :: "Logger option"
  cfgEventBus :: "bus option"

record pgxpool =
  ParseConfig :: "string \<Rightarrow> pool_config option"
  NewWithConfig :: "pool_config \<Rightarrow> pg_server option"
  Ping :: "pg_server \<Rightarrow> bool"

definition pool_settings :: "PostgresConfig \<Rightarrow> pool_config \<Rightarrow> pool_config" where
  "pool_settings cfg pc =
     (let pc = (if cfgMaxConns cfg > 0 then pc\<lparr>MaxConns := cfgMaxConns cfg\<rparr> else pc);
          pc = (if cfgMinConns cfg > 0 then pc\<lparr>MinConns := cfgMinConns cfg\<rparr> else pc)
      in (if cfgMaxConnLifetime cfg > 0 then pc\<lparr>MaxConnLifetime := cfgMaxConnLifetime cfg\<rparr> else pc))"

definition unavailable :: "string \<Rightarrow> goerror" where
  "unavailable msg = Errorf msg [Sentinel ErrBackendUnavailable]"

definition connectPostgres :: "pgxpool \<Rightarrow> PostgresConfig \<Rightarrow> string \<Rightarrow> (pg_server \<times> bool) result \<times> effect list" where
  "connectPostgres px cfg component =
     (if (DSN cfg = []) = (Pool cfg = None)
      then (Inl (Errorf (''graudit: exactly one of PostgresConfig.DSN or PostgresConfig.Pool is required for '' @ component) []), [])
      else case Pool cfg of
        Some pool \<Rightarrow> if Ping px pool then (Inr (pool, False), []) else (Inl (unavailable ''graudit: ping''), [])
      | None \<Rightarrow>
          (case ParseConfig px (DSN cfg) of
             None \<Rightarrow> (Inl (unavailable ''graudit: parse dsn''), [])
           | Some pc \<Rightarrow>
               (case NewWithConfig px (pool_settings cfg pc) of
                  None \<Rightarrow> (Inl (unavailable ''graudit: open''), [])
                | Some pool \<Rightarrow>
                    if Ping px pool then (Inr (pool, True), [PoolOpened])
                    else (Inl (unavailable ''graudit: ping''), [PoolOpened, PoolClosed]))))"

definition NewPostgresAuditLog :: "pgxpool \<Rightarrow> PostgresConfig \<Rightarrow> postgresAuditLog result \<times> effect list" where
  "NewPostgresAuditLog px cfg =
     (let lg = OrNop (cfgLogger cfg) in
      case connectPostgres px cfg ''AuditLog'' of
        (Inl err, fx) \<Rightarrow> (Inl err, fx @ log_error lg ''graudit: connect failed'' err)
      | (Inr (pool, owns), fx) \<Rightarrow>
          (Inr \<lparr>server = pool, plogger = lg, pbus = cfgEventBus cfg, ownsPool = owns, poolClosed = False,
             pclosed = False, pcloseOnce = False\<rparr>,
           fx @ log_info lg ''graudit: connected'' []))"

section \<open>Applying the schema\<close>

text \<open>
  \<^verbatim>\<open>applyPostgresSchema\<close>, as the calls it makes on its connection, in order, for every
  combination of failures.  The deferred unlock and release run whatever happens in between.
\<close>

definition grauditSchemaLockKey :: int where
  "grauditSchemaLockKey = 5198204733"

datatype conn_call = Acquire | AdvisoryLock int | ExecSchema | AdvisoryUnlock int | Release

record schema_env =
  acquire_fails :: bool
  schema_lock_fails :: bool
  schema_exec_fails :: bool

definition applyPostgresSchema :: "schema_env \<Rightarrow> unit result \<times> conn_call list" where
  "applyPostgresSchema env =
     (let k = grauditSchemaLockKey in
      if acquire_fails env then (Inl (Errorf ''acquire connection'' [driver_error]), [Acquire])
      else if schema_lock_fails env
      then (Inl (Errorf ''acquire schema lock'' [driver_error]), [Acquire, AdvisoryLock k, Release])
      else (call (schema_exec_fails env) (), [Acquire, AdvisoryLock k, ExecSchema, AdvisoryUnlock k, Release]))"

text \<open>The schema statements run only under the lock, which is given up before the connection is.\<close>

lemma applyPostgresSchema_locked:
  assumes "applyPostgresSchema env = (r, ops)" "ExecSchema \<in> set ops"
  shows "\<exists>k pre post. ops = pre @ [AdvisoryLock k, ExecSchema, AdvisoryUnlock k] @ post \<and>
    Release \<in> set post \<and> Release \<notin> set pre"
proof -
  have "ops = [Acquire] @ [AdvisoryLock grauditSchemaLockKey, ExecSchema, AdvisoryUnlock grauditSchemaLockKey] @ [Release]"
    using assms by (auto simp: applyPostgresSchema_def Let_def split: if_splits)
  then show ?thesis by (metis list.set_intros(1) list.set(1,2) empty_iff insert_iff conn_call.distinct(7))
qed

section \<open>The chains of a table\<close>

definition row_event :: "GrauditEntry \<Rightarrow> AuditEvent" where
  "row_event r = (case postgresEntryToAuditEvent r of Inl err \<Rightarrow> zero_event | Inr e \<Rightarrow> e)"

definition table_chain :: "pg_server \<Rightarrow> string \<Rightarrow> AuditEvent list" where
  "table_chain srv c = map row_event (chain_rows c (rows srv))"

definition pg_chain :: "postgresAuditLog \<Rightarrow> string \<Rightarrow> AuditEvent list" where
  "pg_chain a = table_chain (server a)"

definition row_ok :: "GrauditEntry \<Rightarrow> bool" where
  "row_ok r \<longleftrightarrow> (\<exists>v. DecodeStoredPayload (gPayload r) = Inr v)"

definition table_inv :: "pg_server \<Rightarrow> bool" where
  "table_inv srv \<longleftrightarrow> keeps_ms (timestamptz srv) \<and> (\<forall>r \<in> set (rows srv). row_ok r) \<and>
     (\<forall>c. map gEntryID (chain_rows c (rows srv)) = map (\<lambda>k. int (Suc k)) [0..<length (chain_rows c (rows srv))]
       \<and> length (chain_rows c (rows srv)) < 2 ^ 63 \<and> chain_ok c (table_chain srv c))"

definition pg_inv :: "postgresAuditLog \<Rightarrow> bool" where
  "pg_inv a \<longleftrightarrow> table_inv (server a)"

text \<open>
  The calls the contract speaks of: the server gives the payload back as the JSON value it
  was given, the chain has room for another positive \<^verbatim>\<open>int64\<close>, and the driver's transactions
  are transactions whose commits are not left in doubt.
\<close>

definition payload_kept :: "pg_server \<Rightarrow> AuditEvent \<Rightarrow> bool" where
  "payload_kept srv event \<longleftrightarrow> Payload event = GNil \<or>
     (case marshal (Payload event) of None \<Rightarrow> True | Some raw \<Rightarrow> json_decode (jsonb srv raw) = json_decode raw)"

definition storable :: "pg_server \<Rightarrow> AuditEvent \<Rightarrow> bool" where
  "storable srv event \<longleftrightarrow> payload_kept srv event \<and> length (chain_rows (ChainID event) (rows srv)) < 2 ^ 63 - 1"

definition pg_admissible :: "pg_env \<Rightarrow> AuditEvent \<Rightarrow> postgresAuditLog \<Rightarrow> bool" where
  "pg_admissible env event a \<longleftrightarrow> storable (server a) event \<and> transactional (BeginFunc env) \<and> certain (BeginFunc env)"

lemma row_event_fields:
  assumes "DecodeStoredPayload (gPayload r) = Inr v"
  shows "postgresEntryToAuditEvent r = Inr (row_event r)"
    "row_event r = \<lparr>ChainID = gChainID r, ID = pgEntryID (gEntryID r), ActorID = gActorID r,
       EntityType = gEntityType r, EntityID = gEntityID r, Action = gAction r,
       Payload = v, Timestamp = UTC (gTimestamp r), Hash = gHash r, PrevHash = gPrevHash r\<rparr>"
  using assms by (simp_all add: row_event_def postgresEntryToAuditEvent_def)

lemma row_ok_event: "row_ok r \<Longrightarrow> postgresEntryToAuditEvent r = Inr (row_event r)"
  by (auto simp: row_ok_def row_event_fields(1))

lemma row_event_hash:
  assumes "DecodeStoredPayload (gPayload r) = Inr v"
  shows "ComputeHash (gChainID r) (pgEntryID (gEntryID r)) (gActorID r) (gEntityType r) (gEntityID r)
    (gAction r) v (gTimestamp r) (gPrevHash r) = entry_hash (row_event r)"
proof -
  have "timestamp_text (gTimestamp r) = timestamp_text (UTC (gTimestamp r))"
    by (simp add: timestamp_text_iff)
  then show ?thesis
    by (simp add: row_event_fields(2) [OF assms] entry_hash_def ComputeHash_def hash_preimage_def split: sum.split)
qed

lemma set_chain_rows: "r \<in> set (chain_rows c rs) \<longleftrightarrow> r \<in> set rs \<and> gChainID r = c"
  by (auto simp: chain_rows_def)

lemma GetLastEntry_last: "GetLastEntry c rs = (if chain_rows c rs = [] then None else Some (last (chain_rows c rs)))"
  by (cases "chain_rows c rs" rule: rev_cases) (simp_all add: GetLastEntry_def)

lemma word_of_pos: "pgEntryID (int (Suc k)) = of_nat k + 1"
  by (simp add: pgEntryID_def)

lemma toPg_of_nat: "n < 2 ^ 63 \<Longrightarrow> toPgEntryID (of_nat n) = int n"
proof -
  assume n: "n < 2 ^ 63"
  have "sint (word_of_int (int n) :: EntryID) = signed_take_bit 63 (int n)"
    by (subst sint_sbintrunc') simp
  also have "\<dots> = int n" by (rule signed_take_bit_int_eq_self) (use n in simp_all)
  finally show ?thesis by (simp add: toPgEntryID_def)
qed

lemma table_last:
  assumes "table_inv srv"
  shows "next_position (GetLastEntry c (rows srv)) = (last_hash GenesisPrevHash (table_chain srv c), of_nat (length (table_chain srv c)) + 1)"
proof (cases "chain_rows c (rows srv) = []")
  case True
  then show ?thesis by (simp add: next_position_def GetLastEntry_last table_chain_def)
next
  case False
  let ?rs = "chain_rows c (rows srv)"
  let ?n = "length ?rs - 1"
  have n: "Suc ?n = length ?rs" using False by (cases ?rs) auto
  have "row_ok (last ?rs)" using assms False set_chain_rows [of "last ?rs" c "rows srv"] by (simp add: table_inv_def)
  then have h: "Hash (row_event (last ?rs)) = gHash (last ?rs)" by (auto simp: row_ok_def row_event_fields(2))
  have "gEntryID (last ?rs) = map gEntryID ?rs ! ?n" using False by (simp add: last_conv_nth)
  also have "\<dots> = int (Suc ?n)"
  proof -
    have "map gEntryID ?rs = map (\<lambda>k. int (Suc k)) [0..<length ?rs]" using assms unfolding table_inv_def by blast
    then show ?thesis using n by (metis (no_types, lifting) add_0 lessI nth_map_upt diff_zero)
  qed
  finally have "pgEntryID (gEntryID (last ?rs)) = of_nat ?n + 1" by (simp only: word_of_pos)
  also have "\<dots> = of_nat (length ?rs)" by (subst n [symmetric]) (simp only: of_nat_Suc add.commute)
  finally show ?thesis using False h
    by (simp add: next_position_def GetLastEntry_last table_chain_def last_hash_last last_map)
qed

section \<open>Record keeps the table\<close>

text \<open>The row \<^verbatim>\<open>Record\<close> inserts for a sealed event.\<close>

definition sealed_row :: "pg_server \<Rightarrow> string \<Rightarrow> AuditEvent \<Rightarrow> GrauditEntry" where
  "sealed_row srv raw e =
     \<lparr>gChainID = ChainID e, gEntryID = toPgEntryID (ID e), gActorID = ActorID e, gEntityType = EntityType e,
      gEntityID = EntityID e, gAction = Action e, gPayload = store_payload srv raw,
      gTimestamp = timestamptz srv (Timestamp e), gHash = Hash e, gPrevHash = PrevHash e\<rparr>"

lemma sealed_row_simps [simp]:
  "gChainID (sealed_row srv raw e) = ChainID e" "gEntryID (sealed_row srv raw e) = toPgEntryID (ID e)"
  "gActorID (sealed_row srv raw e) = ActorID e" "gEntityType (sealed_row srv raw e) = EntityType e"
  "gEntityID (sealed_row srv raw e) = EntityID e" "gAction (sealed_row srv raw e) = Action e"
  "gPayload (sealed_row srv raw e) = store_payload srv raw"
  "gTimestamp (sealed_row srv raw e) = timestamptz srv (Timestamp e)"
  "gHash (sealed_row srv raw e) = Hash e" "gPrevHash (sealed_row srv raw e) = PrevHash e"
  by (simp_all add: sealed_row_def)

lemma record_tx_seal:
  assumes "table_inv srv"
  shows "record_tx env event raw srv =
    (if lock_fails env \<or> last_fails env then Inl driver_error
     else case seal (table_chain srv (ChainID event)) event of
       Inl err \<Rightarrow> Inl err
     | Inr e \<Rightarrow>
         (case (if insert_fails env then None else InsertEntry (sealed_row srv raw e) (rows srv)) of
            None \<Rightarrow> Inl driver_error
          | Some rs \<Rightarrow> Inr (srv\<lparr>rows := rs\<rparr>, e)))"
proof (cases "lock_fails env \<or> last_fails env")
  case True
  then show ?thesis by (auto simp: record_tx_def call_def)
next
  case False
  then show ?thesis
    unfolding record_tx_def call_def Let_def
    by (simp add: table_last [OF assms] seal_def Let_def entry_hash_def sealed_row_def entry_params_def sealing_order map_result_def
        split: sum.split option.split)
qed

lemma InsertEntry_Some:
  "InsertEntry r rs = Some rs' \<Longrightarrow> rs' = rs @ [r] \<and> (\<forall>q \<in> set rs. gHash q \<noteq> gHash r)"
  by (auto simp: InsertEntry_def list_ex_iff split: if_splits)

text \<open>A stored payload decodes to a value with the canonical text of the payload recorded.\<close>

lemma stored_payload_decodes:
  assumes "storable srv event" "marshalPayload (Payload event) = Inr raw" "canonicalJSON (Payload event) = Inr t"
  obtains v where "DecodeStoredPayload (store_payload srv raw) = Inr v" "canonicalJSON v = Inr t"
proof (cases "raw = []")
  case True
  then have "Payload event = GNil"
    using assms(2) by (auto simp: marshalPayload_Inr dest: marshal_nonempty split: if_splits)
  with assms(3) True that [of GNil] show thesis by (simp add: store_payload_def DecodeStoredPayload_def)
next
  case False
  then have raw: "marshal (Payload event) = Some raw"
    using assms(2) by (auto simp: marshalPayload_Inr split: if_splits)
  from stored_canonical [OF assms(2,3)] obtain v where v: "DecodeStoredPayload raw = Inr v" "canonicalJSON v = Inr t" .
  have "Payload event \<noteq> GNil" using False assms(2) by (auto simp: marshalPayload_Inr)
  then have "json_decode (jsonb srv raw) = json_decode raw" using assms(1) raw by (simp add: storable_def payload_kept_def)
  moreover have "json_decode raw = Some v" using v(1) False by (auto simp: DecodeStoredPayload_def split: option.splits)
  ultimately have "json_decode (jsonb srv raw) = Some v" "jsonb srv raw \<noteq> []" by auto
  with False v(2) that [of v] show thesis by (simp add: store_payload_def DecodeStoredPayload_def)
qed

lemma sealed_row_event:
  assumes "table_inv srv" "storable srv event" "marshalPayload (Payload event) = Inr raw"
    and "seal (table_chain srv (ChainID event)) event = Inr e"
  shows "row_ok (sealed_row srv raw e)"
    "sealed (table_chain srv (ChainID event)) event (row_event (sealed_row srv raw e))"
    "ID (row_event (sealed_row srv raw e)) = ID e"
proof -
  let ?r = "sealed_row srv raw e" and ?n = "length (table_chain srv (ChainID event))"
  note s = seal_Inr [OF assms(4)]
  obtain t where "canonicalJSON (Payload e) = Inr t" using s(3) entry_hash_ok_iff [of e] by auto
  then have t: "canonicalJSON (Payload event) = Inr t" by (simp add: s)
  from assms(2,3) t obtain v where v: "DecodeStoredPayload (gPayload ?r) = Inr v" "canonicalJSON v = Inr t"
    by (rule stored_payload_decodes) simp
  note r = row_event_fields(2) [OF v(1)]
  show "row_ok ?r" using v(1) by (auto simp: row_ok_def)
  have len: "?n < 2 ^ 63 - 1" using assms(2) by (simp add: storable_def table_chain_def)
  have "pgEntryID (toPgEntryID (ID e)) = ID e" by (simp add: pgEntryID_def toPgEntryID_def)
  then show ID: "ID (row_event ?r) = ID e" by (simp add: r)
  have "ns (timestamptz srv (Timestamp event)) div Millisecond = ns (Timestamp event) div Millisecond"
    using assms(1) by (simp add: table_inv_def keeps_ms_def)
  then have content: "hash_content (row_event ?r) = hash_content e"
    using ID v(2) t by (simp add: hash_content_def r s)
  have "hash_content e = hash_content (event\<lparr>ID := of_nat ?n + 1,
      PrevHash := last_hash GenesisPrevHash (table_chain srv (ChainID event))\<rparr>)"
    by (simp add: hash_content_def s)
  with content entry_hash_content [OF content] s(3) show "sealed (table_chain srv (ChainID event)) event (row_event ?r)"
    by (simp add: sealed_def r)
qed

lemma chain_rows_snoc:
  assumes "table_inv srv" "gEntryID r = int (Suc (length (chain_rows (gChainID r) (rows srv))))"
  shows "chain_rows c (rows srv @ [r])
    = (if gChainID r = c then chain_rows c (rows srv) @ [r] else chain_rows c (rows srv))"
proof (cases "gChainID r = c")
  case True
  have "gEntryID q \<le> gEntryID r" if "q \<in> set (filter (\<lambda>r. gChainID r = c) (rows srv))" for q
  proof -
    have "q \<in> set (chain_rows c (rows srv))" using that by (simp add: chain_rows_def)
    then have "gEntryID q \<in> set (map gEntryID (chain_rows c (rows srv)))" by simp
    also have "map gEntryID (chain_rows c (rows srv)) = map (\<lambda>k. int (Suc k)) [0..<length (chain_rows c (rows srv))]"
      using assms(1) unfolding table_inv_def by blast
    finally show ?thesis using assms(2) True by auto
  qed
  then show ?thesis using True by (simp add: chain_rows_def sort_key_snoc)
qed (simp add: chain_rows_def)

lemma table_append:
  assumes "table_inv srv" "storable srv event" "marshalPayload (Payload event) = Inr raw"
    and "seal (table_chain srv (ChainID event)) event = Inr e"
  defines "srv' \<equiv> srv\<lparr>rows := rows srv @ [sealed_row srv raw e]\<rparr>"
  shows "table_inv srv'" "table_chain srv' = (table_chain srv)
    (ChainID event := table_chain srv (ChainID event) @ [row_event (sealed_row srv raw e)])"
proof -
  let ?r = "sealed_row srv raw e" and ?c = "ChainID event"
  note s = seal_Inr [OF assms(4)]
  note r = sealed_row_event [OF assms(1-4)]
  have c: "gChainID ?r = ?c" by (simp add: s)
  have len: "length (chain_rows ?c (rows srv)) < 2 ^ 63 - 1" using assms(2) by (simp add: storable_def)
  have "ID e = of_nat (Suc (length (chain_rows ?c (rows srv))))" by (simp add: s table_chain_def)
  then have id: "gEntryID ?r = int (Suc (length (chain_rows (gChainID ?r) (rows srv))))"
    using toPg_of_nat [of "Suc (length (chain_rows ?c (rows srv)))"] len unfolding c by simp
  have rs: "chain_rows c (rows srv') = (if ?c = c then chain_rows c (rows srv) @ [?r] else chain_rows c (rows srv))" for c
    using chain_rows_snoc [OF assms(1) id, of c] by (simp add: srv'_def s(4))
  show chain: "table_chain srv' = (table_chain srv)(?c := table_chain srv ?c @ [row_event ?r])"
    unfolding table_chain_def rs by (auto simp: fun_eq_iff)
  have "chain_ok c (table_chain srv' c)" for c
    using assms(1) r(2) by (auto simp: chain table_inv_def intro: chain_ok_sealed)
  then show "table_inv srv'"
    using assms(1) r(1) len id unfolding c table_inv_def rs by (auto simp: srv'_def)
qed

text \<open>How a call of \<^verbatim>\<open>Record\<close> can end, for any driver that keeps its word on transactions.\<close>

lemma postgres_Record_cases:
  assumes "table_inv (server a)" "transactional (BeginFunc env)"
  obtains (closed) "pclosed a" "postgres_Record env event a = (a, Inl (Sentinel ErrClosed), [])"
  | (invalid) err where "\<not> pclosed a" "Validate event = Inl err"
      "postgres_Record env event a = (a, Inl (Errorf ''graudit: record'' [err]), [])"
  | (failed) "\<not> pclosed a" "Validate event = Inr ()"
      "postgres_Record env event a = (a, Inl (Errorf ''graudit: record'' [Sentinel ErrBackendUnavailable]), [])"
  | (stored) raw e r fx where "\<not> pclosed a" "Validate event = Inr ()" "marshalPayload (Payload event) = Inr raw"
      "seal (table_chain (server a) (ChainID event)) (stamp (pg_now env) event) = Inr e"
      "\<forall>q \<in> set (rows (server a)). gHash q \<noteq> Hash e"
      "postgres_Record env event a =
        (a\<lparr>server := (server a)\<lparr>rows := rows (server a) @ [sealed_row (server a) raw e]\<rparr>\<rparr>, r, fx)"
      "r = Inr (ID e) \<and> fx = PublishRecorded (pbus a) (plogger a) e \<or>
       \<not> certain (BeginFunc env) \<and> fails_with r ErrBackendUnavailable \<and> fx = []"
proof (cases "pclosed a \<or> Validate event \<noteq> Inr ()")
  case True
  then show thesis using closed invalid by (cases "Validate event") (auto simp: postgres_Record_def)
next
  case False
  let ?ev = "stamp (pg_now env) event" and ?srv = "server a"
  obtain raw where raw: "marshalPayload (Payload event) = Inr raw"
    using False marshalPayload_Validate by blast
  have rec: "postgres_Record env event a =
      (case BeginFunc env (record_tx env ?ev raw) ?srv of
         (srv, Inl err) \<Rightarrow>
           (a\<lparr>server := srv\<rparr>, Inl (Errorf ''graudit: record'' [Sentinel ErrBackendUnavailable]), [])
       | (srv, Inr recorded) \<Rightarrow>
           (a\<lparr>server := srv\<rparr>, Inr (ID recorded), PublishRecorded (pbus a) (plogger a) recorded))"
    using False raw unfolding postgres_Record_def Let_def stamp_def [symmetric] by simp
  have did: "seal (table_chain ?srv (ChainID event)) ?ev = Inr e"
      "srv' = ?srv\<lparr>rows := rows ?srv @ [sealed_row ?srv raw e]\<rparr>" "\<forall>q \<in> set (rows ?srv). gHash q \<noteq> Hash e"
    if "record_tx env ?ev raw ?srv = Inr (srv', e)" for srv' e
    using that unfolding record_tx_seal [OF assms(1)]
    by (auto split: if_splits sum.splits option.splits dest!: InsertEntry_Some)
  obtain srv' r where res: "BeginFunc env (record_tx env ?ev raw) ?srv = (srv', r)" by fastforce
  then have "tx_outcome (\<lambda>p. record_tx env ?ev raw ?srv = Inr p) ?srv (srv', r)"
    using assms(2) unfolding transactional_def by metis
  then show thesis
  proof (cases rule: tx_outcome_cases)
    case (finished e)
    show thesis by (rule stored [OF _ _ raw did(1,3) [OF finished(2)]])
        (use False res finished(1) did(2) [OF finished(2)] in \<open>auto simp: rec\<close>)
  next
    case (undone err)
    then show thesis using failed False res by (simp add: rec)
  next
    case (doubtful err e)
    show thesis
    proof (cases "srv' = ?srv")
      case True
      then show thesis using failed False res doubtful(1) by (simp add: rec)
    next
      case changed: False
      then have "\<not> certain (BeginFunc env)" using res doubtful(1) by (auto dest: certainD)
      then show thesis by (intro stored [OF _ _ raw did(1,3) [OF doubtful(2)]])
          (use False res doubtful(1) did(2) [OF doubtful(2)] in \<open>auto simp: rec\<close>)
    qed
  qed
qed

section \<open>Verify walks the chain\<close>

lemma pg_verify_loop_walk:
  "\<forall>r \<in> set rs. row_ok r \<Longrightarrow>
     pg_verify_loop i p rs = verify_walk (if i > 0 then p else GenesisPrevHash) (map row_event rs)"
proof (induction rs arbitrary: i p)
  case (Cons r rs)
  then obtain v where v: "DecodeStoredPayload (gPayload r) = Inr v" by (auto simp: row_ok_def)
  have f: "PrevHash (row_event r) = gPrevHash r" "Hash (row_event r) = gHash r"
    "ID (row_event r) = pgEntryID (gEntryID r)" by (simp_all add: row_event_fields(2) [OF v])
  have IH: "pg_verify_loop (i + 1) (gHash r) rs = verify_walk (gHash r) (map row_event rs)"
    using Cons.IH [of "i + 1" "gHash r"] Cons.prems by simp
  show ?case
    unfolding pg_verify_loop.simps v row_event_hash [OF v] Let_def sum.case list.map verify_walk.simps f IH ..
qed simp

lemma pg_ID_range:
  assumes "1 \<le> g" "g < 2 ^ 63" "unat fr < 2 ^ 63" "unat to < 2 ^ 63"
  shows "toPgEntryID fr \<le> g \<and> g \<le> toPgEntryID to \<longleftrightarrow> fr \<le> pgEntryID g \<and> pgEntryID g \<le> to"
proof -
  have conv: "toPgEntryID x = int (unat x)" if "unat x < 2 ^ 63" for x
    using toPg_of_nat [OF that] by simp
  obtain n where n: "g = int n" using assms(1) by (cases g) auto
  have "unat (pgEntryID g) = n"
    using assms(2) by (simp add: pgEntryID_def n unsigned_of_nat take_bit_nat_eq_self)
  then show ?thesis using assms by (simp only: conv word_le_nat_alt n of_nat_le_iff)
qed

lemma table_gEntryID:
  assumes "table_inv srv" "r \<in> set (rows srv)"
  shows "1 \<le> gEntryID r" "gEntryID r < 2 ^ 63"
proof -
  let ?rs = "chain_rows (gChainID r) (rows srv)"
  have "gEntryID r \<in> set (map gEntryID ?rs)" using assms(2) by (simp add: set_chain_rows)
  also have "map gEntryID ?rs = map (\<lambda>k. int (Suc k)) [0..<length ?rs]"
    using assms(1) unfolding table_inv_def by blast
  finally have "\<exists>k < length ?rs. gEntryID r = int (Suc k)" by auto
  moreover have "length ?rs < 2 ^ 63" using assms(1) unfolding table_inv_def by blast
  ultimately show "1 \<le> gEntryID r" "gEntryID r < 2 ^ 63" by auto
qed

lemma ID_row_event: "table_inv srv \<Longrightarrow> r \<in> set (rows srv) \<Longrightarrow> ID (row_event r) = pgEntryID (gEntryID r)"
  by (auto simp: table_inv_def row_ok_def row_event_fields(2))

lemma list_range_events:
  assumes "table_inv srv" "unat fr < 2 ^ 63" "unat to < 2 ^ 63"
  shows "map row_event (ListEntriesInRange c (toPgEntryID fr) (toPgEntryID to) (rows srv))
    = in_range fr to (table_chain srv c)"
proof -
  have "ListEntriesInRange c (toPgEntryID fr) (toPgEntryID to) (rows srv)
      = filter (\<lambda>r. toPgEntryID fr \<le> gEntryID r \<and> gEntryID r \<le> toPgEntryID to) (chain_rows c (rows srv))"
    by (simp add: ListEntriesInRange_def chain_rows_def filter_sort conj_ac)
  also have "\<dots> = filter (\<lambda>r. fr \<le> ID (row_event r) \<and> ID (row_event r) \<le> to) (chain_rows c (rows srv))"
    using assms pg_ID_range table_gEntryID [OF assms(1)] ID_row_event [OF assms(1)]
    by (intro filter_cong) (auto simp: set_chain_rows)
  finally show ?thesis by (simp add: in_range_def table_chain_def filter_map comp_def)
qed

section \<open>The contract\<close>

definition postgres_record_op :: "pg_env \<Rightarrow> AuditEvent \<Rightarrow> postgresAuditLog \<Rightarrow> postgresAuditLog \<times> EntryID result" where
  "postgres_record_op env event a = (let (a', r, fx) = postgres_Record env event a in (a', r))"

lemma postgres_Record_error:
  assumes "postgres_record_op env event a = (a', Inl err)" "certain (BeginFunc env)"
  shows "a' = a"
  using assms(1) certainD [OF assms(2)]
  by (auto simp: postgres_record_op_def postgres_Record_def Let_def split: if_splits sum.splits prod.splits)

lemma postgres_Record_open: "postgres_record_op env event a = (a', r) \<Longrightarrow> pclosed a' = pclosed a"
  by (auto simp: postgres_record_op_def postgres_Record_def Let_def split: if_splits sum.splits prod.splits)

lemma storable_stamp: "storable srv event \<Longrightarrow> storable srv (stamp now event)"
  by (simp add: storable_def payload_kept_def stamp_def)

text \<open>A successful or doubtful \<^verbatim>\<open>Record\<close> appends one sealed entry, every other one changes nothing.\<close>

lemma postgres_Record_step:
  assumes "pg_inv a" "storable (server a) event" "transactional (BeginFunc env)"
    and "postgres_record_op env event a = (a', r)"
  obtains (unchanged) err where "r = Inl err" "a' = a"
  | (appended) e where "pg_inv a'" "sealed (pg_chain a (ChainID event)) (stamp (pg_now env) event) e"
      "pg_chain a' = (pg_chain a)(ChainID event := pg_chain a (ChainID event) @ [e])"
      "r = Inr (ID e) \<or> \<not> certain (BeginFunc env) \<and> fails_with r ErrBackendUnavailable"
proof -
  note inv = assms(1) [unfolded pg_inv_def]
  from inv assms(3) show thesis
  proof (cases rule: postgres_Record_cases [where event = event])
    case (stored raw e r' fx)
    let ?ev = "stamp (pg_now env) event" and ?r = "sealed_row (server a) raw e"
    have tx: "marshalPayload (Payload ?ev) = Inr raw" "seal (table_chain (server a) (ChainID ?ev)) ?ev = Inr e"
      using stored(3,4) by simp_all
    note t = table_append [OF inv storable_stamp [OF assms(2)] tx]
    note se = sealed_row_event [OF inv storable_stamp [OF assms(2)] tx]
    have a': "a' = a\<lparr>server := (server a)\<lparr>rows := rows (server a) @ [?r]\<rparr>\<rparr>" "r = r'"
      using stored(6) assms(4) by (simp_all add: postgres_record_op_def)
    show thesis
    proof (rule appended [of "row_event ?r"])
      show "pg_inv a'" using t(1) by (simp add: a' pg_inv_def)
      show "sealed (pg_chain a (ChainID event)) ?ev (row_event ?r)" using se(2) by (simp add: pg_chain_def)
      show "pg_chain a' = (pg_chain a)(ChainID event := pg_chain a (ChainID event) @ [row_event ?r])"
        using t(2) by (simp add: a' pg_chain_def)
      show "r = Inr (ID (row_event ?r)) \<or> \<not> certain (BeginFunc env) \<and> fails_with r ErrBackendUnavailable"
        using stored(7) se(3) by (auto simp: a'(2))
    qed
  qed (use unchanged assms(4) in \<open>auto simp: postgres_record_op_def\<close>)
qed

lemma postgres_Record_inv:
  assumes "pg_inv a" "storable (server a) event" "transactional (BeginFunc env)"
    and "postgres_record_op env event a = (a', r)"
  shows "pg_inv a'"
  by (rule postgres_Record_step [OF assms]) (use assms(1) in simp_all)

lemma pg_latest_spec:
  assumes "pg_inv a"
  shows "pg_resolveLatestEntryID False c a = (if pg_chain a c = [] then Inl (Sentinel ErrEntryNotFound)
      else Inr (of_nat (length (pg_chain a c))))"
  using table_last [OF assms [unfolded pg_inv_def], of c]
  by (cases "chain_rows c (rows (server a)) = []")
    (simp_all add: next_position_def pg_resolveLatestEntryID_def call_def pg_chain_def table_chain_def GetLastEntry_last)

lemma postgres_Verify_between_spec:
  assumes "pg_inv a" "table_inv srv" "\<not> pclosed a" "c \<noteq> []" "unat fr < 2 ^ 63" "unat to < 2 ^ 63"
    and "to = 0 \<longrightarrow> \<not> last_fails env" "\<not> read_fails env"
  shows "postgres_Verify_between env c fr to a srv =
    (if to = 0 \<and> pg_chain a c = [] then Inr (True, verify_empty)
     else verify_walk GenesisPrevHash (in_range (max 1 fr)
       (if to = 0 then of_nat (length (pg_chain a c)) else to) (table_chain srv c)))"
proof -
  have ok: "\<forall>r \<in> set (ListEntriesInRange c i j (rows srv)). row_ok r" for i j
    using assms(2) by (auto simp: table_inv_def ListEntriesInRange_def)
  have list: "pg_verify_loop 0 [] (ListEntriesInRange c (toPgEntryID (max 1 fr)) (toPgEntryID t) (rows srv))
      = verify_walk GenesisPrevHash (in_range (max 1 fr) t (table_chain srv c))" if "unat t < 2 ^ 63" for t
  proof -
    have "unat (max 1 fr) < 2 ^ 63" using assms(5) by (simp add: max_def)
    from list_range_events [OF assms(2) this that] show ?thesis by (simp add: pg_verify_loop_walk [OF ok])
  qed
  have "length (pg_chain a c) < 2 ^ 63"
    using assms(1) by (simp add: pg_inv_def table_inv_def pg_chain_def table_chain_def)
  then have un: "unat (of_nat (length (pg_chain a c)) :: EntryID) < 2 ^ 63"
    by (simp add: unsigned_of_nat take_bit_nat_eq_self)
  have fr: "(if fr < 1 then 1 else fr) = max 1 fr" by (auto simp: max_def not_le not_less)
  show ?thesis
    using assms(3-8) list [OF un] list [OF assms(6)]
    unfolding postgres_Verify_between_def Let_def fr by (simp add: call_def pg_latest_spec [OF assms(1)])
qed

lemma postgres_Verify_spec:
  assumes "pg_inv a" "\<not> pclosed a" "c \<noteq> []" "unat fr < 2 ^ 63" "unat to < 2 ^ 63"
    and "to = 0 \<longrightarrow> \<not> last_fails env" "\<not> read_fails env"
  shows "postgres_Verify env c fr to a =
    (if to = 0 \<and> pg_chain a c = [] then Inr (True, verify_empty)
     else verify_walk GenesisPrevHash (in_range (max 1 fr)
       (if to = 0 then of_nat (length (pg_chain a c)) else to) (pg_chain a c)))"
  unfolding postgres_Verify_def postgres_Verify_between_spec [OF assms(1) assms(1) [unfolded pg_inv_def] assms(2-7)]
    pg_chain_def ..

lemma postgres_Verify_error:
  assumes "last_fails env \<and> to = 0 \<or> read_fails env" "postgres_Verify env c fr to a = Inr r"
  shows "to = 0 \<and> \<not> last_fails env \<and> chain_rows c (rows (server a)) = [] \<and> r = (True, verify_empty)"
  using assms
  by (auto simp: postgres_Verify_unfold Let_def call_def pg_resolveLatestEntryID_def GetLastEntry_last
      split: if_splits sum.splits option.splits)

lemma postgres_LatestEntryID_spec:
  assumes "pg_inv a" "postgres_LatestEntryID env c a = Inr i"
  shows "pg_chain a c \<noteq> [] \<and> i = of_nat (length (pg_chain a c))"
proof -
  have h: "chain_rows c (rows (server a)) \<noteq> []" "i = pgEntryID (gEntryID (last (chain_rows c (rows (server a)))))"
    using assms(2)
    by (auto simp: postgres_LatestEntryID_def pg_resolveLatestEntryID_def call_def wrap_err_def GetLastEntry_last
        split: if_splits sum.splits option.splits)
  with table_last [OF assms(1) [unfolded pg_inv_def], of c] show ?thesis
    by (simp add: next_position_def GetLastEntry_last pg_chain_def table_chain_def)
qed

lemma postgres_GetEntry_spec:
  assumes "pg_inv a" "postgres_GetEntry env c i a = Inr e"
  shows "e \<in> set (pg_chain a c) \<and> ID e = i"
proof -
  obtain r where r: "r \<in> set (rows (server a))" "gChainID r = c" "gEntryID r = toPgEntryID i"
    "postgresEntryToAuditEvent r = Inr e"
    using assms(2)
    by (auto simp: postgres_GetEntry_def GetEntryByID_def call_def wrap_err_def
        split: if_splits sum.splits option.splits dest!: find_SomeD)
  then have e: "e = row_event r" by (simp add: row_event_def)
  have "ID e = i" using ID_row_event [OF assms(1) [unfolded pg_inv_def] r(1)]
    by (simp add: e r(3) pgEntryID_def toPgEntryID_def)
  moreover have "r \<in> set (chain_rows c (rows (server a)))" using r(1,2) by (simp add: set_chain_rows)
  ultimately show ?thesis by (auto simp: e pg_chain_def table_chain_def)
qed

interpretation pg: audit_reader pg_chain pclosed pg_inv pg_now pg_admissible postgres_record_op
  postgres_Verify postgres_GetEntry postgres_LatestEntryID
proof unfold_locales
  fix a a' :: postgresAuditLog and env event r err i c e fr to x
  show "pg_inv a \<Longrightarrow> pg_admissible env event a \<Longrightarrow> postgres_record_op env event a = (a', r) \<Longrightarrow> pg_inv a'"
    using postgres_Record_inv by (auto simp: pg_admissible_def)
  show "pclosed a \<Longrightarrow> postgres_record_op env event a = (a, Inl (Sentinel ErrClosed))"
    by (simp add: postgres_record_op_def postgres_Record_def)
  show "postgres_record_op env event a = (a', r) \<Longrightarrow> pclosed a' = pclosed a"
    by (rule postgres_Record_open)
  show "\<not> pclosed a \<Longrightarrow> Validate event = Inl err \<Longrightarrow>
      postgres_record_op env event a = (a, Inl (Errorf ''graudit: record'' [err]))"
    by (simp add: postgres_record_op_def postgres_Record_def)
  show "pg_admissible env event a \<Longrightarrow> postgres_record_op env event a = (a', Inl err) \<Longrightarrow> pg_chain a' = pg_chain a"
    by (metis pg_admissible_def postgres_Record_error)
  show "pg_inv a \<Longrightarrow> pg_admissible env event a \<Longrightarrow> postgres_record_op env event a = (a', Inr i) \<Longrightarrow>
      \<exists>e. sealed (pg_chain a (ChainID event)) (stamp (pg_now env) event) e \<and> i = ID e \<and>
        pg_chain a' = (pg_chain a)(ChainID event := pg_chain a (ChainID event) @ [e])"
    by (rule postgres_Record_step [of a event env a' "Inr i"]) (auto simp: pg_admissible_def)
  show "pg_inv a \<Longrightarrow> postgres_Verify env c fr to a = Inr x \<Longrightarrow> unat fr < 2 ^ 63 \<Longrightarrow> unat to < 2 ^ 63 \<Longrightarrow>
      if to = 0 \<and> pg_chain a c = [] then x = (True, verify_empty)
      else verify_walk GenesisPrevHash (in_range (max 1 fr)
        (if to = 0 then of_nat (length (pg_chain a c)) else to) (pg_chain a c)) = Inr x"
    by (cases "last_fails env \<and> to = 0 \<or> read_fails env")
      (use postgres_Verify_error [of env to c fr a x] postgres_Verify_spec [of a c fr to env] in
        \<open>auto simp: postgres_Verify_unfold [of env c] pg_chain_def table_chain_def split: if_splits\<close>)
  show "pg_inv a \<Longrightarrow> postgres_GetEntry env c i a = Inr e \<Longrightarrow> unat i < 2 ^ 63 \<Longrightarrow> e \<in> set (pg_chain a c) \<and> ID e = i"
    by (rule postgres_GetEntry_spec)
  show "pg_inv a \<Longrightarrow> postgres_LatestEntryID env c a = Inr i \<Longrightarrow>
      pg_chain a c \<noteq> [] \<and> i = of_nat (length (pg_chain a c))"
    by (rule postgres_LatestEntryID_spec)
qed

section \<open>Properties\<close>

lemma pg_inv_empty: "rows (server a) = [] \<Longrightarrow> keeps_ms (timestamptz (server a)) \<Longrightarrow> pg_inv a"
  by (simp add: pg_inv_def table_inv_def chain_rows_def table_chain_def)

lemma pg_chain_ok: "pg_inv a \<Longrightarrow> chain_ok c (pg_chain a c)"
  by (simp add: pg_inv_def table_inv_def pg_chain_def)

text \<open>
  Starting from an empty table, any sequence of admissible \<^verbatim>\<open>Record\<close> calls, with failures at
  any database call, leaves every chain read back from the table linked from the genesis
  hash, and the positions it handed out for a chain are 1 to the length of the chain: a
  rolled-back transaction leaves no gap.
\<close>

theorem postgres_run_intact:
  assumes "rows (server a) = []" "keeps_ms (timestamptz (server a))"
    and "along_run pg_admissible postgres_record_op calls a" "run_records postgres_record_op calls a = (a', rs)"
  shows "linked GenesisPrevHash (pg_chain a' c) \<and>
    ids_for c calls rs = map (\<lambda>k. of_nat k + 1) [0..<length (pg_chain a' c)]"
proof -
  note inv = pg_inv_empty [OF assms(1,2)]
  have "pg_chain a c = []" using assms(1) by (simp add: pg_chain_def table_chain_def chain_rows_def)
  with pg.run_ids [OF inv assms(3,4), of c] pg_chain_ok [OF pg.run_invar [OF inv assms(3,4)], of c]
  show ?thesis by (simp add: chain_ok_def)
qed

text \<open>
  \<^verbatim>\<open>Verify\<close> over a whole chain of such a table returns valid, and empty exactly for a chain
  without entries, whenever its reads succeed.
\<close>

theorem postgres_verify_accepts:
  assumes "rows (server a) = []" "keeps_ms (timestamptz (server a))" "\<not> pclosed a"
    and "along_run pg_admissible postgres_record_op calls a" "run_records postgres_record_op calls a = (a', rs)"
    and "c \<noteq> []" "\<not> last_fails env" "\<not> read_fails env"
  shows "postgres_Verify env c 1 0 a' = Inr (True, if pg_chain a' c = [] then verify_empty else verify_ok)"
proof -
  note inv = pg_inv_empty [OF assms(1,2)]
  note inv' = pg.run_invar [OF inv assms(4,5)]
  have "\<not> pclosed a'" using pg.run_keeps_open [OF assms(5)] assms(3) by simp
  with postgres_Verify_spec [OF inv' _ assms(6), of 1 0 env] assms(7,8)
  have r: "postgres_Verify env c 1 0 a' = (if pg_chain a' c = [] then Inr (True, verify_empty)
      else verify_walk GenesisPrevHash (in_range 1 (of_nat (length (pg_chain a' c))) (pg_chain a' c)))"
    by simp
  have len: "length (pg_chain a' c) < 2 ^ 64"
    using inv' by (auto simp: pg_inv_def table_inv_def pg_chain_def table_chain_def intro: less_trans [of _ "2 ^ 63"])
  have "verify_walk GenesisPrevHash (pg_chain a' c) = Inr (True, verify_ok)"
    using pg_chain_ok [OF inv', of c] by (simp add: verify_walk_ok_iff chain_ok_def)
  with r in_range_all [OF pg_chain_ok [OF inv'] len] show ?thesis by simp
qed

text \<open>
  C11. \<^verbatim>\<open>Record\<close> is atomic for every pattern of database failures.  The table stays well formed;
  a success appends exactly the sealed event to its chain and returns its position; a
  failure publishes nothing and leaves every chain unchanged, except that a commit left in
  doubt may have stored exactly the sealed event while \<^verbatim>\<open>ErrBackendUnavailable\<close> is returned.
\<close>

theorem postgres_Record_atomic:
  assumes "pg_inv a" "storable (server a) event" "transactional (BeginFunc env)"
    and "postgres_Record env event a = (a', r, fx)"
  shows "pg_inv a' \<and>
    (let appended = (\<lambda>e. sealed (pg_chain a (ChainID event)) (stamp (pg_now env) event) e \<and>
       pg_chain a' = (pg_chain a)(ChainID event := pg_chain a (ChainID event) @ [e]))
     in case r of
       Inr i \<Rightarrow> \<exists>e. appended e \<and> i = ID e
     | Inl err \<Rightarrow> published fx = [] \<and>
         (pg_chain a' = pg_chain a \<or>
          \<not> certain (BeginFunc env) \<and> errors_Is err ErrBackendUnavailable \<and> (\<exists>e. appended e)))"
proof -
  have op: "postgres_record_op env event a = (a', r)" using assms(4) by (simp add: postgres_record_op_def)
  have fx: "r = Inl err \<Longrightarrow> published fx = []" for err
    using assms(4) by (auto simp: postgres_Record_def Let_def split: if_splits sum.splits prod.splits)
  from assms(1-3) op show ?thesis
  proof (cases rule: postgres_Record_step)
    case (unchanged err)
    with assms(1) fx show ?thesis by simp
  next
    case (appended e)
    with fx show ?thesis by (cases r) auto
  qed
qed

lemma pg_query_row:
  assumes "row_ok r" "ns (timestamptz srv (fFrom f)) = ns (fFrom f)" "ns (timestamptz srv (fTo f)) = ns (fTo f)"
  defines "p \<equiv> bind_params srv (query_params f)"
  shows "(gChainID r = qChainID p \<and> null_or (\<lambda>x. gActorID r = x) (qActorID p)
       \<and> null_or (\<lambda>x. gEntityType r = x) (qEntityType p) \<and> null_or (\<lambda>x. gEntityID r = x) (qEntityID p)
       \<and> null_or (\<lambda>t. ns (gTimestamp r) \<ge> ns t) (qFromTs p) \<and> null_or (\<lambda>t. ns (gTimestamp r) \<le> ns t) (qToTs p))
    \<longleftrightarrow> matches f (row_event r)"
proof -
  obtain v where v: "DecodeStoredPayload (gPayload r) = Inr v" using assms(1) by (auto simp: row_ok_def)
  show ?thesis
    using assms(2,3)
    by (auto simp: p_def bind_params_def query_params_def null_or_def matches_def row_event_fields(2) [OF v]
        Before_def After_def not_less)
qed

text \<open>
  C31. \<^verbatim>\<open>Query\<close> on PostgreSQL returns what the contract asks for: the matching entries of the
  chain, oldest first, cut to a positive limit, for time bounds the server represents
  exactly and when the read succeeds.
\<close>

theorem postgres_Query_exact:
  assumes "pg_inv a" "\<not> pclosed a" "fChainID f \<noteq> []" "\<not> read_fails env"
    and "ns (timestamptz (server a) (fFrom f)) = ns (fFrom f)" "ns (timestamptz (server a) (fTo f)) = ns (fTo f)"
  shows "postgres_Query env f a = Inr (limited (fLimit f) (filter (matches f) (pg_chain a (fChainID f))))"
proof -
  let ?p = "bind_params (server a) (query_params f)"
  let ?rs = "chain_rows (fChainID f) (rows (server a))"
  note inv = assms(1) [unfolded pg_inv_def]
  have ok: "\<forall>r \<in> set (rows (server a)). row_ok r" using inv by (simp add: table_inv_def)
  have lim: "qLim ?p = (if fLimit f > 0 then Some (fLimit f) else None)"
    by (simp add: bind_params_def query_params_def)
  have "QueryEntries ?p (rows (server a))
      = limited (fLimit f) (sort_key gEntryID (filter (\<lambda>r. matches f (row_event r)) (rows (server a))))"
    unfolding QueryEntries_def Let_def lim
    using pg_query_row [OF _ assms(5,6)] ok
    by (simp add: limited_def cong: filter_cong)
  also have "filter (\<lambda>r. matches f (row_event r)) (rows (server a))
      = filter (\<lambda>r. matches f (row_event r)) (filter (\<lambda>r. gChainID r = fChainID f) (rows (server a)))"
  proof -
    have "matches f (row_event r) \<Longrightarrow> gChainID r = fChainID f" if "r \<in> set (rows (server a))" for r
      using ok that by (auto simp: row_ok_def matches_def row_event_fields(2))
    then show ?thesis by (auto intro: filter_cong)
  qed
  also have "sort_key gEntryID \<dots> = filter (\<lambda>r. matches f (row_event r)) ?rs"
    by (simp add: chain_rows_def filter_sort)
  finally have q: "QueryEntries ?p (rows (server a)) = limited (fLimit f) (filter (\<lambda>r. matches f (row_event r)) ?rs)" .
  have "map postgresEntryToAuditEvent xs = map Inr (map row_event xs)" if "set xs \<subseteq> set (rows (server a))" for xs
    using that ok by (auto intro: row_ok_event)
  moreover have "set (QueryEntries ?p (rows (server a))) \<subseteq> set (rows (server a))"
    unfolding q limited_def by (auto simp: set_chain_rows dest!: in_set_takeD)
  ultimately have "collect (map postgresEntryToAuditEvent (QueryEntries ?p (rows (server a))))
      = Inr (map row_event (QueryEntries ?p (rows (server a))))" by (metis collect_Inr)
  moreover have "map row_event (QueryEntries ?p (rows (server a)))
      = limited (fLimit f) (filter (matches f) (pg_chain a (fChainID f)))"
    unfolding q by (simp add: limited_def pg_chain_def table_chain_def filter_map comp_def take_map)
  ultimately show ?thesis using assms(2-4) by (simp add: postgres_Query_def call_def)
qed

text \<open>
  C35. After any sequence of admissible \<^verbatim>\<open>Record\<close> calls on an initially empty table (payloads
  that \<^verbatim>\<open>jsonb\<close> gives back as the same JSON, room for the position, no commit in doubt; any other
  failure), the hash columns, declared \<^verbatim>\<open>CHAR(64)\<close>, hold exactly 64 lower-case hexadecimal
  digits, so that the server neither pads nor cuts them, positions are positive \<^verbatim>\<open>bigint\<close>s that
  survive the conversion to \<^verbatim>\<open>EntryID\<close> and back, and every row can be read back.
\<close>

theorem postgres_row_types:
  assumes "rows (server a0) = []" "keeps_ms (timestamptz (server a0))"
    and "along_run pg_admissible postgres_record_op calls a0" "run_records postgres_record_op calls a0 = (a, rs)"
    and "r \<in> set (rows (server a))"
  shows "hex64 (gHash r) \<and> hex64 (gPrevHash r) \<and> 1 \<le> gEntryID r \<and> gEntryID r < 2 ^ 63 \<and>
    postgresEntryToAuditEvent r = Inr (row_event r) \<and> toPgEntryID (ID (row_event r)) = gEntryID r"
proof -
  note inv = pg.run_invar [OF pg_inv_empty [OF assms(1,2)] assms(3,4), unfolded pg_inv_def]
  let ?c = "gChainID r"
  have ok: "row_ok r" using inv assms(5) by (simp add: table_inv_def)
  have mem: "row_event r \<in> set (table_chain (server a) ?c)"
    using assms(5) by (auto simp: table_chain_def set_chain_rows)
  have "linked GenesisPrevHash (table_chain (server a) ?c)" using inv by (simp add: table_inv_def chain_ok_def)
  from linked_hex64 [OF this GenesisPrevHash_hex64 mem] ok
  have "hex64 (gHash r)" "hex64 (gPrevHash r)" by (auto simp: row_ok_def row_event_fields(2))
  moreover note id = table_gEntryID [OF inv assms(5)]
  moreover have "toPgEntryID (ID (row_event r)) = gEntryID r"
  proof -
    obtain n where n: "gEntryID r = int n" using id(1) by (cases "gEntryID r") auto
    then show ?thesis
      using ID_row_event [OF inv assms(5)] toPg_of_nat [of n] id(2) by (simp add: pgEntryID_def)
  qed
  ultimately show ?thesis using row_ok_event [OF ok] by blast
qed

lemma toPg_negative: "2 ^ 63 \<le> unat i \<Longrightarrow> toPgEntryID i < 0"
proof -
  assume "2 ^ 63 \<le> unat i"
  then have "int (2 ^ 63) \<le> int (unat i)" by (simp only: of_nat_le_iff)
  then have i: "2 ^ 63 \<le> uint i" "uint i < 2 ^ 64" using uint_bounded [of i] by simp_all
  have "sint i = sint (word_of_int (uint i) :: EntryID)" by simp
  also have "\<dots> = (uint i + 2 ^ 63) mod 2 ^ 64 - 2 ^ 63" by (subst int_word_sint) simp
  also have "(uint i + 2 ^ 63) mod 2 ^ 64 = (uint i - 2 ^ 63 + 2 ^ 64) mod 2 ^ 64"
    by (simp add: add.commute)
  also have "\<dots> = uint i - 2 ^ 63" unfolding mod_add_self2 using i by (intro mod_pos_pos_trivial) auto
  finally show ?thesis using i(2) by (simp add: toPgEntryID_def)
qed

text \<open>
  C36. The conversions between positions and the \<^verbatim>\<open>BIGINT\<close> column lose nothing, and keep the order
  for positions below 2^63; a position from 2^63 on becomes a negative number.
\<close>

theorem pg_entry_id_conversion:
  "pgEntryID (toPgEntryID i) = i \<and> (toPgEntryID i < 0 \<longleftrightarrow> 2 ^ 63 \<le> unat i) \<and>
   - (2 ^ 63) \<le> toPgEntryID i \<and> toPgEntryID i < 2 ^ 63 \<and>
   (unat i < 2 ^ 63 \<and> unat j < 2 ^ 63 \<longrightarrow> (toPgEntryID i \<le> toPgEntryID j \<longleftrightarrow> i \<le> j))"
proof -
  have small: "toPgEntryID x = int (unat x)" if "unat x < 2 ^ 63" for x
    using toPg_of_nat [OF that] by simp
  have "toPgEntryID i < 0 \<longleftrightarrow> 2 ^ 63 \<le> unat i" using small [of i] toPg_negative [of i] by (auto simp: not_less [symmetric])
  moreover have "- (2 ^ 63) \<le> toPgEntryID i \<and> toPgEntryID i < 2 ^ 63"
    using sint_greater_eq [of i] sint_less [of i] by (simp add: toPgEntryID_def)
  moreover have "unat i < 2 ^ 63 \<and> unat j < 2 ^ 63 \<longrightarrow> (toPgEntryID i \<le> toPgEntryID j \<longleftrightarrow> i \<le> j)"
  proof
    assume h: "unat i < 2 ^ 63 \<and> unat j < 2 ^ 63"
    show "toPgEntryID i \<le> toPgEntryID j \<longleftrightarrow> i \<le> j"
      unfolding small [OF conjunct1 [OF h]] small [OF conjunct2 [OF h]] word_le_nat_alt of_nat_le_iff ..
  qed
  ultimately show ?thesis by (simp add: pgEntryID_def toPgEntryID_def)
qed

text \<open>
  C40. A verification whose upper bound is 2^63 or more checks nothing: the bound becomes a
  negative \<^verbatim>\<open>int64\<close>, no row is in range, and the chain is reported valid whatever the
  table holds at positive positions.
\<close>

theorem postgres_verify_huge_bound:
  assumes "\<not> pclosed a" "c \<noteq> []" "\<not> read_fails env" "2 ^ 63 \<le> unat to"
    and "\<forall>r \<in> set (rows (server a)). 0 < gEntryID r"
  shows "postgres_Verify env c fr to a = Inr (True, verify_ok)"
proof -
  have "toPgEntryID to < 0" using toPg_negative [OF assms(4)] .
  then have "\<forall>r \<in> set (rows (server a)). \<not> gEntryID r \<le> toPgEntryID to" using assms(5) by force
  then have "ListEntriesInRange c i (toPgEntryID to) (rows (server a)) = []" for i
    by (auto simp: ListEntriesInRange_def filter_empty_conv)
  moreover have "to \<noteq> 0" using assms(4) by auto
  ultimately show ?thesis using assms(1-3) by (simp add: postgres_Verify_unfold Let_def call_def)
qed

text \<open>
  A log is only constructed from a configuration with exactly one of a DSN and a pool,
  over a server that answers a ping; it owns, and closes at its first \<^verbatim>\<open>Close\<close>, the pool opened for a
  DSN and never a caller's pool, and afterwards its methods return \<^verbatim>\<open>ErrClosed\<close>.
\<close>

theorem postgres_construct_and_close:
  assumes "NewPostgresAuditLog px cfg = (Inr a, fx)" "postgres_Close a = (a', fx')"
  shows "(DSN cfg = []) \<noteq> (Pool cfg = None) \<and> Ping px (server a) \<and> server a' = server a \<and>
    \<not> pclosed a \<and> poolClosed a' = (Pool cfg = None) \<and> postgres_Close a' = (a', []) \<and>
    fst (snd (postgres_Record env event a')) = Inl (Sentinel ErrClosed) \<and>
    postgres_Verify env c fr to a' = Inl (Sentinel ErrClosed) \<and>
    postgres_Query env f a' = Inl (Sentinel ErrClosed) \<and>
    postgres_GetEntry env c i a' = Inl (Sentinel ErrClosed) \<and>
    postgres_LatestEntryID env c a' = Inl (Sentinel ErrClosed)"
proof -
  obtain pool owns where conn: "fst (connectPostgres px cfg ''AuditLog'') = Inr (pool, owns)"
    and a: "a = \<lparr>server = pool, plogger = OrNop (cfgLogger cfg), pbus = cfgEventBus cfg, ownsPool = owns,
      poolClosed = False, pclosed = False, pcloseOnce = False\<rparr>"
    using assms(1) by (auto simp: NewPostgresAuditLog_def Let_def split: sum.splits prod.splits)
  have "(DSN cfg = []) \<noteq> (Pool cfg = None)" "Ping px pool" "owns = (Pool cfg = None)"
    using conn by (auto simp: connectPostgres_def split: if_splits option.splits)
  moreover have a': "a' = a\<lparr>pclosed := True, pcloseOnce := True, poolClosed := owns\<rparr>"
    using assms(2) by (simp add: postgres_Close_def a)
  ultimately show ?thesis
    by (simp add: a' a postgres_Close_def postgres_Record_def postgres_Verify_unfold postgres_Query_def
        postgres_GetEntry_def postgres_LatestEntryID_def)
qed

text \<open>
  Connection failures are reported as \<^verbatim>\<open>ErrBackendUnavailable\<close>; a configuration with neither or
  both of a DSN and a pool is refused with an error that is none of the sentinels.
\<close>

theorem connectPostgres_errors:
  assumes "connectPostgres px cfg component = (Inl err, fx)"
  shows "errors_Is err s \<longleftrightarrow> s = ErrBackendUnavailable \<and> (DSN cfg = []) \<noteq> (Pool cfg = None)"
  using assms by (auto simp: connectPostgres_def unavailable_def split: if_splits option.splits)

text \<open>
  No pool is leaked and no caller's pool is closed: a construction that fails has closed
  every pool it opened, for whatever reason it fails; one that succeeds opened one exactly
  when it was given no pool, and the first \<^verbatim>\<open>Close\<close> closes exactly that, a later one nothing.
\<close>

theorem postgres_pool_released:
  "case NewPostgresAuditLog px cfg of
     (Inl err, fx) \<Rightarrow> count_list fx PoolOpened = count_list fx PoolClosed
   | (Inr a, fx) \<Rightarrow>
       (let (a', fx') = postgres_Close a; n = (if Pool cfg = None then 1 else 0) in
        count_list fx PoolOpened = n \<and> PoolClosed \<notin> set fx \<and>
        PoolOpened \<notin> set fx' \<and> count_list fx' PoolClosed = n \<and> postgres_Close a' = (a', []))"
  by (auto simp: NewPostgresAuditLog_def connectPostgres_def postgres_Close_def Let_def
      split: if_splits option.splits)

section \<open>Witnesses\<close>

text \<open>A server that stores JSON text as it is and timestamps to the microsecond.\<close>

definition sample_server :: pg_server where
  "sample_server = \<lparr>rows = [], jsonb = (\<lambda>raw. raw), timestamptz = Truncate 1000\<rparr>"

definition sample_pg :: postgresAuditLog where
  "sample_pg = \<lparr>server = sample_server, plogger = NopLogger, pbus = None, ownsPool = True, poolClosed = False,
     pclosed = False, pcloseOnce = False\<rparr>"

definition good_env :: pg_env where
  "good_env = \<lparr>pg_now = sample_time, lock_fails = False, last_fails = False, insert_fails = False,
     read_fails = False, BeginFunc = commit_always\<rparr>"

lemma sample_pg_simps:
  "rows (server sample_pg) = []" "keeps_ms (timestamptz (server sample_pg))" "\<not> pclosed sample_pg"
  "pg_admissible good_env sample_event sample_pg" "\<not> last_fails good_env" "\<not> read_fails good_env"
  by (simp_all add: sample_pg_def sample_server_def keeps_ms_Truncate pg_admissible_def storable_def payload_kept_def
      good_env_def event_simps chain_rows_def example_drivers)

lemma sample_pg_inv: "pg_inv sample_pg"
  by (rule pg_inv_empty [OF sample_pg_simps(1,2)])

definition pg_calls :: "(pg_env \<times> AuditEvent) list" where
  "pg_calls = [(good_env, sample_event), (good_env\<lparr>insert_fails := True\<rparr>, sample_event)]"

lemma sample_pg_record:
  "\<exists>r. rows (server (fst (postgres_record_op good_env sample_event sample_pg))) = [r] \<and> gChainID r = ''tenant-1''"
  "\<not> isl (snd (postgres_record_op good_env sample_event sample_pg))"
  "timestamptz (server (fst (postgres_record_op good_env sample_event sample_pg))) = Truncate 1000"
  by (simp_all add: postgres_record_op_def postgres_Record_def record_tx_def next_position_def entry_params_def
      commit_always_def call_def GetLastEntry_def chain_rows_def InsertEntry_def ComputeHash_def canonicalJSON_def
      marshalPayload_def event_simps sample_pg_def sample_server_def good_env_def)

lemma insert_fails_unchanged:
  assumes "insert_fails env" "BeginFunc env = commit_always"
  shows "fst (postgres_record_op env event a) = a"
proof -
  have "\<exists>err. record_tx env ev raw srv = Inl err" for ev raw srv
    using assms(1) by (auto simp: record_tx_def Let_def split: sum.splits prod.splits)
  then have "srv' = srv \<and> (\<exists>err. r = Inl err)"
    if "BeginFunc env (record_tx env ev raw) srv = (srv', r)" for ev raw srv srv' r
    using that by (auto simp: assms(2) commit_always_def split: sum.splits prod.splits) (metis Inl_Inr_False)+
  then show ?thesis
    unfolding postgres_record_op_def postgres_Record_def Let_def by (fastforce split: sum.splits prod.splits)
qed

lemma sample_pg_run:
  "along_run pg_admissible postgres_record_op pg_calls sample_pg"
  "length (pg_chain (fst (run_records postgres_record_op pg_calls sample_pg)) ''tenant-1'') = 1"
  "timestamptz (server (fst (run_records postgres_record_op pg_calls sample_pg))) = Truncate 1000"
proof -
  let ?a = "fst (postgres_record_op good_env sample_event sample_pg)"
  obtain r where r: "rows (server ?a) = [r]" "gChainID r = ''tenant-1''" using sample_pg_record(1) by blast
  have "BeginFunc good_env = commit_always" by (simp add: good_env_def)
  then have adm: "pg_admissible (good_env\<lparr>insert_fails := True\<rparr>) sample_event ?a"
    by (simp add: pg_admissible_def storable_def payload_kept_def r chain_rows_def event_simps example_drivers)
  show "along_run pg_admissible postgres_record_op pg_calls sample_pg"
    using adm sample_pg_simps(4) by (simp add: pg_calls_def)
  have same: "fst (postgres_record_op (good_env\<lparr>insert_fails := True\<rparr>) sample_event ?a) = ?a"
    by (rule insert_fails_unchanged) (simp_all add: good_env_def)
  then show "length (pg_chain (fst (run_records postgres_record_op pg_calls sample_pg)) ''tenant-1'') = 1"
    by (simp add: pg_calls_def case_prod_beta Let_def pg_chain_def table_chain_def chain_rows_def r)
  show "timestamptz (server (fst (run_records postgres_record_op pg_calls sample_pg))) = Truncate 1000"
    using same sample_pg_record(3) by (simp add: pg_calls_def case_prod_beta Let_def)
qed

lemma pg_run_pair:
  "run_records postgres_record_op pg_calls sample_pg
     = (fst (run_records postgres_record_op pg_calls sample_pg), snd (run_records postgres_record_op pg_calls sample_pg))"
  by simp

theorem postgres_run_intact_witness:
  "linked GenesisPrevHash (pg_chain (fst (run_records postgres_record_op pg_calls sample_pg)) ''tenant-1'') \<and>
   ids_for ''tenant-1'' pg_calls (snd (run_records postgres_record_op pg_calls sample_pg)) = [1]"
  using postgres_run_intact [OF sample_pg_simps(1,2) sample_pg_run(1) pg_run_pair, of "''tenant-1''"]
    sample_pg_run(2) by simp

lemma sample_pg_row:
  obtains r where "rows (server (fst (run_records postgres_record_op pg_calls sample_pg))) = [r]"
    "gChainID r = ''tenant-1''" "gEntryID r = 1"
proof -
  let ?a = "fst (run_records postgres_record_op pg_calls sample_pg)"
  have same: "?a = fst (postgres_record_op good_env sample_event sample_pg)"
    using insert_fails_unchanged [of "good_env\<lparr>insert_fails := True\<rparr>"]
    by (simp add: pg_calls_def case_prod_beta Let_def good_env_def)
  obtain r where r: "rows (server ?a) = [r]" "gChainID r = ''tenant-1''" using sample_pg_record(1) unfolding same by blast
  have "pg_inv ?a" by (rule pg.run_invar [OF sample_pg_inv sample_pg_run(1) pg_run_pair])
  then have "map gEntryID (chain_rows ''tenant-1'' (rows (server ?a)))
      = map (\<lambda>k. int (Suc k)) [0..<length (chain_rows ''tenant-1'' (rows (server ?a)))]"
    unfolding pg_inv_def table_inv_def by blast
  then have "gEntryID r = 1" by (simp add: r chain_rows_def)
  with r that show thesis by blast
qed

theorem postgres_row_types_witness:
  "\<exists>r. rows (server (fst (run_records postgres_record_op pg_calls sample_pg))) = [r] \<and> hex64 (gHash r)"
proof -
  obtain r where r: "rows (server (fst (run_records postgres_record_op pg_calls sample_pg))) = [r]"
    by (rule sample_pg_row)
  with postgres_row_types [OF sample_pg_simps(1,2) sample_pg_run(1) pg_run_pair, of r] show ?thesis by simp
qed

theorem postgres_verify_accepts_witness:
  "postgres_Verify good_env ''tenant-1'' 1 0 (fst (run_records postgres_record_op pg_calls sample_pg))
     = Inr (True, verify_ok)"
  using postgres_verify_accepts [OF sample_pg_simps(1-3) sample_pg_run(1) pg_run_pair _ sample_pg_simps(5,6),
      of "''tenant-1''"] sample_pg_run(2) by auto

theorem postgres_Record_atomic_witness:
  "let (a', r, fx) = postgres_Record (good_env\<lparr>BeginFunc := commit_never\<rparr>) sample_event sample_pg
   in pg_inv a' \<and> (case r of Inr i \<Rightarrow> True | Inl err \<Rightarrow> published fx = [] \<and> pg_chain a' = pg_chain sample_pg)"
proof -
  obtain a' r fx where rec: "postgres_Record (good_env\<lparr>BeginFunc := commit_never\<rparr>) sample_event sample_pg = (a', r, fx)"
    by (metis prod_cases3)
  have "storable (server sample_pg) sample_event" using sample_pg_simps(4) by (simp add: pg_admissible_def)
  from postgres_Record_atomic [OF sample_pg_inv this _ rec] show ?thesis
    by (auto simp: rec example_drivers split: sum.splits)
qed

theorem postgres_Query_exact_witness:
  "let a = fst (run_records postgres_record_op pg_calls sample_pg)
   in postgres_Query good_env (whole_chain ''tenant-1'') a = Inr (pg_chain a ''tenant-1'') \<and>
      length (pg_chain a ''tenant-1'') = 1"
proof -
  let ?a = "fst (run_records postgres_record_op pg_calls sample_pg)" and ?f = "whole_chain ''tenant-1''"
  have inv: "pg_inv ?a" by (rule pg.run_invar [OF sample_pg_inv sample_pg_run(1) pg_run_pair])
  have op: "\<not> pclosed ?a" using pg.run_keeps_open [OF pg_run_pair] sample_pg_simps(3) by simp
  have tz: "timestamptz (server ?a) = Truncate 1000" by (rule sample_pg_run(3))
  have "postgres_Query good_env ?f ?a
      = Inr (limited (fLimit ?f) (filter (matches ?f) (pg_chain ?a (fChainID ?f))))"
    by (rule postgres_Query_exact [OF inv op _ sample_pg_simps(6)])
      (simp_all add: whole_chain_def tz Truncate_def zero_time_def)
  also have "fChainID ?f = ''tenant-1''" by (simp add: whole_chain_def)
  finally show ?thesis using query_whole_chain [OF pg_chain_ok [OF inv]] sample_pg_run(2) by (simp add: Let_def)
qed

theorem pg_entry_id_conversion_witness:
  "toPgEntryID 3 \<le> toPgEntryID 7 \<and> toPgEntryID (2 ^ 63) < 0"
  using pg_entry_id_conversion [of 3 7] pg_entry_id_conversion [of "2 ^ 63" 7] by simp

text \<open>A stored row with a forged hash, reported by a verification of the chain and not by one with a huge bound.\<close>

theorem postgres_verify_huge_bound_witness:
  "\<exists>a. length (rows (server a)) = 1 \<and>
     postgres_Verify good_env ''tenant-1'' 1 0 a = Inr (False, verify_broken 1 GenesisPrevHash ''forged'') \<and>
     postgres_Verify good_env ''tenant-1'' 1 (2 ^ 63) a = Inr (True, verify_ok)"
proof -
  obtain r where r: "rows (server (fst (run_records postgres_record_op pg_calls sample_pg))) = [r]"
    "gChainID r = ''tenant-1''" "gEntryID r = 1" by (rule sample_pg_row)
  let ?r = "r\<lparr>gPrevHash := ''forged''\<rparr>"
  let ?a = "sample_pg\<lparr>server := sample_server\<lparr>rows := [?r]\<rparr>\<rparr>"
  have opn: "\<not> pclosed ?a" using sample_pg_simps(3) by simp
  have one: "toPgEntryID 1 = 1" using toPg_of_nat [of 1] by simp
  have "GenesisPrevHash \<noteq> ''forged''" by (auto simp: GenesisPrevHash_def dest: arg_cong [of _ _ length])
  then have "postgres_Verify good_env ''tenant-1'' 1 0 ?a = Inr (False, verify_broken 1 GenesisPrevHash ''forged'')"
    using opn sample_pg_simps(5,6)
    by (simp add: postgres_Verify_unfold pg_resolveLatestEntryID_def call_def Let_def GetLastEntry_def chain_rows_def
        ListEntriesInRange_def r one pgEntryID_def)
  moreover have "postgres_Verify good_env ''tenant-1'' 1 (2 ^ 63) ?a = Inr (True, verify_ok)"
    by (rule postgres_verify_huge_bound [OF opn _ sample_pg_simps(6)]) (simp_all add: r)
  moreover have "length (rows (server ?a)) = 1" by simp
  ultimately show ?thesis by blast
qed

definition sample_pgxpool :: pgxpool where
  "sample_pgxpool = \<lparr>ParseConfig = (\<lambda>dsn. Some \<lparr>MaxConns = 4, MinConns = 0, MaxConnLifetime = 3600\<rparr>),
     NewWithConfig = (\<lambda>pc. Some sample_server), Ping = (\<lambda>srv. True)\<rparr>"

definition sample_config :: PostgresConfig where
  "sample_config = \<lparr>DSN = ''postgres://db'', Pool = None, cfgMaxConns = 10, cfgMinConns = 0,
     cfgMaxConnLifetime = 0, cfgLogger = None, cfgEventBus = None\<rparr>"

theorem postgres_construct_and_close_witness:
  "\<exists>a fx. NewPostgresAuditLog sample_pgxpool sample_config = (Inr a, fx) \<and> poolClosed (fst (postgres_Close a))"
proof -
  obtain a fx where a: "NewPostgresAuditLog sample_pgxpool sample_config = (Inr a, fx)"
    by (simp add: NewPostgresAuditLog_def connectPostgres_def sample_pgxpool_def sample_config_def Let_def)
  from postgres_construct_and_close [OF a, of "fst (postgres_Close a)" "snd (postgres_Close a)"] a
  show ?thesis by (auto simp: sample_config_def)
qed

theorem connectPostgres_errors_witness:
  "\<exists>err. fst (connectPostgres sample_pgxpool (sample_config\<lparr>DSN := []\<rparr>) ''AuditLog'') = Inl err \<and> \<not> errors_Is err ErrBackendUnavailable"
proof -
  obtain err where e: "connectPostgres sample_pgxpool (sample_config\<lparr>DSN := []\<rparr>) ''AuditLog'' = (Inl err, [])"
    by (simp add: connectPostgres_def sample_config_def)
  from connectPostgres_errors [OF this, of ErrBackendUnavailable] e show ?thesis by (simp add: sample_config_def)
qed

end
