(* ===== verification/Mongo.thy ===== *)
theory Mongo
  imports Database
begin

text \<open>
  \<^verbatim>\<open>mongo.go\<close>: the MongoDB backend.  A deployment is the list of entry documents, the
  chain-state documents by their \<^verbatim>\<open>_id\<close>, and the indexes created on the entries.  How the
  driver represents a \<^verbatim>\<open>time.Time\<close> and which \<^verbatim>\<open>uint64\<close> it can encode are parameters kept with it.
  Sessions, transactions and the outcome of every driver call come with the environment of an
  operation; the callback of \<^verbatim>\<open>Record\<close> takes the number of the attempt, because the driver may
  run it again and each attempt meets its own failures.

  \<open>mongo_inv\<close> ties the chain-state document of every chain to the last entry of the chain;
  the interpretation \<open>mg\<close> shows that the backend keeps the contract of \<^verbatim>\<open>AuditLog\<close>.
\<close>

section \<open>Documents and collections\<close>

definition defaultCollection :: string where
  "defaultCollection = ''graudit_entries''"

record entryDocument =
  dChainID :: string
  dEntryID :: EntryID
  dActorID :: string
  dEntityType :: string
  dEntityID :: string
  dAction :: string
  dPayload :: string
  dTimestamp :: gotime
  dHash :: string
  dPrevHash :: string

definition toAuditEvent :: "entryDocument \<Rightarrow> AuditEvent result" where
  "toAuditEvent d =
     (case DecodeStoredPayload (dPayload d) of
        Inl err \<Rightarrow> Inl err
      | Inr payload \<Rightarrow>
          Inr \<lparr>ChainID = dChainID d, ID = dEntryID d, ActorID = dActorID d, EntityType = dEntityType d,
            EntityID = dEntityID d, Action = dAction d, Payload = payload, Timestamp = UTC (dTimestamp d),
            Hash = dHash d, PrevHash = dPrevHash d\<rparr>)"

record mongoChainState =
  sID :: string
  LastEntryID :: EntryID
  LastHash :: string

datatype bson = BString string | BInt EntryID | BTime gotime

definition doc_field :: "entryDocument \<Rightarrow> string \<Rightarrow> bson" where
  "doc_field d k =
     (if k = ''chainId'' then BString (dChainID d)
      else if k = ''entryId'' then BInt (dEntryID d)
      else if k = ''actorId'' then BString (dActorID d)
      else if k = ''entityType'' then BString (dEntityType d)
      else if k = ''entityId'' then BString (dEntityID d)
      else BTime (dTimestamp d))"

record IndexModel =
  Keys :: "string list"
  Unique :: bool

record mongo_server =
  docs :: "entryDocument list"
  chain_state :: "string \<Rightarrow> mongoChainState option"
  indexes :: "IndexModel list"
  bson_time :: "gotime \<Rightarrow> gotime"
  bson_uint64 :: "EntryID \<Rightarrow> bool"

text \<open>An insert is refused when a unique index already holds its key, or when it cannot be encoded.\<close>

definition InsertOne :: "entryDocument \<Rightarrow> mongo_server \<Rightarrow> mongo_server option" where
  "InsertOne d srv =
     (if \<not> bson_uint64 srv (dEntryID d) then None
      else if list_ex (\<lambda>ix. Unique ix \<and>
          list_ex (\<lambda>q. map (doc_field q) (Keys ix) = map (doc_field d) (Keys ix)) (docs srv)) (indexes srv) then None
      else Some (srv\<lparr>docs := docs srv @ [d]\<rparr>))"

definition ReplaceOne :: "string \<Rightarrow> mongoChainState \<Rightarrow> mongo_server \<Rightarrow> mongo_server option" where
  "ReplaceOne c st srv =
     (if \<not> bson_uint64 srv (LastEntryID st) then None
      else Some (srv\<lparr>chain_state := (chain_state srv)(c \<mapsto> st)\<rparr>))"

definition chain_docs :: "string \<Rightarrow> entryDocument list \<Rightarrow> entryDocument list" where
  "chain_docs c ds = sort_key dEntryID (filter (\<lambda>d. dChainID d = c) ds)"

record mongo_env =
  m_now :: gotime
  session_fails :: bool
  tail_fails :: "nat \<Rightarrow> bool"
  insertOne_fails :: "nat \<Rightarrow> bool"
  replace_fails :: "nat \<Rightarrow> bool"
  WithTransaction :: "(nat \<Rightarrow> mongo_server \<Rightarrow> (mongo_server \<times> AuditEvent) result) \<Rightarrow> mongo_server
    \<Rightarrow> mongo_server \<times> AuditEvent result"
  latest_fails :: bool
  find_fails :: bool
  cursor_fails :: bool

record mongoAuditLog =
  client :: mongo_server
  mlogger :: Logger
  mbus :: "bus option"
  mclosed :: bool
  mcloseOnce :: bool

section \<open>Record and RecordChange\<close>

text \<open>Where the next entry goes, given the chain-state document.\<close>

definition next_tail :: "mongoChainState option \<Rightarrow> string \<times> EntryID" where
  "next_tail found =
     (case found of
        Some t \<Rightarrow> (LastHash t, LastEntryID t + 1)
      | None \<Rightarrow> (GenesisPrevHash, 1))"

text \<open>The callback \<^verbatim>\<open>Record\<close> passes to \<^verbatim>\<open>WithTransaction\<close>, as run at one attempt.\<close>

definition mongo_record_tx ::
  "mongo_env \<Rightarrow> AuditEvent \<Rightarrow> string \<Rightarrow> nat \<Rightarrow> mongo_server \<Rightarrow> (mongo_server \<times> AuditEvent) result" where
  "mongo_record_tx env event payloadBytes attempt srv =
     (case call (tail_fails env attempt) (chain_state srv (ChainID event)) of
        Inl tailErr \<Rightarrow> Inl tailErr
      | Inr found \<Rightarrow>
        (let (prevHash, nextID) = next_tail found
         in case ComputeHash (ChainID event) nextID (ActorID event) (EntityType event) (EntityID event)
                (Action event) (Payload event) (Timestamp event) prevHash of
              Inl err \<Rightarrow> Inl err
            | Inr hash \<Rightarrow>
              (case (if insertOne_fails env attempt then None else InsertOne
                  \<lparr>dChainID = ChainID event, dEntryID = nextID, dActorID = ActorID event,
                   dEntityType = EntityType event, dEntityID = EntityID event, dAction = Action event,
                   dPayload = payloadBytes, dTimestamp = bson_time srv (Timestamp event),
                   dHash = hash, dPrevHash = prevHash\<rparr> srv) of
                 None \<Rightarrow> Inl driver_error
               | Some srv1 \<Rightarrow>
                 (case (if replace_fails env attempt then None else ReplaceOne (ChainID event)
                     \<lparr>sID = ChainID event, LastEntryID = nextID, LastHash = hash\<rparr> srv1) of
                    None \<Rightarrow> Inl driver_error
                  | Some srv2 \<Rightarrow> Inr (srv2, event\<lparr>ID := nextID, Hash := hash, PrevHash := prevHash\<rparr>)))))"

definition mongo_Record ::
  "mongo_env \<Rightarrow> AuditEvent \<Rightarrow> mongoAuditLog \<Rightarrow> mongoAuditLog \<times> EntryID result \<times> effect list" where
  "mongo_Record env event a =
     (if mclosed a then (a, Inl (Sentinel ErrClosed), [])
      else case Validate event of
        Inl err \<Rightarrow> (a, Inl (Errorf ''graudit: record'' [err]), [])
      | Inr _ \<Rightarrow>
        (let event = (if IsZero (Timestamp event) then event\<lparr>Timestamp := UTC (m_now env)\<rparr> else event)
         in case marshalPayload (Payload event) of
              Inl err \<Rightarrow> (a, Inl (Errorf ''graudit: record'' [err]), [])
            | Inr payloadBytes \<Rightarrow>
              if session_fails env
              then (a, Inl (Errorf ''graudit: record'' [Sentinel ErrBackendUnavailable]), [])
              else
                (case WithTransaction env (mongo_record_tx env event payloadBytes) (client a) of
                   (srv, Inl err) \<Rightarrow>
                     (a\<lparr>client := srv\<rparr>, Inl (Errorf ''graudit: record'' [Sentinel ErrBackendUnavailable]), [])
                 | (srv, Inr recorded) \<Rightarrow>
                     (a\<lparr>client := srv\<rparr>, Inr (ID recorded), PublishRecorded (mbus a) (mlogger a) recorded))))"

definition mongo_RecordChange ::
  "mongo_env \<Rightarrow> key_order \<Rightarrow> string \<Rightarrow> string \<Rightarrow> string \<Rightarrow> string \<Rightarrow> goval \<Rightarrow> goval \<Rightarrow> mongoAuditLog
     \<Rightarrow> mongoAuditLog \<times> EntryID result \<times> effect list" where
  "mongo_RecordChange env visit chainID actorID entityType entityID before after a =
     (case BuildChangeEvent visit chainID actorID entityType entityID before after of
        Inl err \<Rightarrow> (a, Inl (Errorf ''graudit: record change'' [err]), [])
      | Inr event \<Rightarrow> mongo_Record env event a)"

section \<open>Verify\<close>

definition mongo_resolveLatestEntryID :: "mongo_env \<Rightarrow> string \<Rightarrow> mongoAuditLog \<Rightarrow> EntryID result" where
  "mongo_resolveLatestEntryID env chainID a =
     (case call (latest_fails env) (chain_state (client a) chainID) of
        Inr None \<Rightarrow> Inl (Sentinel ErrEntryNotFound)
      | Inl err \<Rightarrow> Inl (Sentinel ErrBackendUnavailable)
      | Inr (Some t) \<Rightarrow> Inr (LastEntryID t))"

text \<open>A \<^verbatim>\<open>Find\<close> and reading its cursor to the end, over the documents its filter selects.\<close>

definition find_all :: "mongo_env \<Rightarrow> bool \<Rightarrow> (entryDocument \<Rightarrow> bool) \<Rightarrow> mongo_server \<Rightarrow> entryDocument list result" where
  "find_all env encodes sel srv =
     (if \<not> encodes \<or> find_fails env then Inl driver_error
      else call (cursor_fails env) (sort_key dEntryID (filter sel (docs srv))))"

fun mongo_verify_loop :: "nat \<Rightarrow> string \<Rightarrow> entryDocument list \<Rightarrow> (bool \<times> VerifyResult) result" where
  "mongo_verify_loop i prevHash [] = Inr (True, verify_ok)"
| "mongo_verify_loop i prevHash (doc # ds) =
     (let expectPrev = (if i > 0 then prevHash else GenesisPrevHash) in
      if dPrevHash doc \<noteq> expectPrev
      then Inr (False, verify_broken (dEntryID doc) expectPrev (dPrevHash doc))
      else case DecodeStoredPayload (dPayload doc) of
        Inl err \<Rightarrow> Inl (Errorf ''graudit: verify'' [err])
      | Inr payload \<Rightarrow>
        (case ComputeHash (dChainID doc) (dEntryID doc) (dActorID doc) (dEntityType doc)
               (dEntityID doc) (dAction doc) payload (dTimestamp doc) (dPrevHash doc) of
          Inl err \<Rightarrow> Inl (Errorf ''graudit: verify'' [err])
        | Inr recomputed \<Rightarrow>
            if recomputed \<noteq> dHash doc
            then Inr (False, verify_broken (dEntryID doc) recomputed (dHash doc))
            else mongo_verify_loop (i + 1) (dHash doc) ds))"

text \<open>
  As on PostgreSQL, \<^verbatim>\<open>Verify\<close> reads the chain-state document first and the entries later; \<open>srv\<close> is the
  deployment its \<^verbatim>\<open>Find\<close> reads, and \<open>mongo_Verify\<close> the case of no writer in between.
\<close>

definition mongo_Verify_between ::
  "mongo_env \<Rightarrow> string \<Rightarrow> EntryID \<Rightarrow> EntryID \<Rightarrow> mongoAuditLog \<Rightarrow> mongo_server \<Rightarrow> (bool \<times> VerifyResult) result" where
  "mongo_Verify_between env chainID from to a srv =
     (if mclosed a then Inl (Sentinel ErrClosed)
      else if chainID = [] then Inl (Sentinel ErrChainIDRequired)
      else
        (let from = (if from < 1 then 1 else from);
             list = (\<lambda>to. case find_all env (bson_uint64 (client a) from \<and> bson_uint64 (client a) to)
                 (\<lambda>d. dChainID d = chainID \<and> from \<le> dEntryID d \<and> dEntryID d \<le> to) srv of
                  Inl err \<Rightarrow> Inl (Errorf ''graudit: verify'' [Sentinel ErrBackendUnavailable])
                | Inr ds \<Rightarrow> mongo_verify_loop 0 [] ds)
         in if to = 0 then
              (case mongo_resolveLatestEntryID env chainID a of
                 Inl err \<Rightarrow> if errors_Is err ErrEntryNotFound then Inr (True, verify_empty)
                   else Inl (Errorf ''graudit: verify'' [err])
               | Inr latest \<Rightarrow> list latest)
            else list to))"

definition mongo_Verify ::
  "mongo_env \<Rightarrow> string \<Rightarrow> EntryID \<Rightarrow> EntryID \<Rightarrow> mongoAuditLog \<Rightarrow> (bool \<times> VerifyResult) result" where
  "mongo_Verify env chainID from to a = mongo_Verify_between env chainID from to a (client a)"

lemmas mongo_Verify_unfold = mongo_Verify_def mongo_Verify_between_def

section \<open>Query, GetEntry, LatestEntryID and Close\<close>

text \<open>The filter document \<^verbatim>\<open>Query\<close> builds; \<^verbatim>\<open>time.Time\<close> bounds are encoded as stored timestamps are.\<close>

definition query_filter :: "mongo_server \<Rightarrow> QueryFilter \<Rightarrow> entryDocument \<Rightarrow> bool" where
  "query_filter srv f d \<longleftrightarrow>
     dChainID d = fChainID f
     \<and> (fActorID f \<noteq> [] \<longrightarrow> dActorID d = fActorID f)
     \<and> (fEntityType f \<noteq> [] \<longrightarrow> dEntityType d = fEntityType f)
     \<and> (fEntityID f \<noteq> [] \<longrightarrow> dEntityID d = fEntityID f)
     \<and> (\<not> IsZero (fFrom f) \<longrightarrow> ns (dTimestamp d) \<ge> ns (bson_time srv (fFrom f)))
     \<and> (\<not> IsZero (fTo f) \<longrightarrow> ns (dTimestamp d) \<le> ns (bson_time srv (fTo f)))"

definition mongo_Query :: "mongo_env \<Rightarrow> QueryFilter \<Rightarrow> mongoAuditLog \<Rightarrow> AuditEvent list result" where
  "mongo_Query env f a =
     (if mclosed a then Inl (Sentinel ErrClosed)
      else if fChainID f = [] then Inl (Sentinel ErrChainIDRequired)
      else case find_all env True (query_filter (client a) f) (client a) of
        Inl err \<Rightarrow> Inl (Errorf ''graudit: query'' [Sentinel ErrBackendUnavailable])
      | Inr ds \<Rightarrow>
          wrap_err ''graudit: query'' (collect (map toAuditEvent
            (if fLimit f > 0 then take (nat (fLimit f)) ds else ds))))"

definition mongo_GetEntry :: "mongo_env \<Rightarrow> string \<Rightarrow> EntryID \<Rightarrow> mongoAuditLog \<Rightarrow> AuditEvent result" where
  "mongo_GetEntry env chainID i a =
     (if mclosed a then Inl (Sentinel ErrClosed)
      else if chainID = [] then Inl (Sentinel ErrChainIDRequired)
      else case call (find_fails env \<or> \<not> bson_uint64 (client a) i)
          (find (\<lambda>d. dChainID d = chainID \<and> dEntryID d = i) (docs (client a))) of
        Inr None \<Rightarrow> Inl (Sentinel ErrEntryNotFound)
      | Inl err \<Rightarrow> Inl (Errorf ''graudit: get entry'' [Sentinel ErrBackendUnavailable])
      | Inr (Some doc) \<Rightarrow> wrap_err ''graudit: get entry'' (toAuditEvent doc))"

definition mongo_LatestEntryID :: "mongo_env \<Rightarrow> string \<Rightarrow> mongoAuditLog \<Rightarrow> EntryID result" where
  "mongo_LatestEntryID env chainID a =
     (if mclosed a then Inl (Sentinel ErrClosed)
      else if chainID = [] then Inl (Sentinel ErrChainIDRequired)
      else wrap_err ''graudit: latest entry id'' (mongo_resolveLatestEntryID env chainID a))"

text \<open>\<^verbatim>\<open>Close\<close> returns the error of the driver's \<^verbatim>\<open>Disconnect\<close>, if it has one, at the first call only.\<close>

definition mongo_Close :: "goerror option \<Rightarrow> mongoAuditLog \<Rightarrow> mongoAuditLog \<times> goerror option \<times> effect list" where
  "mongo_Close disconnect a =
     (if mcloseOnce a then (a, None, [])
      else (a\<lparr>mclosed := True, mcloseOnce := True\<rparr>, disconnect,
            ClientDisconnected # log_info (mlogger a) ''graudit: audit log closed'' []))"

section \<open>Construction\<close>

record MongoConfig =
  URI :: string
  Database :: string
  Collection :: string
  mcfgLogger :: "Logger option"
  mcfgEventBus :: "bus option"

definition withDefaults :: "MongoConfig \<Rightarrow> MongoConfig" where
  "withDefaults cfg = (if Collection cfg = [] then cfg\<lparr>Collection := defaultCollection\<rparr> else cfg)"

text \<open>
  The driver at construction: the client a URI gives, whether it answers a ping, the
  collections of a database, and the outcome of the calls of the probe and of the index creation.
\<close>

record mongo_driver =
  Connect :: "string \<Rightarrow> mongo_server option"
  mPing :: "mongo_server \<Rightarrow> bool"
  select_db :: "string \<Rightarrow> string \<Rightarrow> string \<Rightarrow> mongo_server \<Rightarrow> mongo_server"
  probe_session_fails :: bool
  probe_insert_fails :: "nat \<Rightarrow> bool"
  probe_delete_fails :: "nat \<Rightarrow> bool"
  probe_tx :: "(nat \<Rightarrow> mongo_server \<Rightarrow> (mongo_server \<times> unit) result) \<Rightarrow> mongo_server \<Rightarrow> mongo_server \<times> unit result"
  CreateMany_fails :: bool

definition probeDocID :: string where
  "probeDocID = ''__graudit_transaction_probe__''"

definition probe_callback :: "mongo_driver \<Rightarrow> nat \<Rightarrow> mongo_server \<Rightarrow> (mongo_server \<times> unit) result" where
  "probe_callback drv attempt srv =
     (if probe_insert_fails drv attempt \<or> chain_state srv probeDocID \<noteq> None then Inl driver_error
      else
        (let srv1 = srv\<lparr>chain_state := (chain_state srv)(probeDocID \<mapsto> \<lparr>sID = probeDocID, LastEntryID = 0, LastHash = []\<rparr>)\<rparr>
         in if probe_delete_fails drv attempt then Inl driver_error
            else Inr (srv1\<lparr>chain_state := (chain_state srv1)(probeDocID := None)\<rparr>, ())))"

definition probeTransactionSupport :: "mongo_driver \<Rightarrow> mongo_server \<Rightarrow> mongo_server \<times> unit result" where
  "probeTransactionSupport drv srv =
     (if probe_session_fails drv then (srv, Inl driver_error)
      else probe_tx drv (probe_callback drv) srv)"

definition audit_index_models :: "IndexModel list" where
  "audit_index_models =
     [\<lparr>Keys = [''chainId'', ''entryId''], Unique = True\<rparr>,
      \<lparr>Keys = [''chainId'', ''actorId''], Unique = False\<rparr>,
      \<lparr>Keys = [''chainId'', ''entityType'', ''entityId''], Unique = False\<rparr>,
      \<lparr>Keys = [''chainId'', ''timestamp''], Unique = False\<rparr>]"

definition ensureAuditIndexes :: "mongo_driver \<Rightarrow> mongo_server \<Rightarrow> mongo_server result" where
  "ensureAuditIndexes drv srv =
     (if CreateMany_fails drv then Inl driver_error
      else Inr (srv\<lparr>indexes := indexes srv @ filter (\<lambda>ix. ix \<notin> set (indexes srv)) audit_index_models\<rparr>))"

definition NewMongoAuditLog :: "mongo_driver \<Rightarrow> MongoConfig \<Rightarrow> mongoAuditLog result \<times> effect list" where
  "NewMongoAuditLog drv cfg =
     (if URI cfg = [] then (Inl (Errorf ''graudit: MongoConfig.URI is required'' []), [])
      else if Database cfg = [] then (Inl (Errorf ''graudit: MongoConfig.Database is required'' []), [])
      else
        (let cfg = withDefaults cfg; lg = OrNop (mcfgLogger cfg) in
         case Connect drv (URI cfg) of
           None \<Rightarrow> (Inl (Errorf ''graudit: connect'' [Sentinel ErrBackendUnavailable]),
                    log_error lg ''graudit: connect failed'' driver_error)
         | Some cl \<Rightarrow>
           if \<not> mPing drv cl
           then (Inl (Errorf ''graudit: ping'' [Sentinel ErrBackendUnavailable]),
                 [ClientConnected, ClientDisconnected] @ log_error lg ''graudit: ping failed'' driver_error)
           else
             (let srv = select_db drv (Database cfg) (Collection cfg) (Collection cfg @ ''_chain_state'') cl in
              case probeTransactionSupport drv srv of
                (srv1, Inl err) \<Rightarrow> (Inl (Errorf ''graudit'' [Sentinel ErrReplicaSetRequired]),
                    [ClientConnected, ClientDisconnected] @ log_error lg ''graudit: transaction probe failed'' err)
              | (srv1, Inr _) \<Rightarrow>
                (case ensureAuditIndexes drv srv1 of
                   Inl err \<Rightarrow> (Inl (Errorf ''graudit: ensure indexes'' [err]), [ClientConnected, ClientDisconnected])
                 | Inr srv2 \<Rightarrow>
                     (Inr \<lparr>client = srv2, mlogger = lg, mbus = mcfgEventBus cfg, mclosed = False, mcloseOnce = False\<rparr>,
                      ClientConnected # log_info lg ''graudit: connected''
                        [(''database'', Database cfg), (''collection'', Collection cfg)])))))"

section \<open>The chains of a deployment\<close>

definition doc_event :: "entryDocument \<Rightarrow> AuditEvent" where
  "doc_event d = (case toAuditEvent d of Inl err \<Rightarrow> zero_event | Inr e \<Rightarrow> e)"

definition coll_chain :: "mongo_server \<Rightarrow> string \<Rightarrow> AuditEvent list" where
  "coll_chain srv c = map doc_event (chain_docs c (docs srv))"

definition mongo_chain :: "mongoAuditLog \<Rightarrow> string \<Rightarrow> AuditEvent list" where
  "mongo_chain a = coll_chain (client a)"

definition doc_ok :: "entryDocument \<Rightarrow> bool" where
  "doc_ok d \<longleftrightarrow> (\<exists>v. DecodeStoredPayload (dPayload d) = Inr v)"

text \<open>The chain-state document a chain should have: its last position and hash.\<close>

definition state_of :: "string \<Rightarrow> AuditEvent list \<Rightarrow> mongoChainState option" where
  "state_of c es = (if es = [] then None
     else Some \<lparr>sID = c, LastEntryID = of_nat (length es), LastHash = Hash (last es)\<rparr>)"

definition coll_inv :: "mongo_server \<Rightarrow> bool" where
  "coll_inv srv \<longleftrightarrow> keeps_ms (bson_time srv) \<and> (\<forall>d \<in> set (docs srv). doc_ok d) \<and>
     (\<forall>c. chain_ok c (coll_chain srv c) \<and> length (coll_chain srv c) < 2 ^ 63 \<and>
       chain_state srv c = state_of c (coll_chain srv c))"

definition mongo_inv :: "mongoAuditLog \<Rightarrow> bool" where
  "mongo_inv a \<longleftrightarrow> coll_inv (client a)"

text \<open>The calls the contract speaks of: there is room for another position, and transactions are what they say.\<close>

definition has_room :: "mongo_server \<Rightarrow> AuditEvent \<Rightarrow> bool" where
  "has_room srv event \<longleftrightarrow> length (coll_chain srv (ChainID event)) < 2 ^ 63 - 1"

definition mongo_admissible :: "mongo_env \<Rightarrow> AuditEvent \<Rightarrow> mongoAuditLog \<Rightarrow> bool" where
  "mongo_admissible env event a \<longleftrightarrow>
     has_room (client a) event \<and> retrying (WithTransaction env) \<and> certain (WithTransaction env)"

lemma doc_event_fields:
  assumes "DecodeStoredPayload (dPayload d) = Inr v"
  shows "toAuditEvent d = Inr (doc_event d)"
    "doc_event d = \<lparr>ChainID = dChainID d, ID = dEntryID d, ActorID = dActorID d, EntityType = dEntityType d,
       EntityID = dEntityID d, Action = dAction d, Payload = v, Timestamp = UTC (dTimestamp d),
       Hash = dHash d, PrevHash = dPrevHash d\<rparr>"
  using assms by (simp_all add: doc_event_def toAuditEvent_def)

lemma doc_ok_event:
  assumes "doc_ok d"
  shows "toAuditEvent d = Inr (doc_event d)" "ID (doc_event d) = dEntryID d" "ChainID (doc_event d) = dChainID d"
    "Hash (doc_event d) = dHash d" "PrevHash (doc_event d) = dPrevHash d"
  using assms by (auto simp: doc_ok_def doc_event_fields)

lemma doc_event_hash:
  assumes "DecodeStoredPayload (dPayload d) = Inr v"
  shows "ComputeHash (dChainID d) (dEntryID d) (dActorID d) (dEntityType d) (dEntityID d)
    (dAction d) v (dTimestamp d) (dPrevHash d) = entry_hash (doc_event d)"
proof -
  have "timestamp_text (dTimestamp d) = timestamp_text (UTC (dTimestamp d))"
    by (simp add: timestamp_text_iff)
  then show ?thesis
    by (simp add: doc_event_fields(2) [OF assms] entry_hash_def ComputeHash_def hash_preimage_def split: sum.split)
qed

lemma set_chain_docs: "d \<in> set (chain_docs c ds) \<longleftrightarrow> d \<in> set ds \<and> dChainID d = c"
  by (auto simp: chain_docs_def)

lemma coll_state:
  assumes "coll_inv srv"
  shows "next_tail (chain_state srv c)
    = (last_hash GenesisPrevHash (coll_chain srv c), of_nat (length (coll_chain srv c)) + 1)"
proof -
  have "chain_state srv c = state_of c (coll_chain srv c)" using assms by (simp add: coll_inv_def)
  then show ?thesis by (simp add: next_tail_def state_of_def last_hash_last)
qed

section \<open>Record keeps the collections\<close>

text \<open>The document \<^verbatim>\<open>Record\<close> inserts for a sealed event, and the deployment afterwards.\<close>

definition sealed_doc :: "mongo_server \<Rightarrow> string \<Rightarrow> AuditEvent \<Rightarrow> entryDocument" where
  "sealed_doc srv raw e =
     \<lparr>dChainID = ChainID e, dEntryID = ID e, dActorID = ActorID e, dEntityType = EntityType e,
      dEntityID = EntityID e, dAction = Action e, dPayload = raw,
      dTimestamp = bson_time srv (Timestamp e), dHash = Hash e, dPrevHash = PrevHash e\<rparr>"

definition stored_doc :: "mongo_server \<Rightarrow> string \<Rightarrow> AuditEvent \<Rightarrow> mongo_server" where
  "stored_doc srv raw e = srv\<lparr>docs := docs srv @ [sealed_doc srv raw e],
     chain_state := (chain_state srv)(ChainID e \<mapsto> \<lparr>sID = ChainID e, LastEntryID = ID e, LastHash = Hash e\<rparr>)\<rparr>"

lemma sealed_doc_simps [simp]:
  "dChainID (sealed_doc srv raw e) = ChainID e" "dEntryID (sealed_doc srv raw e) = ID e"
  "dActorID (sealed_doc srv raw e) = ActorID e" "dEntityType (sealed_doc srv raw e) = EntityType e"
  "dEntityID (sealed_doc srv raw e) = EntityID e" "dAction (sealed_doc srv raw e) = Action e"
  "dPayload (sealed_doc srv raw e) = raw" "dTimestamp (sealed_doc srv raw e) = bson_time srv (Timestamp e)"
  "dHash (sealed_doc srv raw e) = Hash e" "dPrevHash (sealed_doc srv raw e) = PrevHash e"
  by (simp_all add: sealed_doc_def)

lemma stored_doc_simps [simp]:
  "docs (stored_doc srv raw e) = docs srv @ [sealed_doc srv raw e]"
  "chain_state (stored_doc srv raw e) =
     (chain_state srv)(ChainID e \<mapsto> \<lparr>sID = ChainID e, LastEntryID = ID e, LastHash = Hash e\<rparr>)"
  "bson_time (stored_doc srv raw e) = bson_time srv" "bson_uint64 (stored_doc srv raw e) = bson_uint64 srv"
  by (simp_all add: stored_doc_def)

lemma mongo_record_tx_seal:
  assumes "coll_inv srv" "mongo_record_tx env event raw attempt srv = Inr (srv', e)"
  shows "seal (coll_chain srv (ChainID event)) event = Inr e" "srv' = stored_doc srv raw e"
proof -
  let ?es = "coll_chain srv (ChainID event)"
  let ?e = "event\<lparr>ID := of_nat (length ?es) + 1, PrevHash := last_hash GenesisPrevHash ?es\<rparr>"
  from assms(2) obtain hash where h: "entry_hash ?e = Inr hash" and e: "e = ?e\<lparr>Hash := hash\<rparr>"
    and srv': "srv' = stored_doc srv raw e"
    unfolding mongo_record_tx_def call_def
    by (auto simp: coll_state [OF assms(1)] entry_hash_def InsertOne_def ReplaceOne_def stored_doc_def sealed_doc_def
        split: if_splits sum.splits option.splits)
  show "seal ?es event = Inr e" by (simp add: seal_def h e Let_def)
  show "srv' = stored_doc srv raw e" by (rule srv')
qed

lemma sealed_doc_event:
  assumes "coll_inv srv" "marshalPayload (Payload event) = Inr raw"
    and "seal (coll_chain srv (ChainID event)) event = Inr e"
  shows "doc_ok (sealed_doc srv raw e)"
    "sealed (coll_chain srv (ChainID event)) event (doc_event (sealed_doc srv raw e))"
    "ID (doc_event (sealed_doc srv raw e)) = ID e" "Hash (doc_event (sealed_doc srv raw e)) = Hash e"
proof -
  let ?d = "sealed_doc srv raw e" and ?es = "coll_chain srv (ChainID event)"
  note s = seal_Inr [OF assms(3)]
  obtain t where "canonicalJSON (Payload e) = Inr t" using s(3) entry_hash_ok_iff [of e] by auto
  then have t: "canonicalJSON (Payload event) = Inr t" by (simp add: s)
  from stored_canonical [OF assms(2) t] obtain v where v: "DecodeStoredPayload raw = Inr v" "canonicalJSON v = Inr t" .
  have "DecodeStoredPayload (dPayload ?d) = Inr v" using v(1) by simp
  note d = doc_event_fields(2) [OF this]
  show "doc_ok ?d" using v(1) by (auto simp: doc_ok_def)
  show "ID (doc_event ?d) = ID e" "Hash (doc_event ?d) = Hash e" by (simp_all add: d)
  have "ns (bson_time srv (Timestamp event)) div Millisecond = ns (Timestamp event) div Millisecond"
    using assms(1) by (simp add: coll_inv_def keeps_ms_def)
  then have content: "hash_content (doc_event ?d) = hash_content e"
    using v(2) t by (simp add: hash_content_def d s)
  have "hash_content e = hash_content (event\<lparr>ID := of_nat (length ?es) + 1, PrevHash := last_hash GenesisPrevHash ?es\<rparr>)"
    by (simp add: hash_content_def s)
  with content entry_hash_content [OF content] s(3) show "sealed ?es event (doc_event ?d)"
    by (simp add: sealed_def d)
qed

lemma doc_position:
  assumes "coll_inv srv" "d \<in> set (docs srv)"
  obtains k where "k < length (coll_chain srv (dChainID d))" "dEntryID d = of_nat (Suc k)"
proof -
  let ?es = "coll_chain srv (dChainID d)"
  have "doc_event d \<in> set ?es" using assms(2) by (auto simp: coll_chain_def set_chain_docs)
  moreover have "chain_ok (dChainID d) ?es" using assms(1) by (simp add: coll_inv_def)
  ultimately obtain k where "k < length ?es" "ID (doc_event d) = of_nat (Suc k)" by (metis chain_ID_member)
  moreover have "doc_ok d" using assms by (simp add: coll_inv_def)
  ultimately show thesis using that doc_ok_event(2) by metis
qed

lemma chain_docs_snoc:
  assumes "coll_inv srv" "dEntryID d = of_nat (Suc (length (coll_chain srv (dChainID d))))"
  shows "chain_docs c (docs srv @ [d]) = (if dChainID d = c then chain_docs c (docs srv) @ [d] else chain_docs c (docs srv))"
proof (cases "dChainID d = c")
  case True
  have len: "length (coll_chain srv c) < 2 ^ 63" using assms(1) by (simp add: coll_inv_def)
  have "dEntryID q \<le> dEntryID d" if q: "q \<in> set (filter (\<lambda>d. dChainID d = c) (docs srv))" for q
  proof -
    from q obtain k where "k < length (coll_chain srv c)" "dEntryID q = of_nat (Suc k)"
      using doc_position [OF assms(1), of q] by auto
    with len show ?thesis unfolding assms(2) True by (simp add: of_nat_u64_le del: of_nat_Suc)
  qed
  then show ?thesis using True by (simp add: chain_docs_def sort_key_snoc)
qed (simp add: chain_docs_def)

lemma stored_doc_inv:
  assumes "coll_inv srv" "has_room srv event" "marshalPayload (Payload event) = Inr raw"
    and "seal (coll_chain srv (ChainID event)) event = Inr e"
  shows "coll_inv (stored_doc srv raw e)" "coll_chain (stored_doc srv raw e) = (coll_chain srv)
    (ChainID event := coll_chain srv (ChainID event) @ [doc_event (sealed_doc srv raw e)])"
proof -
  let ?d = "sealed_doc srv raw e" and ?c = "ChainID event" and ?srv = "stored_doc srv raw e"
  note s = seal_Inr [OF assms(4)]
  note d = sealed_doc_event [OF assms(1,3,4)]
  have c: "dChainID ?d = ?c" and e: "ChainID e = ?c" by (simp_all add: s)
  have id: "dEntryID ?d = of_nat (Suc (length (coll_chain srv (dChainID ?d))))" unfolding c by (simp add: s)
  have ds: "chain_docs c (docs ?srv) = (if ?c = c then chain_docs c (docs srv) @ [?d] else chain_docs c (docs srv))" for c
    using chain_docs_snoc [OF assms(1) id, of c] by (simp add: e)
  show chain: "coll_chain ?srv = (coll_chain srv)(?c := coll_chain srv ?c @ [doc_event ?d])"
    unfolding coll_chain_def ds by (auto simp: fun_eq_iff)
  have "chain_ok c (coll_chain ?srv c)" for c
    using assms(1) d(2) by (auto simp: chain coll_inv_def intro: chain_ok_sealed)
  moreover have "chain_state ?srv c = state_of c (coll_chain ?srv c)" for c
    using assms(1) d(3,4) by (simp add: chain coll_inv_def state_of_def e s)
  moreover have "length (coll_chain ?srv c) < 2 ^ 63" for c
    using assms(1,2) by (simp add: chain coll_inv_def has_room_def)
  ultimately show "coll_inv ?srv" using assms(1) d(1) by (auto simp: coll_inv_def)
qed

definition mongo_record_op :: "mongo_env \<Rightarrow> AuditEvent \<Rightarrow> mongoAuditLog \<Rightarrow> mongoAuditLog \<times> EntryID result" where
  "mongo_record_op env event a = (let (a', r, fx) = mongo_Record env event a in (a', r))"

text \<open>How a call of \<^verbatim>\<open>Record\<close> can end, for any driver that keeps its word on transactions.\<close>

lemma mongo_Record_cases:
  assumes "coll_inv (client a)" "retrying (WithTransaction env)"
  obtains (refused) err where "mongo_Record env event a = (a, Inl err, [])"
  | (stored) raw e r fx where "marshalPayload (Payload event) = Inr raw"
      "seal (coll_chain (client a) (ChainID event)) (stamp (m_now env) event) = Inr e"
      "mongo_Record env event a = (a\<lparr>client := stored_doc (client a) raw e\<rparr>, r, fx)"
      "r = Inr (ID e) \<and> fx = PublishRecorded (mbus a) (mlogger a) e \<or>
       \<not> certain (WithTransaction env) \<and> fails_with r ErrBackendUnavailable \<and> fx = []"
proof (cases "mclosed a \<or> Validate event \<noteq> Inr () \<or> session_fails env")
  case True
  then have "\<exists>err. mongo_Record env event a = (a, Inl err, [])"
    by (cases "Validate event") (auto simp: mongo_Record_def Let_def split: sum.split)
  then show thesis using refused by blast
next
  case False
  let ?ev = "stamp (m_now env) event" and ?srv = "client a"
  obtain raw where raw: "marshalPayload (Payload event) = Inr raw"
    using False marshalPayload_Validate by blast
  have rec: "mongo_Record env event a =
      (case WithTransaction env (mongo_record_tx env ?ev raw) ?srv of
         (srv, Inl err) \<Rightarrow>
           (a\<lparr>client := srv\<rparr>, Inl (Errorf ''graudit: record'' [Sentinel ErrBackendUnavailable]), [])
       | (srv, Inr recorded) \<Rightarrow>
           (a\<lparr>client := srv\<rparr>, Inr (ID recorded), PublishRecorded (mbus a) (mlogger a) recorded))"
    using False raw unfolding mongo_Record_def Let_def stamp_def [symmetric] by simp
  note did = mongo_record_tx_seal [OF assms(1), of env ?ev raw, simplified]
  obtain srv' r where res: "WithTransaction env (mongo_record_tx env ?ev raw) ?srv = (srv', r)" by fastforce
  then have "tx_outcome (\<lambda>p. \<exists>n. mongo_record_tx env ?ev raw n ?srv = Inr p) ?srv (srv', r)"
    using assms(2) unfolding retrying_def by metis
  then show thesis
  proof (cases rule: tx_outcome_cases)
    case (finished e)
    then obtain n where n: "mongo_record_tx env ?ev raw n ?srv = Inr (srv', e)" by blast
    show thesis by (rule stored [OF raw did(1) [OF n]]) (use res finished(1) did(2) [OF n] in \<open>auto simp: rec\<close>)
  next
    case (undone err)
    then show thesis using refused res by (simp add: rec)
  next
    case (doubtful err e)
    then obtain n where n: "mongo_record_tx env ?ev raw n ?srv = Inr (srv', e)" by blast
    show thesis
    proof (cases "srv' = ?srv")
      case True
      then show thesis using refused res doubtful(1) by (simp add: rec)
    next
      case changed: False
      then have "\<not> certain (WithTransaction env)" using res doubtful(1) by (auto dest: certainD)
      then show thesis by (intro stored [OF raw did(1) [OF n]])
          (use res doubtful(1) did(2) [OF n] in \<open>auto simp: rec\<close>)
    qed
  qed
qed

text \<open>A successful or doubtful \<^verbatim>\<open>Record\<close> appends one sealed entry, every other one changes nothing.\<close>

lemma mongo_Record_step:
  assumes "mongo_inv a" "has_room (client a) event" "retrying (WithTransaction env)"
    and "mongo_record_op env event a = (a', r)"
  obtains (unchanged) err where "r = Inl err" "a' = a"
  | (appended) e where "mongo_inv a'" "sealed (mongo_chain a (ChainID event)) (stamp (m_now env) event) e"
      "mongo_chain a' = (mongo_chain a)(ChainID event := mongo_chain a (ChainID event) @ [e])"
      "r = Inr (ID e) \<or> \<not> certain (WithTransaction env) \<and> fails_with r ErrBackendUnavailable"
proof -
  note inv = assms(1) [unfolded mongo_inv_def]
  from inv assms(3) show thesis
  proof (cases rule: mongo_Record_cases [where event = event])
    case (stored raw e r' fx)
    let ?ev = "stamp (m_now env) event" and ?d = "sealed_doc (client a) raw e"
    have tx: "has_room (client a) ?ev" "marshalPayload (Payload ?ev) = Inr raw"
      "seal (coll_chain (client a) (ChainID ?ev)) ?ev = Inr e"
      using stored(1,2) assms(2) by (simp_all add: has_room_def)
    note t = stored_doc_inv [OF inv tx]
    note se = sealed_doc_event [OF inv tx(2,3)]
    have a': "a' = a\<lparr>client := stored_doc (client a) raw e\<rparr>" "r = r'"
      using stored(3) assms(4) by (simp_all add: mongo_record_op_def)
    show thesis
    proof (rule appended [of "doc_event ?d"])
      show "mongo_inv a'" using t(1) by (simp add: a' mongo_inv_def)
      show "sealed (mongo_chain a (ChainID event)) ?ev (doc_event ?d)" using se(2) by (simp add: mongo_chain_def)
      show "mongo_chain a' = (mongo_chain a)(ChainID event := mongo_chain a (ChainID event) @ [doc_event ?d])"
        using t(2) by (simp add: a' mongo_chain_def)
      show "r = Inr (ID (doc_event ?d)) \<or> \<not> certain (WithTransaction env) \<and> fails_with r ErrBackendUnavailable"
        using stored(4) se(3) by (auto simp: a'(2))
    qed
  qed (use unchanged assms(4) in \<open>auto simp: mongo_record_op_def\<close>)
qed

lemma mongo_Record_error:
  assumes "mongo_record_op env event a = (a', Inl err)" "certain (WithTransaction env)"
  shows "a' = a"
  using assms(1) certainD [OF assms(2)]
  by (auto simp: mongo_record_op_def mongo_Record_def Let_def split: if_splits sum.splits prod.splits)

lemma mongo_Record_open: "mongo_record_op env event a = (a', r) \<Longrightarrow> mclosed a' = mclosed a"
  by (auto simp: mongo_record_op_def mongo_Record_def Let_def split: if_splits sum.splits prod.splits)

section \<open>Reading\<close>

lemma mongo_verify_loop_walk:
  "\<forall>d \<in> set ds. doc_ok d \<Longrightarrow>
     mongo_verify_loop i p ds = verify_walk (if i > 0 then p else GenesisPrevHash) (map doc_event ds)"
proof (induction ds arbitrary: i p)
  case (Cons d ds)
  then obtain v where v: "DecodeStoredPayload (dPayload d) = Inr v" by (auto simp: doc_ok_def)
  have f: "PrevHash (doc_event d) = dPrevHash d" "Hash (doc_event d) = dHash d" "ID (doc_event d) = dEntryID d"
    by (simp_all add: doc_event_fields(2) [OF v])
  have IH: "mongo_verify_loop (i + 1) (dHash d) ds = verify_walk (dHash d) (map doc_event ds)"
    using Cons.IH [of "i + 1" "dHash d"] Cons.prems by simp
  show ?case
    unfolding mongo_verify_loop.simps v doc_event_hash [OF v] Let_def sum.case list.map verify_walk.simps f IH ..
qed simp

text \<open>A \<^verbatim>\<open>Find\<close> restricted to a chain returns the events of the chain that satisfy the filter.\<close>

lemma find_events:
  assumes "coll_inv srv" "\<And>d. d \<in> set (docs srv) \<Longrightarrow> sel d \<longleftrightarrow> dChainID d = c \<and> P (doc_event d)"
  shows "map doc_event (sort_key dEntryID (filter sel (docs srv))) = filter P (coll_chain srv c)"
proof -
  have "filter sel (docs srv) = filter (\<lambda>d. P (doc_event d)) (filter (\<lambda>d. dChainID d = c) (docs srv))"
    using assms(2) by (auto intro: filter_cong)
  then show ?thesis
    by (simp add: coll_chain_def chain_docs_def filter_sort [symmetric] filter_map comp_def)
qed

lemma doc_ok_mem: "coll_inv srv \<Longrightarrow> d \<in> set (docs srv) \<Longrightarrow> doc_ok d"
  by (simp add: coll_inv_def)

definition encodes :: "mongo_server \<Rightarrow> bool" where
  "encodes srv \<longleftrightarrow> (\<forall>i. unat i < 2 ^ 63 \<longrightarrow> bson_uint64 srv i)"

lemma mongo_latest:
  assumes "mongo_inv a" "\<not> latest_fails env"
  shows "mongo_resolveLatestEntryID env c a = (if mongo_chain a c = [] then Inl (Sentinel ErrEntryNotFound)
      else Inr (of_nat (length (mongo_chain a c))))"
proof -
  have "chain_state (client a) c = state_of c (mongo_chain a c)"
    using assms(1) by (simp add: mongo_inv_def coll_inv_def mongo_chain_def)
  then show ?thesis using assms(2) by (simp add: mongo_resolveLatestEntryID_def state_of_def)
qed

lemma mongo_range_walk:
  assumes "coll_inv srv"
  shows "mongo_verify_loop 0 [] (sort_key dEntryID (filter (\<lambda>d. dChainID d = c \<and> fr \<le> dEntryID d \<and> dEntryID d \<le> to)
      (docs srv))) = verify_walk GenesisPrevHash (in_range fr to (coll_chain srv c))"
proof -
  have "map doc_event (sort_key dEntryID (filter (\<lambda>d. dChainID d = c \<and> fr \<le> dEntryID d \<and> dEntryID d \<le> to)
      (docs srv))) = in_range fr to (coll_chain srv c)"
    unfolding in_range_def
    by (rule find_events [OF assms]) (use doc_ok_mem [OF assms] doc_ok_event in auto)
  then show ?thesis by (subst mongo_verify_loop_walk) (use doc_ok_mem [OF assms] in auto)
qed

lemma mongo_Verify_between_spec:
  assumes "mongo_inv a" "coll_inv srv" "\<not> mclosed a" "c \<noteq> []"
    and "to = 0 \<longrightarrow> \<not> latest_fails env" "\<not> find_fails env" "\<not> cursor_fails env"
    and "bson_uint64 (client a) (max 1 fr)"
    and "bson_uint64 (client a) (if to = 0 then of_nat (length (mongo_chain a c)) else to)"
  shows "mongo_Verify_between env c fr to a srv =
    (if to = 0 \<and> mongo_chain a c = [] then Inr (True, verify_empty)
     else verify_walk GenesisPrevHash (in_range (max 1 fr)
       (if to = 0 then of_nat (length (mongo_chain a c)) else to) (coll_chain srv c)))"
proof -
  have fr: "(if fr < 1 then 1 else fr) = max 1 fr" by (auto simp: max_def not_le not_less)
  show ?thesis
  proof (cases "to = 0")
    case True
    with assms(3-9) mongo_latest [OF assms(1), of env c] show ?thesis
      unfolding mongo_Verify_between_def Let_def fr find_all_def
      by (simp add: mongo_range_walk [OF assms(2)] del: max.bounded_iff)
  next
    case False
    with assms(3-9) show ?thesis
      unfolding mongo_Verify_between_def Let_def fr find_all_def
      by (simp add: mongo_range_walk [OF assms(2)] del: max.bounded_iff)
  qed
qed

lemma mongo_Verify_spec:
  assumes "mongo_inv a" "\<not> mclosed a" "c \<noteq> []"
    and "to = 0 \<longrightarrow> \<not> latest_fails env" "\<not> find_fails env" "\<not> cursor_fails env"
    and "bson_uint64 (client a) (max 1 fr)"
    and "bson_uint64 (client a) (if to = 0 then of_nat (length (mongo_chain a c)) else to)"
  shows "mongo_Verify env c fr to a =
    (if to = 0 \<and> mongo_chain a c = [] then Inr (True, verify_empty)
     else verify_walk GenesisPrevHash (in_range (max 1 fr)
       (if to = 0 then of_nat (length (mongo_chain a c)) else to) (mongo_chain a c)))"
  unfolding mongo_Verify_def mongo_Verify_between_spec [OF assms(1) assms(1) [unfolded mongo_inv_def] assms(2-8)]
    mongo_chain_def ..

lemma mongo_Verify_returned:
  assumes "mongo_Verify env c fr to a = Inr r"
  shows "to = 0 \<and> \<not> latest_fails env \<and> chain_state (client a) c = None \<and> r = (True, verify_empty) \<or>
    \<not> (to = 0 \<and> (latest_fails env \<or> chain_state (client a) c = None)) \<and> \<not> find_fails env \<and> \<not> cursor_fails env \<and> bson_uint64 (client a) (max 1 fr) \<and>
    bson_uint64 (client a) (if to = 0 then LastEntryID (the (chain_state (client a) c)) else to)"
proof -
  have fr: "(if fr < 1 then 1 else fr) = max 1 fr" by (auto simp: max_def not_le not_less)
  show ?thesis
    using assms unfolding mongo_Verify_unfold Let_def fr
    by (auto simp: find_all_def call_def mongo_resolveLatestEntryID_def split: if_splits sum.splits option.splits)
qed

lemma mongo_LatestEntryID_spec:
  assumes "mongo_inv a" "mongo_LatestEntryID env c a = Inr i"
  shows "mongo_chain a c \<noteq> [] \<and> i = of_nat (length (mongo_chain a c))"
proof -
  have "\<not> latest_fails env" using assms(2)
    by (auto simp: mongo_LatestEntryID_def mongo_resolveLatestEntryID_def call_def split: if_splits)
  with mongo_latest [OF assms(1)] assms(2) show ?thesis
    by (auto simp: mongo_LatestEntryID_def split: if_splits)
qed

lemma mongo_GetEntry_spec:
  assumes "mongo_inv a" "mongo_GetEntry env c i a = Inr e"
  shows "e \<in> set (mongo_chain a c) \<and> ID e = i"
proof -
  obtain d where d: "d \<in> set (docs (client a))" "dChainID d = c" "dEntryID d = i" "toAuditEvent d = Inr e"
    using assms(2)
    by (auto simp: mongo_GetEntry_def call_def wrap_err_def
        split: if_splits sum.splits option.splits dest!: find_SomeD)
  have ok: "doc_ok d" using assms(1) d(1) by (auto simp: mongo_inv_def doc_ok_mem)
  have "d \<in> set (chain_docs c (docs (client a)))" using d(1,2) by (simp add: set_chain_docs)
  then show ?thesis using d doc_ok_event [OF ok] by (auto simp: mongo_chain_def coll_chain_def)
qed

section \<open>The contract\<close>

interpretation mg: audit_reader mongo_chain mclosed mongo_inv m_now mongo_admissible mongo_record_op
  mongo_Verify mongo_GetEntry mongo_LatestEntryID
proof unfold_locales
  fix a a' :: mongoAuditLog and env event r err i c e fr to x
  show "mongo_inv a \<Longrightarrow> mongo_admissible env event a \<Longrightarrow> mongo_record_op env event a = (a', r) \<Longrightarrow> mongo_inv a'"
    by (rule mongo_Record_step [of a event env a' r]) (auto simp: mongo_admissible_def)
  show "mclosed a \<Longrightarrow> mongo_record_op env event a = (a, Inl (Sentinel ErrClosed))"
    by (simp add: mongo_record_op_def mongo_Record_def)
  show "mongo_record_op env event a = (a', r) \<Longrightarrow> mclosed a' = mclosed a"
    by (rule mongo_Record_open)
  show "\<not> mclosed a \<Longrightarrow> Validate event = Inl err \<Longrightarrow>
      mongo_record_op env event a = (a, Inl (Errorf ''graudit: record'' [err]))"
    by (simp add: mongo_record_op_def mongo_Record_def)
  show "mongo_admissible env event a \<Longrightarrow> mongo_record_op env event a = (a', Inl err) \<Longrightarrow>
      mongo_chain a' = mongo_chain a"
    by (metis mongo_admissible_def mongo_Record_error)
  show "mongo_inv a \<Longrightarrow> mongo_admissible env event a \<Longrightarrow> mongo_record_op env event a = (a', Inr i) \<Longrightarrow>
      \<exists>e. sealed (mongo_chain a (ChainID event)) (stamp (m_now env) event) e \<and> i = ID e \<and>
        mongo_chain a' = (mongo_chain a)(ChainID event := mongo_chain a (ChainID event) @ [e])"
    by (rule mongo_Record_step [of a event env a' "Inr i"]) (auto simp: mongo_admissible_def)
  show "mongo_inv a \<Longrightarrow> mongo_Verify env c fr to a = Inr x \<Longrightarrow>
      if to = 0 \<and> mongo_chain a c = [] then x = (True, verify_empty)
      else verify_walk GenesisPrevHash (in_range (max 1 fr)
        (if to = 0 then of_nat (length (mongo_chain a c)) else to) (mongo_chain a c)) = Inr x"
  proof -
    assume inv: "mongo_inv a" and v: "mongo_Verify env c fr to a = Inr x"
    have st: "chain_state (client a) c = state_of c (mongo_chain a c)"
      using inv by (simp add: mongo_inv_def coll_inv_def mongo_chain_def)
    have op: "\<not> mclosed a" "c \<noteq> []" using v by (auto simp: mongo_Verify_unfold split: if_splits)
    from mongo_Verify_returned [OF v] show ?thesis
      using mongo_Verify_spec [OF inv op, of to env fr] v
      by (cases "mongo_chain a c = []") (auto simp: st state_of_def)
  qed
  show "mongo_inv a \<Longrightarrow> mongo_GetEntry env c i a = Inr e \<Longrightarrow> e \<in> set (mongo_chain a c) \<and> ID e = i"
    by (rule mongo_GetEntry_spec)
  show "mongo_inv a \<Longrightarrow> mongo_LatestEntryID env c a = Inr i \<Longrightarrow>
      mongo_chain a c \<noteq> [] \<and> i = of_nat (length (mongo_chain a c))"
    by (rule mongo_LatestEntryID_spec)
qed

section \<open>Properties\<close>

definition empty_deployment :: "mongo_server \<Rightarrow> bool" where
  "empty_deployment srv \<longleftrightarrow> docs srv = [] \<and> chain_state srv = Map.empty \<and> keeps_ms (bson_time srv)"

lemma mongo_inv_empty: "empty_deployment (client a) \<Longrightarrow> mongo_inv a"
  by (simp add: empty_deployment_def mongo_inv_def coll_inv_def coll_chain_def chain_docs_def state_of_def)

lemma mongo_chain_ok: "mongo_inv a \<Longrightarrow> chain_ok c (mongo_chain a c)"
  by (simp add: mongo_inv_def coll_inv_def mongo_chain_def)

text \<open>
  Starting from an empty deployment, any sequence of admissible \<^verbatim>\<open>Record\<close> calls, with
  failures at any driver call of any attempt, leaves every chain linked from the genesis
  hash, its chain-state document at the last position and hash, and the positions handed
  out for it 1 to its length.
\<close>

theorem mongo_run_intact:
  assumes "empty_deployment (client a)"
    and "along_run mongo_admissible mongo_record_op calls a" "run_records mongo_record_op calls a = (a', rs)"
  shows "linked GenesisPrevHash (mongo_chain a' c) \<and> chain_state (client a') c = state_of c (mongo_chain a' c) \<and>
    ids_for c calls rs = map (\<lambda>k. of_nat k + 1) [0..<length (mongo_chain a' c)]"
proof -
  note inv = mongo_inv_empty [OF assms(1)]
  note inv' = mg.run_invar [OF inv assms(2,3)]
  have "mongo_chain a c = []" using assms(1)
    by (simp add: empty_deployment_def mongo_chain_def coll_chain_def chain_docs_def)
  with mg.run_ids [OF inv assms(2,3), of c] mongo_chain_ok [OF inv', of c] inv' show ?thesis
    by (simp add: chain_ok_def mongo_inv_def coll_inv_def mongo_chain_def)
qed

text \<open>
  \<^verbatim>\<open>Verify\<close> over a whole chain of such a deployment returns valid, and empty exactly for a
  chain without entries, whenever its reads succeed and the driver encodes positions
  below 2^63.
\<close>

theorem mongo_verify_accepts:
  assumes "empty_deployment (client a)" "\<not> mclosed a"
    and "along_run mongo_admissible mongo_record_op calls a" "run_records mongo_record_op calls a = (a', rs)"
    and "c \<noteq> []" "\<not> latest_fails env" "\<not> find_fails env" "\<not> cursor_fails env" "encodes (client a')"
  shows "mongo_Verify env c 1 0 a' = Inr (True, if mongo_chain a' c = [] then verify_empty else verify_ok)"
proof -
  note inv = mongo_inv_empty [OF assms(1)]
  note inv' = mg.run_invar [OF inv assms(3,4)]
  have op: "\<not> mclosed a'" using mg.run_keeps_open [OF assms(4)] assms(2) by simp
  have len: "length (mongo_chain a' c) < 2 ^ 63" using inv' by (simp add: mongo_inv_def coll_inv_def mongo_chain_def)
  then have "bson_uint64 (client a') (of_nat (length (mongo_chain a' c)))" "bson_uint64 (client a') (max 1 1)"
    using assms(9) by (simp_all add: encodes_def unsigned_of_nat take_bit_nat_eq_self)
  with mongo_Verify_spec [OF inv' op assms(5), of 0 env 1] assms(6-8)
  have "mongo_Verify env c 1 0 a' = (if mongo_chain a' c = [] then Inr (True, verify_empty)
      else verify_walk GenesisPrevHash (in_range 1 (of_nat (length (mongo_chain a' c))) (mongo_chain a' c)))"
    by simp
  moreover have "verify_walk GenesisPrevHash (mongo_chain a' c) = Inr (True, verify_ok)"
    using mongo_chain_ok [OF inv', of c] by (simp add: verify_walk_ok_iff chain_ok_def)
  moreover have "in_range 1 (of_nat (length (mongo_chain a' c))) (mongo_chain a' c) = mongo_chain a' c"
    using in_range_all [OF mongo_chain_ok [OF inv']] len by simp
  ultimately show ?thesis by simp
qed

text \<open>
  C12. \<^verbatim>\<open>Record\<close> on MongoDB is atomic for every pattern of failures and retries.  Entries and
  chain state stay consistent; a success appends exactly the sealed event, once, and
  returns its position; a failure publishes nothing and leaves every chain unchanged,
  except that a commit left in doubt may have stored exactly the sealed event while
  \<^verbatim>\<open>ErrBackendUnavailable\<close> is returned.
\<close>

theorem mongo_Record_atomic:
  assumes "mongo_inv a" "has_room (client a) event" "retrying (WithTransaction env)"
    and "mongo_Record env event a = (a', r, fx)"
  shows "mongo_inv a' \<and>
    (let appended = (\<lambda>e. sealed (mongo_chain a (ChainID event)) (stamp (m_now env) event) e \<and>
       mongo_chain a' = (mongo_chain a)(ChainID event := mongo_chain a (ChainID event) @ [e]))
     in case r of
       Inr i \<Rightarrow> \<exists>e. appended e \<and> i = ID e
     | Inl err \<Rightarrow> published fx = [] \<and>
         (mongo_chain a' = mongo_chain a \<or>
          \<not> certain (WithTransaction env) \<and> errors_Is err ErrBackendUnavailable \<and> (\<exists>e. appended e)))"
proof -
  have op: "mongo_record_op env event a = (a', r)" using assms(4) by (simp add: mongo_record_op_def)
  have fx: "r = Inl err \<Longrightarrow> published fx = []" for err
    using assms(4) by (auto simp: mongo_Record_def Let_def split: if_splits sum.splits prod.splits)
  from assms(1-3) op show ?thesis
  proof (cases rule: mongo_Record_step)
    case (unchanged err)
    with assms(1) fx show ?thesis by simp
  next
    case (appended e)
    with fx show ?thesis by (cases r) auto
  qed
qed

text \<open>
  C32. \<^verbatim>\<open>Query\<close> on MongoDB returns the matching entries of the chain, oldest first, cut to a
  positive limit, for time bounds the driver represents exactly and when the read succeeds.
\<close>

theorem mongo_Query_exact:
  assumes "mongo_inv a" "\<not> mclosed a" "fChainID f \<noteq> []" "\<not> find_fails env" "\<not> cursor_fails env"
    and "ns (bson_time (client a) (fFrom f)) = ns (fFrom f)" "ns (bson_time (client a) (fTo f)) = ns (fTo f)"
  shows "mongo_Query env f a = Inr (limited (fLimit f) (filter (matches f) (mongo_chain a (fChainID f))))"
proof -
  let ?ds = "sort_key dEntryID (filter (query_filter (client a) f) (docs (client a)))"
  let ?cut = "\<lambda>ds. if fLimit f > 0 then take (nat (fLimit f)) ds else ds"
  note inv = assms(1) [unfolded mongo_inv_def]
  have sel: "query_filter (client a) f d \<longleftrightarrow> dChainID d = fChainID f \<and> matches f (doc_event d)"
    if d: "d \<in> set (docs (client a))" for d
  proof -
    obtain v where v: "DecodeStoredPayload (dPayload d) = Inr v"
      using doc_ok_mem [OF inv d] by (auto simp: doc_ok_def)
    show ?thesis using assms(6,7)
      by (auto simp: query_filter_def matches_def doc_event_fields(2) [OF v] Before_def After_def not_less)
  qed
  have "map toAuditEvent (?cut ?ds) = map Inr (map doc_event (?cut ?ds))"
    using doc_ok_event(1) doc_ok_mem [OF inv] by (auto dest!: in_set_takeD)
  then have "collect (map toAuditEvent (?cut ?ds)) = Inr (map doc_event (?cut ?ds))" by (metis collect_Inr)
  moreover have "map doc_event (?cut ?ds) = limited (fLimit f) (map doc_event ?ds)" by (simp add: limited_def take_map)
  moreover have "map doc_event ?ds = filter (matches f) (mongo_chain a (fChainID f))"
    unfolding mongo_chain_def by (rule find_events [OF inv sel])
  ultimately show ?thesis using assms(2-5) by (simp add: mongo_Query_def find_all_def)
qed

text \<open>The index that makes positions unique within a chain.\<close>

definition position_index :: IndexModel where
  "position_index = \<lparr>Keys = [''chainId'', ''entryId''], Unique = True\<rparr>"

lemma InsertOne_Some:
  "InsertOne d srv = Some srv' \<Longrightarrow> srv' = srv\<lparr>docs := docs srv @ [d]\<rparr> \<and> bson_uint64 srv (dEntryID d)"
  by (auto simp: InsertOne_def split: if_splits)

lemma InsertOne_duplicate:
  assumes "position_index \<in> set (indexes srv)" "q \<in> set (docs srv)"
    "dChainID q = dChainID d" "dEntryID q = dEntryID d"
  shows "InsertOne d srv = None"
proof -
  have "list_ex (\<lambda>ix. Unique ix \<and>
      list_ex (\<lambda>q. map (doc_field q) (Keys ix) = map (doc_field d) (Keys ix)) (docs srv)) (indexes srv)"
    unfolding list_ex_iff
    by (rule bexI [OF _ assms(1)]) (use assms(2-4) in \<open>auto simp: position_index_def doc_field_def\<close>)
  then show ?thesis by (simp add: InsertOne_def)
qed

lemma first_doc:
  assumes "coll_inv srv" "coll_chain srv c \<noteq> []"
  obtains d where "d \<in> set (docs srv)" "dChainID d = c" "dEntryID d = 1"
proof -
  let ?d = "hd (chain_docs c (docs srv))"
  have ne: "chain_docs c (docs srv) \<noteq> []" using assms(2) by (simp add: coll_chain_def)
  then have d: "?d \<in> set (docs srv)" "dChainID ?d = c" using set_chain_docs hd_in_set by metis+
  have "chain_ok c (coll_chain srv c)" using assms(1) by (simp add: coll_inv_def)
  from chain_ID [OF this, of 0] ne have "ID (doc_event ?d) = 1" by (simp add: coll_chain_def hd_conv_nth)
  then have "dEntryID ?d = 1" using doc_ok_event(2) [OF doc_ok_mem [OF assms(1) d(1)]] by simp
  with d that show thesis by blast
qed

definition forget_tail :: "string \<Rightarrow> mongoAuditLog \<Rightarrow> mongoAuditLog" where
  "forget_tail c a = a\<lparr>client := (client a)\<lparr>chain_state := (chain_state (client a))(c := None)\<rparr>\<rparr>"

text \<open>
  C37. When the chain-state document of a chain is deleted, its entries are all still there
  but \<^verbatim>\<open>Verify\<close> through the latest entry reports the chain valid and empty, and
  \<^verbatim>\<open>LatestEntryID\<close> reports \<^verbatim>\<open>ErrEntryNotFound\<close>; the unique index on the positions keeps \<^verbatim>\<open>Record\<close>
  from starting the chain again: it fails with \<^verbatim>\<open>ErrBackendUnavailable\<close> and changes nothing.
\<close>

theorem mongo_lost_chain_state:
  assumes "mongo_inv a" "\<not> mclosed a" "mongo_chain a c \<noteq> []" "c \<noteq> []" "\<not> latest_fails env"
    and "position_index \<in> set (indexes (client a))" "retrying (WithTransaction env)"
    and "ChainID event = c" "Validate event = Inr ()"
  defines "b \<equiv> forget_tail c a"
  shows "mongo_chain b c = mongo_chain a c \<and> mongo_Verify env c fr 0 b = Inr (True, verify_empty) \<and>
    fails_with (mongo_LatestEntryID env c b) ErrEntryNotFound \<and>
    mongo_Record env event b = (b, Inl (Errorf ''graudit: record'' [Sentinel ErrBackendUnavailable]), [])"
proof -
  have b: "docs (client b) = docs (client a)" "chain_state (client b) c = None" "\<not> mclosed b"
    "indexes (client b) = indexes (client a)"
    using assms(2) by (simp_all add: b_def forget_tail_def)
  obtain d where d: "d \<in> set (docs (client b))" "dChainID d = c" "dEntryID d = 1"
    using first_doc [of "client a" c] assms(1,3) b(1) by (auto simp: mongo_inv_def mongo_chain_def)
  obtain raw where raw: "marshalPayload (Payload event) = Inr raw" using assms(9) marshalPayload_Validate by blast
  have "\<exists>err. mongo_record_tx env (stamp (m_now env) event) raw n (client b) = Inl err" for n
    using b(2,4) assms(6,8) InsertOne_duplicate [OF _ d(1)] d(2,3)
    by (auto simp: mongo_record_tx_def next_tail_def call_def split: sum.split)
  then have none: "mongo_record_tx env (stamp (m_now env) event) raw n (client b) \<noteq> Inr p" for n p
    by (metis Inl_Inr_False)
  obtain srv' r where res: "WithTransaction env (mongo_record_tx env (stamp (m_now env) event) raw) (client b) = (srv', r)"
    by fastforce
  then have "tx_outcome (\<lambda>p. \<exists>n. mongo_record_tx env (stamp (m_now env) event) raw n (client b) = Inr p)
      (client b) (srv', r)"
    using assms(7) unfolding retrying_def by metis
  then have "srv' = client b \<and> (\<exists>err. r = Inl err)" by (cases rule: tx_outcome_cases) (use none in auto)
  then have "mongo_Record env event b = (b, Inl (Errorf ''graudit: record'' [Sentinel ErrBackendUnavailable]), [])"
    using b(3) assms(9) raw res unfolding mongo_Record_def Let_def stamp_def [symmetric] by auto
  moreover have "mongo_Verify env c fr 0 b = Inr (True, verify_empty)"
    using b assms(4,5) by (simp add: mongo_Verify_unfold mongo_resolveLatestEntryID_def Let_def)
  ultimately show ?thesis
    using b assms(4,5)
    by (simp add: mongo_LatestEntryID_def mongo_resolveLatestEntryID_def mongo_chain_def coll_chain_def)
qed

lemma probe_unchanged:
  assumes "retrying (probe_tx drv)" "probeTransactionSupport drv srv = (srv', Inr u)"
  shows "srv' = srv \<and> chain_state srv probeDocID = None"
proof -
  have "probe_tx drv (probe_callback drv) srv = (srv', Inr u)"
    using assms(2) by (simp add: probeTransactionSupport_def split: if_splits)
  then have "tx_outcome (\<lambda>p. \<exists>n. probe_callback drv n srv = Inr p) srv (srv', Inr u)"
    using assms(1) unfolding retrying_def by metis
  then obtain n where "probe_callback drv n srv = Inr (srv', u)" by (auto simp: tx_outcome_def)
  then show ?thesis
    by (auto simp: probe_callback_def Let_def fun_upd_idem split: if_splits)
qed

text \<open>
  C38. \<^verbatim>\<open>NewMongoAuditLog\<close> returns a log only for a URI and a database that are given and a
  deployment that answers and runs the probe transaction.  Entries and chain states are as
  the deployment had them, positions are unique within a chain, and the log is open.  It
  never succeeds on a deployment that holds a chain named like the probe document.
\<close>

theorem NewMongoAuditLog_ready:
  assumes "NewMongoAuditLog drv cfg = (Inr a, fx)" "retrying (probe_tx drv)"
  shows "URI cfg \<noteq> [] \<and> Database cfg \<noteq> [] \<and> \<not> mclosed a \<and>
    (\<exists>cl. Connect drv (URI cfg) = Some cl \<and> mPing drv cl \<and>
      (let coll = (if Collection cfg = [] then defaultCollection else Collection cfg);
           srv = select_db drv (Database cfg) coll (coll @ ''_chain_state'') cl
       in docs (client a) = docs srv \<and> chain_state (client a) = chain_state srv \<and>
          position_index \<in> set (indexes (client a)) \<and> chain_state srv probeDocID = None))"
proof -
  let ?cfg = "withDefaults cfg"
  have cfg: "URI ?cfg = URI cfg" "Database ?cfg = Database cfg"
    "Collection ?cfg = (if Collection cfg = [] then defaultCollection else Collection cfg)"
    by (simp_all add: withDefaults_def)
  from assms(1) obtain cl srv1 srv2 u where h: "URI cfg \<noteq> []" "Database cfg \<noteq> []" "Connect drv (URI cfg) = Some cl"
    "mPing drv cl" "ensureAuditIndexes drv srv1 = Inr srv2" "client a = srv2" "\<not> mclosed a"
    "probeTransactionSupport drv (select_db drv (Database cfg) (Collection ?cfg) (Collection ?cfg @ ''_chain_state'') cl) = (srv1, Inr u)"
    unfolding NewMongoAuditLog_def Let_def cfg(1,2)
    by (auto split: if_splits option.splits sum.splits prod.splits)
  note p = probe_unchanged [OF assms(2) h(8)]
  have "docs srv2 = docs srv1 \<and> chain_state srv2 = chain_state srv1 \<and> position_index \<in> set (indexes srv2)"
    using h(5) by (auto simp: ensureAuditIndexes_def audit_index_models_def position_index_def split: if_splits)
  with h p show ?thesis unfolding cfg(3) by (simp add: Let_def)
qed

definition is_error :: "'a result \<Rightarrow> bool" where
  "is_error r = (case r of Inl err \<Rightarrow> True | Inr x \<Rightarrow> False)"

lemma is_error_simps [simp]: "is_error (Inl err)" "\<not> is_error (Inr x)"
  by (simp_all add: is_error_def)

text \<open>
  Which error \<^verbatim>\<open>NewMongoAuditLog\<close> returns: \<^verbatim>\<open>ErrBackendUnavailable\<close> exactly when connecting or
  the ping fails, \<^verbatim>\<open>ErrReplicaSetRequired\<close> exactly when the deployment answers and the
  probe fails, for whatever reason; an incomplete configuration or a failed index creation
  matches no sentinel.
\<close>

theorem NewMongoAuditLog_errors:
  assumes "NewMongoAuditLog drv cfg = (Inl err, fx)"
  shows "let coll = (if Collection cfg = [] then defaultCollection else Collection cfg);
       complete = (URI cfg \<noteq> [] \<and> Database cfg \<noteq> []);
       answering = (case Connect drv (URI cfg) of None \<Rightarrow> False | Some cl \<Rightarrow> mPing drv cl);
       deployment = select_db drv (Database cfg) coll (coll @ ''_chain_state'') (the (Connect drv (URI cfg)));
       no_transactions = is_error (snd (probeTransactionSupport drv deployment))
     in errors_Is err s \<longleftrightarrow> complete \<and>
       (s = ErrBackendUnavailable \<and> \<not> answering \<or> s = ErrReplicaSetRequired \<and> answering \<and> no_transactions)"
proof -
  have cfg: "URI (withDefaults cfg) = URI cfg" "Database (withDefaults cfg) = Database cfg"
    "Collection (withDefaults cfg) = (if Collection cfg = [] then defaultCollection else Collection cfg)"
    by (simp_all add: withDefaults_def)
  show ?thesis
    using assms unfolding NewMongoAuditLog_def Let_def cfg
    by (auto simp: ensureAuditIndexes_def driver_error_def split: if_splits option.splits sum.splits prod.splits)
qed

text \<open>
  After \<^verbatim>\<open>Close\<close> every method of the MongoDB log returns \<^verbatim>\<open>ErrClosed\<close> and \<^verbatim>\<open>Record\<close> changes
  nothing; the driver's disconnect error is returned by the first call only.
\<close>

theorem mongo_closed:
  assumes "mongo_Close err a = (b, r, fx)" "mclosed a = mcloseOnce a"
  shows "client b = client a \<and> r = (if mclosed a then None else err) \<and> mongo_Close err' b = (b, None, []) \<and>
    mongo_Record env event b = (b, Inl (Sentinel ErrClosed), []) \<and>
    mongo_Verify env c fr to b = Inl (Sentinel ErrClosed) \<and> mongo_Query env f b = Inl (Sentinel ErrClosed) \<and>
    mongo_GetEntry env c i b = Inl (Sentinel ErrClosed) \<and> mongo_LatestEntryID env c b = Inl (Sentinel ErrClosed)"
proof -
  have "client b = client a" "r = (if mclosed a then None else err)" "mclosed b" "mcloseOnce b"
    using assms by (auto simp: mongo_Close_def split: if_splits)
  then show ?thesis
    by (simp add: mongo_Close_def mongo_Record_def mongo_Verify_unfold mongo_Query_def mongo_GetEntry_def
        mongo_LatestEntryID_def)
qed

text \<open>
  No client is leaked: a construction that fails has disconnected the client if it connected
  one, whether the ping, the probe or the index creation failed; one that succeeds holds one
  connected client, which the first \<^verbatim>\<open>Close\<close> disconnects, and a later one does nothing.
\<close>

theorem mongo_client_released:
  "case NewMongoAuditLog drv cfg of
     (Inl err, fx) \<Rightarrow> count_list fx ClientConnected = count_list fx ClientDisconnected
   | (Inr a, fx) \<Rightarrow>
       (let (b, r, fx') = mongo_Close err a in
        count_list fx ClientConnected = 1 \<and> ClientDisconnected \<notin> set fx \<and>
        ClientConnected \<notin> set fx' \<and> count_list fx' ClientDisconnected = 1 \<and> mongo_Close err' b = (b, None, []))"
  by (auto simp: NewMongoAuditLog_def mongo_Close_def Let_def split: if_splits option.splits prod.splits sum.splits)

section \<open>Witnesses\<close>

text \<open>A deployment that stores timestamps to the millisecond and encodes positions below 2^63.\<close>

definition sample_deployment :: mongo_server where
  "sample_deployment = \<lparr>docs = [], chain_state = Map.empty, indexes = audit_index_models,
     bson_time = Truncate Millisecond, bson_uint64 = (\<lambda>i. unat i < 2 ^ 63)\<rparr>"

definition sample_mongo :: mongoAuditLog where
  "sample_mongo = \<lparr>client = sample_deployment, mlogger = NopLogger, mbus = None, mclosed = False, mcloseOnce = False\<rparr>"

text \<open>An environment whose first attempt meets a failing insert and whose second attempt commits.\<close>

definition retry_env :: mongo_env where
  "retry_env = \<lparr>m_now = sample_time, session_fails = False, tail_fails = (\<lambda>n. False),
     insertOne_fails = (\<lambda>n. n = 0), replace_fails = (\<lambda>n. False),
     WithTransaction = (\<lambda>fn srv. case fn 0 srv of Inl err \<Rightarrow> commit_always (fn 1) srv | Inr p \<Rightarrow> commit_always (fn 0) srv),
     latest_fails = False, find_fails = False, cursor_fails = False\<rparr>"

lemma retry_env_transactions: "retrying (WithTransaction retry_env)" "certain (WithTransaction retry_env)"
  by (auto simp: retry_env_def retrying_def certain_def tx_outcome_def commit_always_def split: sum.splits prod.splits)

lemma sample_mongo_simps:
  "empty_deployment (client sample_mongo)" "\<not> mclosed sample_mongo" "has_room (client sample_mongo) sample_event"
  "mongo_admissible retry_env sample_event sample_mongo" "position_index \<in> set (indexes (client sample_mongo))"
  "\<not> latest_fails retry_env" "\<not> find_fails retry_env" "\<not> cursor_fails retry_env"
proof -
  have srv: "docs (client sample_mongo) = []" "chain_state (client sample_mongo) = Map.empty"
    "bson_time (client sample_mongo) = Truncate Millisecond" "indexes (client sample_mongo) = audit_index_models"
    by (simp_all add: sample_mongo_def sample_deployment_def)
  show "empty_deployment (client sample_mongo)" by (simp only: empty_deployment_def srv keeps_ms_Truncate simp_thms)
  show room: "has_room (client sample_mongo) sample_event"
    by (simp add: has_room_def coll_chain_def chain_docs_def srv(1))
  show "mongo_admissible retry_env sample_event sample_mongo"
    using room by (simp add: mongo_admissible_def retry_env_transactions)
  show "position_index \<in> set (indexes (client sample_mongo))"
    unfolding srv(4) audit_index_models_def position_index_def by simp
  show "\<not> mclosed sample_mongo" by (simp add: sample_mongo_def)
  show "\<not> latest_fails retry_env" "\<not> find_fails retry_env" "\<not> cursor_fails retry_env"
    by (simp_all add: retry_env_def)
qed

definition mongo_calls :: "(mongo_env \<times> AuditEvent) list" where
  "mongo_calls = [(retry_env, sample_event)]"

lemma retry_env_simps:
  "session_fails retry_env = False" "tail_fails retry_env n = False" "replace_fails retry_env n = False"
  "insertOne_fails retry_env n = (n = 0)" "m_now retry_env = sample_time"
  "WithTransaction retry_env fn srv = (case fn 0 srv of Inl err \<Rightarrow> commit_always (fn 1) srv | Inr p \<Rightarrow> commit_always (fn 0) srv)"
  by (simp_all add: retry_env_def)

lemma sample_mongo_tx:
  obtains e where "mongo_record_tx retry_env sample_event [] 1 (client sample_mongo)
      = Inr (stored_doc (client sample_mongo) [] e, e)" "ChainID e = ''tenant-1''"
proof -
  have "\<exists>h. ComputeHash (ChainID sample_event) 1 (ActorID sample_event) (EntityType sample_event)
      (EntityID sample_event) (Action sample_event) (Payload sample_event) (Timestamp sample_event) GenesisPrevHash = Inr h"
    by (simp add: ComputeHash_def canonicalJSON_def event_simps)
  then obtain h where h: "ComputeHash (ChainID sample_event) 1 (ActorID sample_event) (EntityType sample_event)
      (EntityID sample_event) (Action sample_event) (Payload sample_event) (Timestamp sample_event) GenesisPrevHash = Inr h"
    by blast
  have cs: "chain_state (client sample_mongo) = Map.empty" "docs (client sample_mongo) = []"
    "bson_uint64 (client sample_mongo) 1" by (simp_all add: sample_mongo_def sample_deployment_def)
  show thesis
    by (rule that [of "sample_event\<lparr>ID := 1, Hash := h, PrevHash := GenesisPrevHash\<rparr>"])
      (simp_all add: mongo_record_tx_def next_tail_def h retry_env_simps cs InsertOne_def ReplaceOne_def stored_doc_def
        sealed_doc_def list_ex_iff, simp add: event_simps)
qed

lemma sample_mongo_record:
  obtains e where "mongo_record_op retry_env sample_event sample_mongo
      = (sample_mongo\<lparr>client := stored_doc (client sample_mongo) [] e\<rparr>, Inr (ID e))" "ChainID e = ''tenant-1''"
proof -
  obtain e where e: "mongo_record_tx retry_env sample_event [] 1 (client sample_mongo)
      = Inr (stored_doc (client sample_mongo) [] e, e)" "ChainID e = ''tenant-1''" by (rule sample_mongo_tx)
  have first: "\<exists>err. mongo_record_tx retry_env sample_event [] 0 srv = Inl err" for srv
    by (auto simp: mongo_record_tx_def retry_env_simps split: sum.split prod.split)
  have "Validate sample_event = Inr ()" "marshalPayload (Payload sample_event) = Inr []" "\<not> IsZero (Timestamp sample_event)"
    by (simp_all add: event_simps marshalPayload_def)
  with e first [of "client sample_mongo"] show thesis
    by (intro that [of e]) (auto simp: mongo_record_op_def mongo_Record_def retry_env_simps commit_always_def
        sample_mongo_simps(2))
qed

lemma sample_mongo_run:
  "along_run mongo_admissible mongo_record_op mongo_calls sample_mongo"
  "length (mongo_chain (fst (run_records mongo_record_op mongo_calls sample_mongo)) ''tenant-1'') = 1"
  "bson_uint64 (client (fst (run_records mongo_record_op mongo_calls sample_mongo))) = (\<lambda>i. unat i < 2 ^ 63)"
  "bson_time (client (fst (run_records mongo_record_op mongo_calls sample_mongo))) = Truncate Millisecond"
proof -
  show "along_run mongo_admissible mongo_record_op mongo_calls sample_mongo"
    using sample_mongo_simps(4) by (simp add: mongo_calls_def)
  obtain e where e: "mongo_record_op retry_env sample_event sample_mongo
      = (sample_mongo\<lparr>client := stored_doc (client sample_mongo) [] e\<rparr>, Inr (ID e))" "ChainID e = ''tenant-1''"
    by (rule sample_mongo_record)
  show "length (mongo_chain (fst (run_records mongo_record_op mongo_calls sample_mongo)) ''tenant-1'') = 1"
    "bson_uint64 (client (fst (run_records mongo_record_op mongo_calls sample_mongo))) = (\<lambda>i. unat i < 2 ^ 63)"
    "bson_time (client (fst (run_records mongo_record_op mongo_calls sample_mongo))) = Truncate Millisecond"
    by (simp_all add: mongo_calls_def e mongo_chain_def coll_chain_def chain_docs_def)
      (simp_all add: sample_mongo_def sample_deployment_def)
qed

lemma mongo_run_pair:
  "run_records mongo_record_op mongo_calls sample_mongo
     = (fst (run_records mongo_record_op mongo_calls sample_mongo), snd (run_records mongo_record_op mongo_calls sample_mongo))"
  by simp

theorem mongo_run_intact_witness:
  "linked GenesisPrevHash (mongo_chain (fst (run_records mongo_record_op mongo_calls sample_mongo)) ''tenant-1'') \<and>
   ids_for ''tenant-1'' mongo_calls (snd (run_records mongo_record_op mongo_calls sample_mongo)) = [1]"
  using mongo_run_intact [OF sample_mongo_simps(1) sample_mongo_run(1) mongo_run_pair, of "''tenant-1''"]
    sample_mongo_run(2) by simp

theorem mongo_verify_accepts_witness:
  "mongo_Verify retry_env ''tenant-1'' 1 0 (fst (run_records mongo_record_op mongo_calls sample_mongo))
     = Inr (True, verify_ok)"
  using mongo_verify_accepts [OF sample_mongo_simps(1,2) sample_mongo_run(1) mongo_run_pair _ sample_mongo_simps(6-8),
      of "''tenant-1''"] sample_mongo_run(2,3) by (auto simp: encodes_def)

theorem mongo_Record_atomic_witness:
  "let (a', r, fx) = mongo_Record (retry_env\<lparr>WithTransaction := commit_never\<rparr>) sample_event sample_mongo
   in mongo_inv a' \<and> (case r of Inr i \<Rightarrow> True | Inl err \<Rightarrow> published fx = [] \<and> mongo_chain a' = mongo_chain sample_mongo)"
proof -
  obtain a' r fx where rec: "mongo_Record (retry_env\<lparr>WithTransaction := commit_never\<rparr>) sample_event sample_mongo = (a', r, fx)"
    by (metis prod_cases3)
  have "retrying (WithTransaction (retry_env\<lparr>WithTransaction := commit_never\<rparr>))"
    "certain (WithTransaction (retry_env\<lparr>WithTransaction := commit_never\<rparr>))"
    by (simp_all add: retrying_def certain_def tx_outcome_def commit_never_def)
  with mongo_Record_atomic [OF mongo_inv_empty [OF sample_mongo_simps(1)] sample_mongo_simps(3) _ rec] show ?thesis
    by (auto simp: rec split: sum.splits)
qed

theorem mongo_Query_exact_witness:
  "let a = fst (run_records mongo_record_op mongo_calls sample_mongo)
   in mongo_Query retry_env (whole_chain ''tenant-1'') a = Inr (mongo_chain a ''tenant-1'') \<and>
      length (mongo_chain a ''tenant-1'') = 1"
proof -
  let ?a = "fst (run_records mongo_record_op mongo_calls sample_mongo)" and ?f = "whole_chain ''tenant-1''"
  have inv: "mongo_inv ?a"
    by (rule mg.run_invar [OF mongo_inv_empty [OF sample_mongo_simps(1)] sample_mongo_run(1) mongo_run_pair])
  have op: "\<not> mclosed ?a" using mg.run_keeps_open [OF mongo_run_pair] sample_mongo_simps(2) by simp
  have tz: "bson_time (client ?a) = Truncate Millisecond" by (rule sample_mongo_run(4))
  have "mongo_Query retry_env ?f ?a
      = Inr (limited (fLimit ?f) (filter (matches ?f) (mongo_chain ?a (fChainID ?f))))"
    by (rule mongo_Query_exact [OF inv op _ sample_mongo_simps(7,8)])
      (simp_all add: whole_chain_def tz Truncate_def zero_time_def Millisecond_def)
  also have "fChainID ?f = ''tenant-1''" by (simp add: whole_chain_def)
  finally show ?thesis using query_whole_chain [OF mongo_chain_ok [OF inv]] sample_mongo_run(2) by (simp add: Let_def)
qed

theorem mongo_lost_chain_state_witness:
  "mongo_Verify retry_env ''tenant-1'' 1 0
     (forget_tail ''tenant-1'' (fst (run_records mongo_record_op mongo_calls sample_mongo))) = Inr (True, verify_empty)"
proof -
  let ?a = "fst (run_records mongo_record_op mongo_calls sample_mongo)"
  obtain e where e: "mongo_record_op retry_env sample_event sample_mongo
      = (sample_mongo\<lparr>client := stored_doc (client sample_mongo) [] e\<rparr>, Inr (ID e))" by (rule sample_mongo_record)
  have inv: "mongo_inv ?a"
    by (rule mg.run_invar [OF mongo_inv_empty [OF sample_mongo_simps(1)] sample_mongo_run(1) mongo_run_pair])
  have "\<not> mclosed ?a" "position_index \<in> set (indexes (client ?a))"
    using sample_mongo_simps(2,5) by (simp_all add: mongo_calls_def e stored_doc_def)
  moreover have "mongo_chain ?a ''tenant-1'' \<noteq> []" using sample_mongo_run(2) by auto
  ultimately show ?thesis
    using mongo_lost_chain_state [OF inv _ _ _ sample_mongo_simps(6) _ retry_env_transactions(1), of "''tenant-1''" sample_event 1]
    by (simp add: event_simps)
qed

definition sample_driver :: mongo_driver where
  "sample_driver = \<lparr>Connect = (\<lambda>uri. Some sample_deployment), mPing = (\<lambda>cl. True), select_db = (\<lambda>db coll chains cl. cl),
     probe_session_fails = False, probe_insert_fails = (\<lambda>n. False), probe_delete_fails = (\<lambda>n. False),
     probe_tx = (\<lambda>fn. commit_always (fn 0)), CreateMany_fails = False\<rparr>"

definition sample_mongo_config :: MongoConfig where
  "sample_mongo_config = \<lparr>URI = ''mongodb://db'', Database = ''app'', Collection = [], mcfgLogger = None, mcfgEventBus = None\<rparr>"

theorem NewMongoAuditLog_ready_witness:
  "\<exists>a fx. NewMongoAuditLog sample_driver sample_mongo_config = (Inr a, fx) \<and> position_index \<in> set (indexes (client a))"
proof -
  obtain a fx where a: "NewMongoAuditLog sample_driver sample_mongo_config = (Inr a, fx)"
    by (simp add: NewMongoAuditLog_def sample_driver_def sample_mongo_config_def Let_def withDefaults_def
        probeTransactionSupport_def commit_always_def probe_callback_def sample_deployment_def ensureAuditIndexes_def)
  have "retrying (probe_tx sample_driver)" by (simp add: sample_driver_def example_drivers)
  from NewMongoAuditLog_ready [OF a this] a show ?thesis by (auto simp: Let_def)
qed

theorem NewMongoAuditLog_errors_witness:
  "\<exists>err. fst (NewMongoAuditLog (sample_driver\<lparr>probe_tx := commit_never\<rparr>) sample_mongo_config) = Inl err \<and>
     errors_Is err ErrReplicaSetRequired \<and> \<not> errors_Is err ErrBackendUnavailable"
proof -
  let ?drv = "sample_driver\<lparr>probe_tx := commit_never\<rparr>"
  obtain err fx where e: "NewMongoAuditLog ?drv sample_mongo_config = (Inl err, fx)"
    by (simp add: NewMongoAuditLog_def sample_driver_def sample_mongo_config_def Let_def withDefaults_def
        probeTransactionSupport_def commit_never_def)
  have p: "is_error (snd (probeTransactionSupport ?drv srv))" for srv
    by (simp add: probeTransactionSupport_def sample_driver_def commit_never_def)
  have c: "URI sample_mongo_config \<noteq> []" "Database sample_mongo_config \<noteq> []" "Connect ?drv uri = Some sample_deployment"
    "mPing sample_driver cl" for uri cl
    by (simp_all add: sample_mongo_config_def sample_driver_def)
  from NewMongoAuditLog_errors [OF e, of ErrReplicaSetRequired] NewMongoAuditLog_errors [OF e, of ErrBackendUnavailable] e
  show ?thesis unfolding Let_def c(3) by (simp add: c(1,2,4) p)
qed

theorem mongo_closed_witness:
  "mongo_Close (Some driver_error) (fst (mongo_Close None sample_mongo)) = (fst (mongo_Close None sample_mongo), None, [])"
  using mongo_closed [of None sample_mongo "fst (mongo_Close None sample_mongo)"
      "fst (snd (mongo_Close None sample_mongo))" "snd (snd (mongo_Close None sample_mongo))" "Some driver_error"]
  by (simp add: sample_mongo_def)

end
