(* ===== verification/StoredTampering.thy ===== *)
theory StoredTampering
  imports Postgres Mongo Tampering
begin

text \<open>
  Stored entries that change under the database backends, as \<^verbatim>\<open>tamperPostgresEntry\<close> of
  \<^verbatim>\<open>postgres_test.go\<close> and \<^verbatim>\<open>tamperMongoEntry\<close> of \<^verbatim>\<open>mongo_test.go\<close> change them, or by any other edit of one
  row or document.  Nothing is assumed of the edited payload, which need not even be JSON.

  The verification loops of the three backends are one function on what they read
  (\<open>row_walk\<close>); the locale \<open>row_verifier\<close> states what they have in common, and the two
  interpretations show it of \<open>pg_verify_loop\<close> and \<open>mongo_verify_loop\<close>.
\<close>

section \<open>One loop for all backends\<close>

text \<open>What a loop reads of one stored entry: its position, the two stored hashes, and what it decodes to.\<close>

type_synonym stored_entry = "EntryID \<times> string \<times> string \<times> AuditEvent result"

fun row_walk :: "string \<Rightarrow> stored_entry list \<Rightarrow> (bool \<times> VerifyResult) result" where
  "row_walk p [] = Inr (True, verify_ok)"
| "row_walk p ((i, prev, hash, ev) # rs) =
     (if prev \<noteq> p then Inr (False, verify_broken i p prev)
      else case ev of
        Inl err \<Rightarrow> Inl (Errorf ''graudit: verify'' [err])
      | Inr e \<Rightarrow> (case entry_hash e of
          Inl err \<Rightarrow> Inl (Errorf ''graudit: verify'' [err])
        | Inr h \<Rightarrow> if h \<noteq> hash then Inr (False, verify_broken i h hash) else row_walk hash rs))"

locale row_verifier =
  fixes loop :: "nat \<Rightarrow> string \<Rightarrow> 'r list \<Rightarrow> (bool \<times> VerifyResult) result"
    and stored :: "'r \<Rightarrow> stored_entry"
  assumes loop_Nil: "loop i p [] = Inr (True, verify_ok)"
    and loop_Cons: "stored r = (j, prev, hash, ev) \<Longrightarrow> loop i p (r # rs) =
      (if prev \<noteq> (if i > 0 then p else GenesisPrevHash)
       then Inr (False, verify_broken j (if i > 0 then p else GenesisPrevHash) prev)
       else case ev of
         Inl err \<Rightarrow> Inl (Errorf ''graudit: verify'' [err])
       | Inr e \<Rightarrow> (case entry_hash e of
           Inl err \<Rightarrow> Inl (Errorf ''graudit: verify'' [err])
         | Inr h \<Rightarrow> if h \<noteq> hash then Inr (False, verify_broken j h hash) else loop (i + 1) hash rs))"
begin

lemma loop_row_walk: "loop i p rs = row_walk (if i > 0 then p else GenesisPrevHash) (map stored rs)"
proof (induction rs arbitrary: i p)
  case (Cons r rs)
  obtain j prev hash ev where r: "stored r = (j, prev, hash, ev)" by (metis prod_cases4)
  have "loop (i + 1) hash rs = row_walk hash (map stored rs)" using Cons.IH [of "i + 1" hash] by simp
  then show ?case unfolding loop_Cons [OF r] list.map r row_walk.simps by (simp only:)
qed (simp add: loop_Nil)

end

definition stored_event :: "AuditEvent \<Rightarrow> stored_entry" where
  "stored_event e = (ID e, PrevHash e, Hash e, Inr e)"

definition stored_row :: "GrauditEntry \<Rightarrow> stored_entry" where
  "stored_row r = (pgEntryID (gEntryID r), gPrevHash r, gHash r, postgresEntryToAuditEvent r)"

definition stored_document :: "entryDocument \<Rightarrow> stored_entry" where
  "stored_document d = (dEntryID d, dPrevHash d, dHash d, toAuditEvent d)"

interpretation mem_loop: row_verifier verify_loop stored_event
  by unfold_locales (auto simp: stored_event_def entry_hash_def Let_def)

lemma pg_loop_Cons:
  "pg_verify_loop i p (r # rs) =
     (let expect = (if i > 0 then p else GenesisPrevHash) in
      if gPrevHash r \<noteq> expect then Inr (False, verify_broken (pgEntryID (gEntryID r)) expect (gPrevHash r))
      else case postgresEntryToAuditEvent r of
        Inl err \<Rightarrow> Inl (Errorf ''graudit: verify'' [err])
      | Inr e \<Rightarrow> (case entry_hash e of
          Inl err \<Rightarrow> Inl (Errorf ''graudit: verify'' [err])
        | Inr h \<Rightarrow> if h \<noteq> gHash r then Inr (False, verify_broken (pgEntryID (gEntryID r)) h (gHash r))
            else pg_verify_loop (i + 1) (gHash r) rs))"
proof (cases "DecodeStoredPayload (gPayload r)")
  case (Inl err)
  then show ?thesis by (simp add: postgresEntryToAuditEvent_def Let_def)
next
  case (Inr v)
  show ?thesis unfolding pg_verify_loop.simps Inr row_event_fields(1) [OF Inr] row_event_hash [OF Inr] sum.case ..
qed

lemma mongo_loop_Cons:
  "mongo_verify_loop i p (d # ds) =
     (let expect = (if i > 0 then p else GenesisPrevHash) in
      if dPrevHash d \<noteq> expect then Inr (False, verify_broken (dEntryID d) expect (dPrevHash d))
      else case toAuditEvent d of
        Inl err \<Rightarrow> Inl (Errorf ''graudit: verify'' [err])
      | Inr e \<Rightarrow> (case entry_hash e of
          Inl err \<Rightarrow> Inl (Errorf ''graudit: verify'' [err])
        | Inr h \<Rightarrow> if h \<noteq> dHash d then Inr (False, verify_broken (dEntryID d) h (dHash d))
            else mongo_verify_loop (i + 1) (dHash d) ds))"
proof (cases "DecodeStoredPayload (dPayload d)")
  case (Inl err)
  then show ?thesis by (simp add: toAuditEvent_def Let_def)
next
  case (Inr v)
  show ?thesis unfolding mongo_verify_loop.simps Inr doc_event_fields(1) [OF Inr] doc_event_hash [OF Inr] sum.case ..
qed

interpretation pg_loop: row_verifier pg_verify_loop stored_row
  by unfold_locales (auto simp: stored_row_def pg_loop_Cons Let_def simp del: pg_verify_loop.simps(2))

interpretation mg_loop: row_verifier mongo_verify_loop stored_document
  by unfold_locales (auto simp: stored_document_def mongo_loop_Cons Let_def simp del: mongo_verify_loop.simps(2))

section \<open>One edited entry in an intact chain\<close>

text \<open>What becomes of a verification when one stored entry decodes to something else.\<close>

definition edit_verdict :: "AuditEvent result \<Rightarrow> EntryID \<Rightarrow> string \<Rightarrow> (bool \<times> VerifyResult) result" where
  "edit_verdict ev i stored_hash =
     (case ev of
        Inl err \<Rightarrow> Inl (Errorf ''graudit: verify'' [err])
      | Inr e \<Rightarrow> (case entry_hash e of
          Inl err \<Rightarrow> Inl (Errorf ''graudit: verify'' [err])
        | Inr h \<Rightarrow> if h = stored_hash then Inr (True, verify_ok) else Inr (False, verify_broken i h stored_hash)))"

lemma row_walk_append:
  "linked p es \<Longrightarrow> row_walk p (map stored_event es @ rs) = row_walk (last_hash p es) rs"
  by (induction es arbitrary: p) (auto simp: stored_event_def)

lemma row_walk_edited:
  assumes "linked p (pre @ e # post)"
  shows "row_walk p (map stored_event pre @ (ID e, PrevHash e, Hash e, ev) # map stored_event post) =
    edit_verdict ev (ID e) (Hash e)"
proof -
  have l: "linked p pre" "PrevHash e = last_hash p pre" "linked (Hash e) post"
    using assms by (simp_all add: linked_append)
  have "row_walk (Hash e) (map stored_event post) = Inr (True, verify_ok)"
    using row_walk_append [OF l(3), of "[]"] by simp
  with l(2) show ?thesis unfolding row_walk_append [OF l(1)]
    by (auto simp: edit_verdict_def split: sum.split)
qed

text \<open>An edit that is accepted hashes the same bytes, or collides.\<close>

lemma edit_accepted:
  assumes "edit_verdict (Inr e') i (Hash e) = Inr (True, d)" "entry_hash e = Inr (Hash e)"
  shows "entry_preimage e' = entry_preimage e \<or> colliding e' e"
proof -
  have "entry_hash e' = Inr (Hash e)"
    using assms(1) by (auto simp: edit_verdict_def split: sum.splits if_splits)
  from same_hash_cases [OF this assms(2)] show ?thesis .
qed

text \<open>The same for a list of rows, whatever they are, with one of them replaced in place.\<close>

lemma edited_rows:
  fixes view :: "'r \<Rightarrow> stored_entry"
  assumes "linked GenesisPrevHash (map event rs)" "\<And>x. x \<in> set rs \<Longrightarrow> view x = stored_event (event x)"
    and "distinct (map key rs)" "r \<in> set rs"
    and "view (f r) = (ID (event r), PrevHash (event r), Hash (event r), ev)"
  shows "row_walk GenesisPrevHash (map (\<lambda>x. view (if key x = key r then f x else x)) rs)
    = edit_verdict ev (ID (event r)) (Hash (event r))"
proof -
  obtain pre post where rs: "rs = pre @ r # post" using assms(4) by (metis split_list)
  have other: "\<forall>x \<in> set pre \<union> set post. key x \<noteq> key r" using assms(3) by (auto simp: rs) (metis image_eqI)+
  have out: "map (\<lambda>x. view (if key x = key r then f x else x)) xs = map stored_event (map event xs)"
    if "set xs \<subseteq> set pre \<union> set post" for xs
    using that other assms(2) unfolding rs by (induction xs) auto
  have "map (\<lambda>x. view (if key x = key r then f x else x)) rs =
      map stored_event (map event pre) @ (ID (event r), PrevHash (event r), Hash (event r), ev) # map stored_event (map event post)"
    using out [of pre] out [of post] assms(5) by (simp add: rs)
  also have "row_walk GenesisPrevHash \<dots> = edit_verdict ev (ID (event r)) (Hash (event r))"
    using assms(1) by (intro row_walk_edited) (simp add: rs)
  finally show ?thesis .
qed

text \<open>Sorting and selecting see nothing of a change that keeps the key and the selection.\<close>

lemma sort_filter_map:
  assumes "\<And>x. k (g x) = k x" "\<And>x. P (g x) = P x"
  shows "sort_key k (filter P (map g xs)) = map g (sort_key k (filter P xs))"
proof -
  have "insort_key k (g x) (map g ys) = map g (insort_key k x ys)" for x ys
    by (induction ys) (simp_all add: assms(1))
  then show ?thesis by (induction xs) (simp_all add: assms(2))
qed

section \<open>Editing a row\<close>

definition edit_rows :: "string \<Rightarrow> int \<Rightarrow> (GrauditEntry \<Rightarrow> GrauditEntry) \<Rightarrow> pg_server \<Rightarrow> pg_server" where
  "edit_rows c i f srv = srv\<lparr>rows := map (\<lambda>q. if gChainID q = c \<and> gEntryID q = i then f q else q) (rows srv)\<rparr>"

text \<open>The keys and the two hashes are left alone; every other column may change.\<close>

definition row_edit :: "(GrauditEntry \<Rightarrow> GrauditEntry) \<Rightarrow> bool" where
  "row_edit f \<longleftrightarrow> (\<forall>q. gChainID (f q) = gChainID q \<and> gEntryID (f q) = gEntryID q \<and>
     gPrevHash (f q) = gPrevHash q \<and> gHash (f q) = gHash q)"

definition tampered_bytes :: string where
  "tampered_bytes = ''{'' @ [c_quote] @ ''tampered'' @ [c_quote] @ '':true}''"

definition tamperPostgresEntry :: "string \<Rightarrow> EntryID \<Rightarrow> pg_server \<Rightarrow> pg_server option" where
  "tamperPostgresEntry chainID entryID srv =
     (let i = toPgEntryID entryID in
      if length (filter (\<lambda>q. gChainID q = chainID \<and> gEntryID q = i) (rows srv)) \<noteq> 1 then None
      else Some (edit_rows chainID i (\<lambda>q. q\<lparr>gPayload := jsonb srv tampered_bytes\<rparr>) srv))"

lemma chain_rows_edit:
  assumes "row_edit f"
  shows "chain_rows d (rows (edit_rows c i f srv)) =
    map (\<lambda>q. if gChainID q = c \<and> gEntryID q = i then f q else q) (chain_rows d (rows srv))"
  using assms unfolding chain_rows_def edit_rows_def by (simp add: row_edit_def sort_filter_map)

lemma chain_rows_ids:
  assumes "table_inv srv" "r \<in> set (chain_rows c (rows srv))"
  shows "1 \<le> gEntryID r \<and> gEntryID r \<le> int (length (chain_rows c (rows srv)))"
proof -
  have "map gEntryID (chain_rows c (rows srv)) = map (\<lambda>k. int (Suc k)) [0..<length (chain_rows c (rows srv))]"
    using assms(1) unfolding table_inv_def by blast
  then have "gEntryID r \<in> set (map (\<lambda>k. int (Suc k)) [0..<length (chain_rows c (rows srv))])"
    using assms(2) by (metis image_eqI list.set_map)
  then show ?thesis by auto
qed

lemma chain_rows_distinct: "table_inv srv \<Longrightarrow> distinct (map gEntryID (chain_rows c (rows srv)))"
  by (simp add: table_inv_def distinct_map inj_on_def)

lemma list_all_rows:
  assumes "row_edit f" "table_inv srv"
  shows "ListEntriesInRange c 1 (int (length (chain_rows c (rows srv)))) (rows (edit_rows c i f srv))
    = chain_rows c (rows (edit_rows c i f srv))"
proof -
  let ?n = "int (length (chain_rows c (rows srv)))"
  have "1 \<le> gEntryID q \<and> gEntryID q \<le> ?n" if q: "q \<in> set (rows (edit_rows c i f srv))" "gChainID q = c" for q
  proof -
    from q obtain r where "r \<in> set (rows srv)" "gEntryID q = gEntryID r" "gChainID q = gChainID r"
      using assms(1) by (auto simp: edit_rows_def row_edit_def split: if_splits)
    with chain_rows_ids [OF assms(2), of r c] q(2) show ?thesis by (simp add: set_chain_rows)
  qed
  then have "filter (\<lambda>r. gChainID r = c \<and> 1 \<le> gEntryID r \<and> gEntryID r \<le> ?n) (rows (edit_rows c i f srv))
      = filter (\<lambda>r. gChainID r = c) (rows (edit_rows c i f srv))"
    by (intro filter_cong) auto
  then show ?thesis by (simp add: ListEntriesInRange_def chain_rows_def)
qed

lemma row_edit_place:
  "row_edit f \<Longrightarrow> gChainID (if b then f q else q) = gChainID q \<and> gEntryID (if b then f q else q) = gEntryID q \<and>
     gPrevHash (if b then f q else q) = gPrevHash q \<and> gHash (if b then f q else q) = gHash q"
  by (simp add: row_edit_def)

lemma stored_row_ok: "row_ok q \<Longrightarrow> stored_row q = stored_event (row_event q)"
  by (auto simp: row_ok_def stored_row_def stored_event_def row_event_fields)

lemma edited_table_Verify:
  assumes "pg_inv a" "\<not> pclosed a" "c \<noteq> []" "\<not> last_fails env" "\<not> read_fails env"
    and "row_edit f" "r \<in> set (chain_rows c (rows (server a)))"
  shows "postgres_Verify env c 1 0 (a\<lparr>server := edit_rows c (gEntryID r) f (server a)\<rparr>) =
    edit_verdict (postgresEntryToAuditEvent (f r)) (pgEntryID (gEntryID r)) (gHash r)"
proof -
  let ?srv = "edit_rows c (gEntryID r) f (server a)" and ?rs = "chain_rows c (rows (server a))"
  let ?g = "\<lambda>q. if gEntryID q = gEntryID r then f q else q"
  have inv: "table_inv (server a)" using assms(1) by (simp add: pg_inv_def)
  have ok: "\<And>q. q \<in> set ?rs \<Longrightarrow> row_ok q" using inv by (simp add: table_inv_def set_chain_rows)
  have rows: "chain_rows c (rows ?srv) = map ?g ?rs"
    unfolding chain_rows_edit [OF assms(6)] by (rule map_cong) (simp_all add: set_chain_rows)
  have ne: "?rs \<noteq> []" using assms(7) by auto
  have len: "length ?rs < 2 ^ 63" using inv by (simp add: table_inv_def)
  have n: "int (length ?rs) = gEntryID (last ?rs)"
  proof -
    have "map gEntryID ?rs = map (\<lambda>k. int (Suc k)) [0..<length ?rs]" using inv unfolding table_inv_def by blast
    then have "last (map gEntryID ?rs) = last (map (\<lambda>k. int (Suc k)) [0..<length ?rs])" by (simp only:)
    then show ?thesis using ne by (simp add: last_map) (simp add: last_conv_nth of_nat_diff Suc_leI)
  qed
  then have "pgEntryID (gEntryID (last ?rs)) = of_nat (length ?rs)"
    unfolding n [symmetric] by (simp add: pgEntryID_def)
  then have to: "toPgEntryID (pgEntryID (gEntryID (last ?rs))) = int (length ?rs)" using toPg_of_nat [OF len] by simp
  have one: "toPgEntryID 1 = 1" using toPg_of_nat [of 1] by simp
  have latest: "pg_resolveLatestEntryID False c (a\<lparr>server := ?srv\<rparr>) = Inr (pgEntryID (gEntryID (last ?rs)))"
    using ne row_edit_place [OF assms(6)] by (simp add: pg_resolveLatestEntryID_def call_def GetLastEntry_last rows last_map)
  have "postgres_Verify env c 1 0 (a\<lparr>server := ?srv\<rparr>) = pg_verify_loop 0 [] (map ?g ?rs)"
    unfolding postgres_Verify_unfold Let_def
    using assms(2-5) latest to one list_all_rows [OF assms(6) inv, of c] by (simp add: call_def rows)
  also have "\<dots> = row_walk GenesisPrevHash (map (\<lambda>q. stored_row (?g q)) ?rs)"
    unfolding pg_loop.loop_row_walk by (simp add: comp_def)
  also have "\<dots> = edit_verdict (postgresEntryToAuditEvent (f r)) (ID (row_event r)) (Hash (row_event r))"
  proof (rule edited_rows [where key = gEntryID and event = row_event])
    have "chain_ok c (table_chain (server a) c)" using inv by (simp add: table_inv_def)
    then show "linked GenesisPrevHash (map row_event ?rs)" by (simp add: chain_ok_def table_chain_def)
    show "stored_row (f r) = (ID (row_event r), PrevHash (row_event r), Hash (row_event r), postgresEntryToAuditEvent (f r))"
      using ok [OF assms(7)] assms(6) by (auto simp: stored_row_def row_edit_def row_ok_def row_event_fields)
  qed (use ok inv assms(7) in \<open>simp_all add: stored_row_ok chain_rows_distinct\<close>)
  finally show ?thesis using ok [OF assms(7)] by (auto simp: row_ok_def row_event_fields)
qed

section \<open>Payloads the server rewrites\<close>

text \<open>
  The conditions on \<^verbatim>\<open>jsonb\<close> under which the theorems on PostgreSQL hold (\<open>payload_kept\<close>) are needed: when the
  column gives back a payload with other canonical JSON, the \<^verbatim>\<open>Record\<close> call succeeds and \<^verbatim>\<open>Verify\<close>
  does not accept the row nobody has touched, unless the two payloads give a collision.
\<close>

lemma rewritten_payload_not_accepted:
  assumes "rows (server a) = []" "keeps_ms (timestamptz (server a))" "transactional (BeginFunc env)"
    and "postgres_record_op env event a = (a', Inr i)" "marshal (Payload event) = Some raw" "Payload event \<noteq> GNil"
    and "DecodeStoredPayload (jsonb (server a) raw) = Inr v" "canonicalJSON v \<noteq> canonicalJSON (Payload event)"
    and "\<not> last_fails env'" "\<not> read_fails env'"
  obtains r where "rows (server a') = [r]"
    "postgres_Verify env' (ChainID event) 1 0 a' = edit_verdict (Inr (row_event r)) 1 (gHash r)"
    "\<And>d. postgres_Verify env' (ChainID event) 1 0 a' = Inr (True, d) \<Longrightarrow>
       colliding (row_event r) ((row_event r)\<lparr>Payload := Payload event\<rparr>)"
proof -
  let ?c = "ChainID event" and ?srv = "server a"
  have inv: "table_inv ?srv" using assms(1,2) by (simp add: table_inv_def chain_rows_def table_chain_def)
  from inv assms(3) show thesis
  proof (cases rule: postgres_Record_cases [where event = event])
    case (stored raw' e r fx)
    let ?r = "sealed_row ?srv raw e"
    have raw: "raw' = raw" using stored(3) assms(5,6) by (simp add: marshalPayload_Inr)
    have rows: "rows (server a') = [?r]" "pclosed a' = pclosed a"
      using stored(6) assms(1,4) by (auto simp: raw postgres_record_op_def)
    have "?c \<noteq> []" using stored(2) by (simp add: Validate_ok_iff recordable_def)
    note s = seal_Inr [OF stored(4)]
    have e: "ID e = 1" "PrevHash e = GenesisPrevHash" "Payload e = Payload event" "ChainID e = ?c"
      using s assms(1) by (simp_all add: table_chain_def chain_rows_def)
    have "raw \<noteq> []" using assms(5) by (auto dest: marshal_nonempty)
    then have v: "DecodeStoredPayload (gPayload ?r) = Inr v" using assms(7) by (simp add: store_payload_def)
    note r = row_event_fields [OF v]
    have one: "toPgEntryID 1 = 1" "pgEntryID 1 = 1" using toPg_of_nat [of 1] by (simp_all add: pgEntryID_def)
    have "stored_row ?r = (1, GenesisPrevHash, Hash e, Inr (row_event ?r))"
      by (simp add: stored_row_def r(1) e one)
    then have "pg_verify_loop 0 [] [?r] = edit_verdict (Inr (row_event ?r)) 1 (gHash ?r)"
      unfolding pg_loop.loop_row_walk by (simp add: edit_verdict_def split: sum.split)
    then have verdict: "postgres_Verify env' ?c 1 0 a' = edit_verdict (Inr (row_event ?r)) 1 (gHash ?r)"
      using stored(1) \<open>?c \<noteq> []\<close> assms(9,10)
      by (simp add: postgres_Verify_unfold Let_def pg_resolveLatestEntryID_def call_def GetLastEntry_def chain_rows_def
          ListEntriesInRange_def rows e one)
    have "colliding (row_event ?r) ((row_event ?r)\<lparr>Payload := Payload event\<rparr>)"
      if acc: "postgres_Verify env' ?c 1 0 a' = Inr (True, d)" for d
    proof -
      let ?f = "(row_event ?r)\<lparr>Payload := Payload event\<rparr>"
      have h: "entry_hash (row_event ?r) = Inr (Hash e)"
        using acc unfolding verdict by (auto simp: edit_verdict_def split: sum.splits if_splits)
      have "ns (timestamptz ?srv (Timestamp e)) div Millisecond = ns (Timestamp e) div Millisecond"
        using assms(2) by (simp add: keeps_ms_def)
      then have "hash_content ?f = hash_content e" by (simp add: hash_content_def r(2) e one)
      from entry_hash_content [OF this] s(3) have f: "entry_hash ?f = Inr (Hash ?f)" by (simp add: r(2))
      have again: "?f\<lparr>Payload := v\<rparr> = row_event ?r" "Payload ?f = Payload event" "Hash ?f = Hash e"
        by (simp_all add: r(2))
      show ?thesis using overwritten_hash(2) [OF f, of v "Hash e", unfolded again, OF h assms(8) refl] .
    qed
    with rows(1) verdict show thesis by (rule that)
  qed (use assms(4) in \<open>simp_all add: postgres_record_op_def\<close>)
qed

text \<open>
  PostgreSQL's \<^verbatim>\<open>jsonb\<close> writes numbers without an exponent.  A \<^verbatim>\<open>float64\<close> of 1e21 or more is
  marshalled with one, so such a payload comes back with other canonical JSON.
\<close>

lemma exponent_rewritten:
  "marshal (GFloat ''1e+21'') = Some ''1e+21''"
  "DecodeStoredPayload ''1000000000000000000000'' = Inr (GNumber ''1000000000000000000000'')"
  "canonicalJSON (GNumber ''1000000000000000000000'') \<noteq> canonicalJSON (GFloat ''1e+21'')"
proof -
  let ?n = "''1000000000000000000000''"
  have m: "marshal (GFloat ''1e+21'') = Some ''1e+21''" "marshal (GNumber ?n) = Some ?n"
    by code_simp+
  show "marshal (GFloat ''1e+21'') = Some ''1e+21''" by (rule m)
  show "DecodeStoredPayload ?n = Inr (GNumber ?n)"
    using json_decode_marshal [OF m(2)] by (simp add: DecodeStoredPayload_def number_text_def)
  show "canonicalJSON (GNumber ?n) \<noteq> canonicalJSON (GFloat ''1e+21'')"
    using canonicalJSON_char [OF m(1)] canonicalJSON_char [OF m(2)] m by (simp add: number_text_def)
qed

lemma float_payload_not_accepted:
  assumes "a = sample_pg\<lparr>server := sample_server\<lparr>jsonb :=
      (\<lambda>raw. if raw = ''1e+21'' then ''1000000000000000000000'' else raw)\<rparr>\<rparr>"
    and "event = sample_event\<lparr>Payload := GFloat ''1e+21''\<rparr>"
    and "postgres_record_op good_env event a = (a', Inr i)"
  obtains r where "rows (server a') = [r]"
    "postgres_Verify good_env ''tenant-1'' 1 0 a' = edit_verdict (Inr (row_event r)) 1 (gHash r)"
    "\<And>d. postgres_Verify good_env ''tenant-1'' 1 0 a' = Inr (True, d) \<Longrightarrow>
       colliding (row_event r) ((row_event r)\<lparr>Payload := GFloat ''1e+21''\<rparr>)"
proof -
  have a: "rows (server a) = []" "keeps_ms (timestamptz (server a))" "transactional (BeginFunc good_env)"
    using sample_pg_simps(1,2,4) by (simp_all add: assms(1) sample_pg_def sample_server_def keeps_ms_Truncate pg_admissible_def)
  have ev: "Payload event = GFloat ''1e+21''" "ChainID event = ''tenant-1''" by (simp_all add: assms(2) event_simps)
  have m: "marshal (Payload event) = Some ''1e+21''" "Payload event \<noteq> GNil"
    "DecodeStoredPayload (jsonb (server a) ''1e+21'') = Inr (GNumber ''1000000000000000000000'')"
    "canonicalJSON (GNumber ''1000000000000000000000'') \<noteq> canonicalJSON (Payload event)"
    using exponent_rewritten by (simp_all add: ev assms(1))
  show thesis
    by (rule rewritten_payload_not_accepted [OF a assms(3) m sample_pg_simps(5,6)]) (use that in \<open>simp add: ev\<close>)
qed

section \<open>Editing a document\<close>

definition edit_docs :: "string \<Rightarrow> EntryID \<Rightarrow> (entryDocument \<Rightarrow> entryDocument) \<Rightarrow> mongo_server \<Rightarrow> mongo_server" where
  "edit_docs c i f srv = srv\<lparr>docs := map (\<lambda>q. if dChainID q = c \<and> dEntryID q = i then f q else q) (docs srv)\<rparr>"

definition doc_edit :: "(entryDocument \<Rightarrow> entryDocument) \<Rightarrow> bool" where
  "doc_edit f \<longleftrightarrow> (\<forall>q. dChainID (f q) = dChainID q \<and> dEntryID (f q) = dEntryID q \<and>
     dPrevHash (f q) = dPrevHash q \<and> dHash (f q) = dHash q)"

definition tamperMongoEntry :: "string \<Rightarrow> EntryID \<Rightarrow> mongo_server \<Rightarrow> mongo_server option" where
  "tamperMongoEntry chainID entryID srv =
     (if length (filter (\<lambda>q. dChainID q = chainID \<and> dEntryID q = entryID) (docs srv)) \<noteq> 1 then None
      else Some (edit_docs chainID entryID (\<lambda>q. q\<lparr>dPayload := tampered_bytes\<rparr>) srv))"

lemma stored_document_ok: "doc_ok q \<Longrightarrow> stored_document q = stored_event (doc_event q)"
  by (auto simp: doc_ok_def stored_document_def stored_event_def doc_event_fields)

lemma chain_docs_distinct:
  assumes "coll_inv srv"
  shows "distinct (map dEntryID (chain_docs c (docs srv)))"
proof -
  let ?es = "coll_chain srv c"
  have ids: "map dEntryID (chain_docs c (docs srv)) = map ID ?es"
    using doc_ok_mem [OF assms] doc_ok_event(2) by (auto simp: coll_chain_def set_chain_docs)
  have ok: "chain_ok c ?es" "length ?es < 2 ^ 63" using assms by (simp_all add: coll_inv_def)
  have "i = j" if "i < length ?es" "j < length ?es" "ID (?es ! i) = ID (?es ! j)" for i j
  proof -
    have "(of_nat (Suc i) :: u64) = of_nat (Suc j)" using that chain_ID [OF ok(1)] by (simp only:)
    moreover have "Suc i < 2 ^ 64" "Suc j < 2 ^ 64" using that(1,2) ok(2) by simp_all
    ultimately have "Suc i = Suc j" using of_nat_u64_le by (metis order_antisym order_refl)
    then show ?thesis by simp
  qed
  then have "distinct (map ID ?es)" by (auto simp: distinct_conv_nth)
  then show ?thesis by (simp only: ids)
qed

lemma edited_collection_Verify:
  assumes "mongo_inv a" "\<not> mclosed a" "c \<noteq> []" "encodes (client a)"
    and "\<not> latest_fails env" "\<not> find_fails env" "\<not> cursor_fails env"
    and "doc_edit f" "d \<in> set (chain_docs c (docs (client a)))"
  shows "mongo_Verify env c 1 0 (a\<lparr>client := edit_docs c (dEntryID d) f (client a)\<rparr>) =
    edit_verdict (toAuditEvent (f d)) (dEntryID d) (dHash d)"
proof -
  let ?srv = "edit_docs c (dEntryID d) f (client a)" and ?ds = "chain_docs c (docs (client a))"
  let ?g = "\<lambda>q. if dEntryID q = dEntryID d then f q else q"
  have inv: "coll_inv (client a)" using assms(1) by (simp add: mongo_inv_def)
  have ok: "\<And>q. q \<in> set ?ds \<Longrightarrow> doc_ok q" using doc_ok_mem [OF inv] by (simp add: set_chain_docs)
  let ?n = "of_nat (length ?ds) :: EntryID"
  have chain: "chain_ok c (map doc_event ?ds)" "length ?ds < 2 ^ 63"
    using inv by (simp_all add: coll_inv_def coll_chain_def)
  have ne: "?ds \<noteq> []" using assms(9) by auto
  have range: "1 \<le> dEntryID q \<and> dEntryID q \<le> ?n" if "q \<in> set ?ds" for q
  proof -
    have "in_range 1 ?n (map doc_event ?ds) = map doc_event ?ds" using in_range_all [OF chain(1)] chain(2) by simp
    then have "\<forall>x \<in> set (map doc_event ?ds). 1 \<le> ID x \<and> ID x \<le> ?n" unfolding in_range_def filter_id_conv .
    with that doc_ok_event(2) [OF ok [OF that]] show ?thesis by auto
  qed
  have latest: "mongo_resolveLatestEntryID env c (a\<lparr>client := ?srv\<rparr>) = Inr ?n"
    using mongo_latest [OF assms(1,5), of c] ne
    by (simp add: mongo_resolveLatestEntryID_def edit_docs_def mongo_chain_def coll_chain_def)
  have enc: "bson_uint64 ?srv 1 \<and> bson_uint64 ?srv ?n"
    using assms(4) chain(2) by (simp add: encodes_def edit_docs_def unsigned_of_nat take_bit_nat_eq_self)
  let ?sel = "\<lambda>q. dChainID q = c \<and> 1 \<le> dEntryID q \<and> dEntryID q \<le> ?n"
  have "filter ?sel (docs (client a)) = filter (\<lambda>q. dChainID q = c) (docs (client a))"
    using range by (intro filter_cong) (auto simp: set_chain_docs)
  then have "sort_key dEntryID (filter ?sel (docs ?srv)) =
      map (\<lambda>q. if dChainID q = c \<and> dEntryID q = dEntryID d then f q else q) ?ds"
    using assms(8) by (simp add: edit_docs_def doc_edit_def sort_filter_map chain_docs_def)
  also have "\<dots> = map ?g ?ds" by (rule map_cong) (simp_all add: set_chain_docs)
  finally have docs: "sort_key dEntryID (filter ?sel (docs ?srv)) = map ?g ?ds" .
  have "mongo_Verify env c 1 0 (a\<lparr>client := ?srv\<rparr>) = mongo_verify_loop 0 [] (map ?g ?ds)"
    unfolding mongo_Verify_unfold Let_def find_all_def using assms(2,3,6,7) latest enc docs by (simp add: call_def)
  also have "\<dots> = row_walk GenesisPrevHash (map (\<lambda>q. stored_document (?g q)) ?ds)"
    unfolding mg_loop.loop_row_walk by (simp add: comp_def)
  also have "\<dots> = edit_verdict (toAuditEvent (f d)) (ID (doc_event d)) (Hash (doc_event d))"
  proof (rule edited_rows [where key = dEntryID and event = doc_event])
    show "linked GenesisPrevHash (map doc_event ?ds)" using chain(1) by (simp add: chain_ok_def)
    show "stored_document (f d) = (ID (doc_event d), PrevHash (doc_event d), Hash (doc_event d), toAuditEvent (f d))"
      using ok [OF assms(9)] assms(8) by (auto simp: stored_document_def doc_edit_def doc_ok_def doc_event_fields)
  qed (use ok inv assms(9) in \<open>simp_all add: stored_document_ok chain_docs_distinct\<close>)
  finally show ?thesis using ok [OF assms(9)] by (auto simp: doc_ok_def doc_event_fields)
qed

section \<open>Properties\<close>

text \<open>
  C9. One row of an intact PostgreSQL chain is edited behind the library's back, in any
  columns but its key and its two hashes: \<^verbatim>\<open>Verify\<close> of the chain returns an error when the
  payload no longer decodes, reports exactly the position of the row, with the recomputed and the
  stored hash, when the hash is another, and accepts only an entry that hashes the same bytes or
  collides with the one recorded.  Every other chain is as before.
\<close>

theorem postgres_tampered_row:
  assumes "pg_inv a" "\<not> pclosed a" "c \<noteq> []" "\<not> last_fails env" "\<not> read_fails env"
    and "row_edit f" "r \<in> set (rows (server a))" "gChainID r = c"
    and "a' = a\<lparr>server := edit_rows c (gEntryID r) f (server a)\<rparr>"
  shows "postgres_Verify env c 1 0 a'
      = edit_verdict (postgresEntryToAuditEvent (f r)) (pgEntryID (gEntryID r)) (gHash r) \<and>
    (\<forall>e. postgresEntryToAuditEvent (f r) = Inr e \<and> postgres_Verify env c 1 0 a' = Inr (True, verify_ok) \<longrightarrow>
      entry_preimage e = entry_preimage (row_event r) \<or> colliding e (row_event r)) \<and>
    (\<forall>d. d \<noteq> c \<longrightarrow> pg_chain a' d = pg_chain a d)"
proof -
  have r: "r \<in> set (chain_rows c (rows (server a)))" using assms(7,8) by (simp add: set_chain_rows)
  have v: "postgres_Verify env c 1 0 a'
      = edit_verdict (postgresEntryToAuditEvent (f r)) (pgEntryID (gEntryID r)) (gHash r)"
    unfolding assms(9) by (rule edited_table_Verify [OF assms(1-6) r])
  have inv: "table_inv (server a)" using assms(1) by (simp add: pg_inv_def)
  then have "row_ok r" using assms(7) by (simp add: table_inv_def)
  then have hash: "Hash (row_event r) = gHash r" by (auto simp: row_ok_def row_event_fields)
  have "chain_ok c (table_chain (server a) c)" using inv by (simp add: table_inv_def)
  moreover have "row_event r \<in> set (table_chain (server a) c)" using r by (simp add: table_chain_def)
  ultimately have "entry_hash (row_event r) = Inr (Hash (row_event r))"
    by (auto simp: chain_ok_def linked_append dest!: split_list)
  from edit_accepted [OF _ this] v have acc: "\<forall>e. postgresEntryToAuditEvent (f r) = Inr e \<and>
      postgres_Verify env c 1 0 a' = Inr (True, verify_ok) \<longrightarrow>
      entry_preimage e = entry_preimage (row_event r) \<or> colliding e (row_event r)"
    unfolding hash by metis
  have "chain_rows d (rows (server a')) = chain_rows d (rows (server a))" if "d \<noteq> c" for d
  proof -
    have "chain_rows d (rows (server a')) = map (\<lambda>q. if gChainID q = c \<and> gEntryID q = gEntryID r then f q else q)
        (chain_rows d (rows (server a)))"
      using chain_rows_edit [OF assms(6)] by (simp add: assms(9))
    also have "\<dots> = chain_rows d (rows (server a))" using that by (intro map_idI) (simp add: set_chain_rows)
    finally show ?thesis .
  qed
  then have "\<forall>d. d \<noteq> c \<longrightarrow> pg_chain a' d = pg_chain a d" by (simp add: pg_chain_def table_chain_def)
  with v acc show ?thesis by blast
qed

text \<open>
  C18. The same for one document of an intact MongoDB chain, edited in any fields but its key and
  its two hashes.
\<close>

theorem mongo_tampered_document:
  assumes "mongo_inv a" "\<not> mclosed a" "c \<noteq> []" "encodes (client a)"
    and "\<not> latest_fails env" "\<not> find_fails env" "\<not> cursor_fails env"
    and "doc_edit f" "d \<in> set (docs (client a))" "dChainID d = c"
    and "a' = a\<lparr>client := edit_docs c (dEntryID d) f (client a)\<rparr>"
  shows "mongo_Verify env c 1 0 a' = edit_verdict (toAuditEvent (f d)) (dEntryID d) (dHash d) \<and>
    (\<forall>e. toAuditEvent (f d) = Inr e \<and> mongo_Verify env c 1 0 a' = Inr (True, verify_ok) \<longrightarrow>
      entry_preimage e = entry_preimage (doc_event d) \<or> colliding e (doc_event d)) \<and>
    (\<forall>k. k \<noteq> c \<longrightarrow> mongo_chain a' k = mongo_chain a k)"
proof -
  have d: "d \<in> set (chain_docs c (docs (client a)))" using assms(9,10) by (simp add: set_chain_docs)
  have v: "mongo_Verify env c 1 0 a' = edit_verdict (toAuditEvent (f d)) (dEntryID d) (dHash d)"
    unfolding assms(11) by (rule edited_collection_Verify [OF assms(1-8) d])
  have inv: "coll_inv (client a)" using assms(1) by (simp add: mongo_inv_def)
  have hash: "Hash (doc_event d) = dHash d" using doc_ok_mem [OF inv assms(9)] by (rule doc_ok_event)
  have "chain_ok c (coll_chain (client a) c)" using inv by (simp add: coll_inv_def)
  moreover have "doc_event d \<in> set (coll_chain (client a) c)" using d by (simp add: coll_chain_def)
  ultimately have "entry_hash (doc_event d) = Inr (Hash (doc_event d))"
    by (auto simp: chain_ok_def linked_append dest!: split_list)
  from edit_accepted [OF _ this] v have acc: "\<forall>e. toAuditEvent (f d) = Inr e \<and>
      mongo_Verify env c 1 0 a' = Inr (True, verify_ok) \<longrightarrow>
      entry_preimage e = entry_preimage (doc_event d) \<or> colliding e (doc_event d)"
    unfolding hash by metis
  have "chain_docs k (docs (client a')) = chain_docs k (docs (client a))" if "k \<noteq> c" for k
  proof -
    have "chain_docs k (docs (client a')) = map (\<lambda>q. if dChainID q = c \<and> dEntryID q = dEntryID d then f q else q)
        (chain_docs k (docs (client a)))"
      using assms(8) unfolding assms(11) by (simp add: edit_docs_def chain_docs_def doc_edit_def sort_filter_map)
    also have "\<dots> = chain_docs k (docs (client a))" using that by (intro map_idI) (simp add: set_chain_docs)
    finally show ?thesis .
  qed
  then have "\<forall>k. k \<noteq> c \<longrightarrow> mongo_chain a' k = mongo_chain a k" by (simp add: mongo_chain_def coll_chain_def)
  with v acc show ?thesis by blast
qed

text \<open>
  C19. The three verification loops are one: on any rows and documents that hold the same
  positions, hashes and decoded contents, or the same undecodable payloads, intact or not, the
  PostgreSQL and the MongoDB loop return the same verdict or error, and so does the in-memory loop on the decoded
  entries when all decode.
\<close>

theorem verify_loops_agree:
  assumes "list_all2 (\<lambda>r d. stored_row r = stored_document d) rs ds"
  shows "pg_verify_loop i p rs = mongo_verify_loop i p ds \<and>
    (\<forall>es. map toAuditEvent ds = map Inr es \<longrightarrow> verify_loop i p es = mongo_verify_loop i p ds)"
proof (intro conjI allI impI)
  have "map stored_row rs = map stored_document ds" using assms by (simp add: list_all2_map1 list_all2_map2 list.rel_eq [symmetric])
  then show "pg_verify_loop i p rs = mongo_verify_loop i p ds"
    unfolding pg_loop.loop_row_walk mg_loop.loop_row_walk by simp
  fix es assume es: "map toAuditEvent ds = map Inr es"
  have "stored_document d = stored_event e" if "toAuditEvent d = Inr e" for d e
    using that by (auto simp: stored_document_def stored_event_def toAuditEvent_def split: sum.splits)
  moreover have "length es = length ds" "\<And>k. k < length ds \<Longrightarrow> toAuditEvent (ds ! k) = Inr (es ! k)"
    using es by (auto simp: list_eq_iff_nth_eq)
  ultimately have "map stored_document ds = map stored_event es" by (auto simp: list_eq_iff_nth_eq)
  then show "verify_loop i p es = mongo_verify_loop i p ds"
    unfolding mem_loop.loop_row_walk mg_loop.loop_row_walk by simp
qed

section \<open>Witnesses\<close>

theorem postgres_tampered_row_witness:
  "\<exists>a' r srv. tamperPostgresEntry ''tenant-1'' 1 (server (fst (postgres_record_op good_env sample_event sample_pg))) = Some srv \<and>
     a' = (fst (postgres_record_op good_env sample_event sample_pg))\<lparr>server := srv\<rparr> \<and>
     postgres_Verify good_env ''tenant-1'' 1 0 a' = edit_verdict (postgresEntryToAuditEvent r) 1 (gHash r) \<and>
     gPayload r = tampered_bytes"
proof -
  let ?a = "fst (postgres_record_op good_env sample_event sample_pg)"
  let ?f = "\<lambda>q. q\<lparr>gPayload := jsonb (server ?a) tampered_bytes\<rparr>"
  obtain r where r: "rows (server ?a) = [r]" "gChainID r = ''tenant-1''" using sample_pg_record(1) by blast
  have inv: "pg_inv ?a"
    using pg.record_invar [OF sample_pg_inv sample_pg_simps(4)] by (metis prod.collapse)
  have opn: "\<not> pclosed ?a" using postgres_Record_open [of good_env sample_event sample_pg] sample_pg_simps(3) by (metis prod.collapse)
  have "table_inv (server ?a)" using inv by (simp add: pg_inv_def)
  from chain_rows_ids [OF this, of r "''tenant-1''"] have i: "gEntryID r = 1" by (simp add: r chain_rows_def)
  have js: "jsonb (server ?a) = (\<lambda>raw. raw)"
    by (simp add: postgres_record_op_def postgres_Record_def record_tx_def next_position_def entry_params_def
        commit_always_def call_def GetLastEntry_def chain_rows_def InsertEntry_def ComputeHash_def canonicalJSON_def
        marshalPayload_def event_simps sample_pg_def sample_server_def good_env_def)
  have "toPgEntryID 1 = 1" using toPg_of_nat [of 1] by simp
  then have t: "tamperPostgresEntry ''tenant-1'' 1 (server ?a) = Some (edit_rows ''tenant-1'' (gEntryID r) ?f (server ?a))"
    by (simp add: tamperPostgresEntry_def r i)
  have "row_edit ?f" by (simp add: row_edit_def)
  from postgres_tampered_row [OF inv opn _ sample_pg_simps(5,6) this _ r(2) refl]
  have "postgres_Verify good_env ''tenant-1'' 1 0 (?a\<lparr>server := edit_rows ''tenant-1'' (gEntryID r) ?f (server ?a)\<rparr>)
      = edit_verdict (postgresEntryToAuditEvent (?f r)) 1 (gHash (?f r))"
    by (simp add: r i pgEntryID_def)
  with t show ?thesis by (intro exI [of _ "?a\<lparr>server := edit_rows ''tenant-1'' (gEntryID r) ?f (server ?a)\<rparr>"]
      exI [of _ "?f r"] exI [of _ "edit_rows ''tenant-1'' (gEntryID r) ?f (server ?a)"]) (simp add: js)
qed

theorem mongo_tampered_document_witness:
  "\<exists>a (e :: AuditEvent) srv (d :: entryDocument). mongo_record_op retry_env sample_event sample_mongo = (a, Inr (ID e)) \<and>
     tamperMongoEntry ''tenant-1'' (ID e) (client a) = Some srv \<and>
     mongo_Verify retry_env ''tenant-1'' 1 0 (a\<lparr>client := srv\<rparr>) = edit_verdict (toAuditEvent d) (ID e) (Hash e) \<and>
     dPayload d = tampered_bytes"
proof -
  obtain e where e: "mongo_record_op retry_env sample_event sample_mongo
      = (sample_mongo\<lparr>client := stored_doc (client sample_mongo) [] e\<rparr>, Inr (ID e))" "ChainID e = ''tenant-1''"
    by (rule sample_mongo_record)
  let ?a = "sample_mongo\<lparr>client := stored_doc (client sample_mongo) [] e\<rparr>"
  let ?d = "sealed_doc (client sample_mongo) [] e" and ?f = "\<lambda>q. q\<lparr>dPayload := tampered_bytes\<rparr>"
  have docs: "docs (stored_doc (client sample_mongo) [] e) = [?d]" by (simp add: sample_mongo_def sample_deployment_def)
  have inv: "mongo_inv ?a"
    using mg.record_invar [OF mongo_inv_empty [OF sample_mongo_simps(1)] sample_mongo_simps(4)] e(1) by blast
  have opn: "\<not> mclosed ?a" using sample_mongo_simps(2) by simp
  have enc: "encodes (client ?a)" by (simp add: encodes_def sample_mongo_def sample_deployment_def)
  have t: "tamperMongoEntry ''tenant-1'' (ID e) (client ?a) = Some (edit_docs ''tenant-1'' (dEntryID ?d) ?f (client ?a))"
    by (simp add: tamperMongoEntry_def docs e(2) del: stored_doc_simps)
  have "doc_edit ?f" by (simp add: doc_edit_def)
  from mongo_tampered_document [OF inv opn _ enc sample_mongo_simps(6-8) this _ _ refl, of "''tenant-1''" ?d]
  have "mongo_Verify retry_env ''tenant-1'' 1 0 (?a\<lparr>client := edit_docs ''tenant-1'' (dEntryID ?d) ?f (client ?a)\<rparr>)
      = edit_verdict (toAuditEvent (?f ?d)) (ID e) (Hash e)"
    using docs e(2) by (simp del: stored_doc_simps)
  with t e(1) show ?thesis by (intro exI [of _ ?a] exI [of _ e]
      exI [of _ "edit_docs ''tenant-1'' (dEntryID ?d) ?f (client ?a)"] exI [of _ "?f ?d"]) simp
qed

definition sample_row :: GrauditEntry where
  "sample_row = \<lparr>gChainID = ''tenant-1'', gEntryID = 1, gActorID = ''a'', gEntityType = ''t'', gEntityID = ''i'',
     gAction = ''x'', gPayload = ''?'', gTimestamp = sample_time, gHash = ''h'', gPrevHash = GenesisPrevHash\<rparr>"

definition sample_document :: entryDocument where
  "sample_document = \<lparr>dChainID = ''tenant-1'', dEntryID = 1, dActorID = ''a'', dEntityType = ''t'', dEntityID = ''i'',
     dAction = ''x'', dPayload = ''?'', dTimestamp = sample_time, dHash = ''h'', dPrevHash = GenesisPrevHash\<rparr>"

theorem verify_loops_agree_witness:
  "pg_verify_loop 0 [] [sample_row, sample_row] = mongo_verify_loop 0 [] [sample_document, sample_document]"
proof -
  have "stored_row sample_row = stored_document sample_document"
    by (simp add: stored_row_def stored_document_def sample_row_def sample_document_def pgEntryID_def
        postgresEntryToAuditEvent_def toAuditEvent_def split: sum.split)
  then have "list_all2 (\<lambda>r d. stored_row r = stored_document d) [sample_row, sample_row] [sample_document, sample_document]"
    by simp
  from verify_loops_agree [OF this] show ?thesis by blast
qed

end
