(* ===== verification/DiffLossless.thy ===== *)
theory DiffLossless
  imports Diff
begin

text \<open>
  What a recorded change is worth to a reader of the log: with one of the two snapshots at
  hand, the diff of \<^verbatim>\<open>diff.go\<close> determines the other.  This needs keys without dots, as all exact
  statements on paths do, and snapshots without null members: \<^verbatim>\<open>valueOrNil\<close> reports a member that
  is absent and one that is null alike (\<open>null_and_absent\<close>).
\<close>

section \<open>Snapshots without null members\<close>

fun null_free :: "goval \<Rightarrow> bool" where
  "null_free (GMap kvs) = (\<forall>(k, v) \<in> set kvs. v \<noteq> GNil \<and> null_free v)"
| "null_free _ = True"

lemma null_free_member:
  assumes "null_free (GMap m)" "map_of m k = Some v"
  shows "v \<noteq> GNil" "null_free v"
  using assms(1) map_of_SomeD [OF assms(2)] by auto

lemma valueOrNil_inj:
  assumes "valueOrNil x = valueOrNil y" "x \<noteq> Some GNil" "y \<noteq> Some GNil"
  shows "x = y"
  using assms by (auto simp: valueOrNil_def split: option.splits)

lemma both_maps_None: "both_maps x y = None \<Longrightarrow> x = Some (GMap m) \<Longrightarrow> x \<noteq> y"
  by auto

section \<open>The differences determine the other side\<close>

lemma same_differences:
  assumes "\<forall>ks fd. differs b a ks fd \<longleftrightarrow> differs b a' ks fd"
    and "normal (GMap a)" "normal (GMap a')" "null_free (GMap a)" "null_free (GMap a')"
  shows "a = a'"
  using assms
proof (induction b arbitrary: a a' rule: measure_induct_rule [of "size_list (size_prod (\<lambda>x. 0) size)"])
  case (less b)
  have "map_of a k = map_of a' k" for k
  proof -
    have diff: "differs b a (k # ks) fd \<longleftrightarrow> differs b a' (k # ks) fd" for ks fd using less.prems(1) by blast
    show ?thesis
    proof (cases "both_maps (map_of b k) (map_of a k)")
      case (Some ba)
      then obtain b1 a1 where m: "map_of b k = Some (GMap b1)" "map_of a k = Some (GMap a1)"
        by (cases ba) (auto simp: both_maps_Some)
      show ?thesis
      proof (cases "both_maps (map_of b k) (map_of a' k)")
        case (Some ba')
        then obtain a1' where m': "map_of a' k = Some (GMap a1')" using m(1) by (cases ba') (auto simp: both_maps_Some)
        have "\<forall>ks fd. differs b1 a1 ks fd \<longleftrightarrow> differs b1 a1' ks fd" using diff m m' by simp
        from less.IH [OF size_member_object [OF m(1)] this normal_members [OF less.prems(2) m(2)]
            normal_members [OF less.prems(3) m'] null_free_member(2) [OF less.prems(4) m(2)]
            null_free_member(2) [OF less.prems(5) m']]
        show ?thesis by (simp add: m m')
      next
        case None
        from both_maps_None [OF None m(1)] have "map_of b k \<noteq> map_of a' k" .
        with diff [of "[]" "\<lparr>DBefore = valueOrNil (map_of b k), DAfter = valueOrNil (map_of a' k)\<rparr>"] None m
        have False by simp
        then show ?thesis ..
      qed
    next
      case leaf: None
      show ?thesis
      proof (cases "both_maps (map_of b k) (map_of a' k)")
        case (Some ba')
        then obtain b1 a1' where m: "map_of b k = Some (GMap b1)" "map_of a' k = Some (GMap a1')"
          by (cases ba') (auto simp: both_maps_Some)
        from both_maps_None [OF leaf m(1)] have "map_of b k \<noteq> map_of a k" .
        with diff [of "[]" "\<lparr>DBefore = valueOrNil (map_of b k), DAfter = valueOrNil (map_of a k)\<rparr>"] leaf m
        have False by simp
        then show ?thesis ..
      next
        case None
        note at = differs_Cons_leaf [OF leaf, of "[]"] differs_Cons_leaf [OF None, of "[]"]
        have nn: "map_of a k \<noteq> Some GNil" "map_of a' k \<noteq> Some GNil"
          using null_free_member(1) [OF less.prems(4)] null_free_member(1) [OF less.prems(5)] by blast+
        show ?thesis
        proof (cases "map_of b k = map_of a k")
          case True
          with diff [of "[]"] at show ?thesis by metis
        next
          case False
          with diff [of "[]"] at have "valueOrNil (map_of a k) = valueOrNil (map_of a' k)" by (metis FieldDiff.ext_inject)
          from valueOrNil_inj [OF this nn] show ?thesis .
        qed
      qed
    qed
  qed
  with less.prems(2,3) show ?case by (intro sorted_keys_ext) auto
qed

text \<open>Exchanging the snapshots exchanges the two sides of every difference.\<close>

lemma differs_swap:
  "differs a b ks fd \<longleftrightarrow> differs b a ks \<lparr>DBefore = DAfter fd, DAfter = DBefore fd\<rparr>"
proof (induction ks arbitrary: a b)
  case (Cons k ks)
  show ?case
  proof (cases "both_maps (map_of a k) (map_of b k)")
    case None
    then have "both_maps (map_of b k) (map_of a k) = None"
      by (metis both_maps_Some not_None_eq surj_pair)
    with None show ?thesis by (cases fd) auto
  next
    case (Some ab)
    then obtain a1 b1 where "map_of a k = Some (GMap a1)" "map_of b k = Some (GMap b1)"
      by (cases ab) (auto simp: both_maps_Some)
    with Cons.IH show ?thesis by simp
  qed
qed simp

lemma diff_determines_differences:
  assumes "iteration_order visit" "iteration_order visit'"
    and "collectDiff visit [] [] b a [] = collectDiff visit' [] [] b' a' []"
    and "plain_keys (GMap b)" "plain_keys (GMap a)" "plain_keys (GMap b')" "plain_keys (GMap a')"
  shows "differs b a ks fd \<longleftrightarrow> differs b' a' ks fd"
proof (cases "ks \<noteq> [] \<and> (\<forall>k \<in> set ks. plain_key k)")
  case True
  then show ?thesis
    using collectDiff_exact [OF assms(1,4,5), of ks fd] collectDiff_exact [OF assms(2,6,7), of ks fd] assms(3) by simp
next
  case False
  then show ?thesis using differs_plain [of b a ks fd] differs_plain [of b' a' ks fd] assms(4-7) by blast
qed

section \<open>Properties\<close>

text \<open>
  C21. The diff loses nothing: two changes with the same diff and the same snapshot before have
  the same snapshot after, and those with the same diff and the same snapshot after have the
  same snapshot before, up to normalisation and in every iteration order, for snapshots with
  plain keys and without null members.
\<close>

theorem computeDiff_lossless:
  assumes "iteration_order visit" "iteration_order visit'"
    and "computeDiff visit before after = Inr d" "computeDiff visit' before' after' = Inr d"
    and "normalizeToObject before = Inr b" "normalizeToObject after = Inr a"
    and "normalizeToObject before' = Inr b'" "normalizeToObject after' = Inr a'"
    and "list_all (\<lambda>m. plain_keys (GMap m) \<and> null_free (GMap m)) [b, a, b', a']"
  shows "b = b' \<longleftrightarrow> a = a'"
proof -
  have n: "normal (GMap b)" "normal (GMap a)" "normal (GMap b')" "normal (GMap a')"
    using assms(5-8) by (simp_all only: normalizeToObject_normal)
  have p: "plain_keys (GMap b)" "plain_keys (GMap a)" "plain_keys (GMap b')" "plain_keys (GMap a')"
    and f: "null_free (GMap b)" "null_free (GMap a)" "null_free (GMap b')" "null_free (GMap a')"
    using assms(9) by (simp_all del: plain_keys.simps null_free.simps)
  have "collectDiff visit [] [] b a [] = collectDiff visit' [] [] b' a' []"
    using assms(3-8) by (simp add: computeDiff_def)
  note same = diff_determines_differences [OF assms(1,2) this p]
  show ?thesis
  proof
    assume "b = b'"
    have "\<forall>ks fd. differs b a ks fd \<longleftrightarrow> differs b a' ks fd" using same unfolding \<open>b = b'\<close> by blast
    from same_differences [OF this n(2,4) f(2,4)] show "a = a'" .
  next
    assume "a = a'"
    have "\<forall>ks fd. differs a b ks fd \<longleftrightarrow> differs a b' ks fd"
      using same differs_swap [of a b] differs_swap [of a b'] by (simp add: \<open>a = a'\<close>)
    from same_differences [OF this n(1,3) f(1,3)] show "b = b'" .
  qed
qed

theorem computeDiff_lossless_witness:
  "\<exists>d b a. computeDiff in_order sample_before sample_after = Inr d \<and>
     normalizeToObject sample_before = Inr b \<and> normalizeToObject sample_after = Inr a \<and>
     (\<forall>before' b'. computeDiff reversed before' sample_after = Inr d \<and> normalizeToObject before' = Inr b' \<and>
        plain_keys (GMap b') \<and> null_free (GMap b') \<longrightarrow> b' = b)"
proof (intro exI conjI allI impI)
  show "computeDiff in_order sample_before sample_after = Inr (collectDiff in_order [] []
     [(''a'', GBool True), (''m'', GMap [(''x'', GString ''u'')])]
     [(''a'', GBool True), (''m'', GMap [(''x'', GString ''v'')])] [])" (is "_ = Inr ?d") by (rule sample_diff)
  fix before' b'
  assume h: "computeDiff reversed before' sample_after = Inr ?d \<and> normalizeToObject before' = Inr b' \<and>
    plain_keys (GMap b') \<and> null_free (GMap b')"
  from h show "b' = [(''a'', GBool True), (''m'', GMap [(''x'', GString ''u'')])]"
    using computeDiff_lossless [OF sample_orders(2,1) _ sample_diff _ sample_objects(2) sample_objects, of before' b']
    by (simp add: plain_key_def)
qed (rule sample_objects)+

text \<open>A member that is removed and one that is set to null give the same diff.\<close>

lemma null_and_absent:
  assumes "iteration_order visit" "k \<noteq> []" "v \<noteq> GNil"
  shows "collectDiff visit [] [] [(k, v)] [] [] = collectDiff visit [] [] [(k, v)] [(k, GNil)] []"
proof -
  have ks: "seen_keys [(k, v)] [] = [k]" "seen_keys [(k, v)] [(k, GNil)] = [k]" by (simp_all add: seen_keys_def)
  have one: "distinct (visit [] [k]) \<and> set (visit [] [k]) = {k}" using assms(1) by (simp add: iteration_order_def)
  then have "length (visit [] [k]) = 1" using distinct_card [of "visit [] [k]"] by simp
  then obtain x where "visit [] [k] = [x]" by (auto simp: length_Suc_conv)
  with one have visit: "visit [] [k] = [k]" by simp
  have turn: "collectDiff visit [] [] [(k, v)] a [] = diff_step visit [] [] [(k, v)] a k []"
    if "seen_keys [(k, v)] a = [k]" for a
    unfolding collectDiff_fold that visit by simp
  have leaf: "both_maps (Some v) None = None" "both_maps (Some v) (Some GNil) = None" by (cases v; simp)+
  show ?thesis using assms(3) unfolding turn [OF ks(1)] turn [OF ks(2)] diff_step_def
    by (simp add: leaf valueOrNil_def)
qed

end
