(* ===== verification/RecordErrors.thy ===== *)
theory RecordErrors
  imports Memory Postgres Mongo DecoderLimit
begin

text \<open>
  The errors of \<^verbatim>\<open>Record\<close>, as \<^verbatim>\<open>errors.Is\<close> sees them.  \<open>memory_Record_errors\<close> says of the in-memory
  backend which sentinel an error wraps and why; \<open>unhashable_payload\<close> follows a payload that
  passes \<^verbatim>\<open>Validate\<close> and cannot be hashed (\<open>deep_payload\<close>) through the three backends, which
  report it in two different ways, and neither time as an invalid event.
\<close>

section \<open>What wraps what\<close>

lemma Validate_error_only:
  assumes "Validate e = Inl err" "errors_Is err t"
  shows "t = ErrInvalidEvent \<or> t = ErrChainIDRequired"
  using assms by (auto simp: Validate_def required_def split: if_splits)

text \<open>The errors of hashing are of the package's own making and wrap no sentinel.\<close>

lemma canonicalJSON_error_plain:
  assumes "canonicalJSON v = Inl err"
  shows "\<not> errors_Is err t"
proof -
  have "\<not> errors_Is err t" if d: "marshal v = Some raw" "json_decode raw = Some w" "encodeCanonical w = Inl err" for raw w
  proof -
    note n = json_decode_normal(1) [OF d(2)]
    obtain u where "marshal w = Some u" using normal_marshal [OF n] by blast
    with encodeCanonical_normal [OF n this] d(3) show ?thesis by simp
  qed
  with assms show ?thesis by (auto simp: canonicalJSON_def split: if_splits option.splits)
qed

lemma ComputeHash_error:
  "isl (ComputeHash c i ac et ei an p ts prev) \<longleftrightarrow> isl (canonicalJSON p)"
  "ComputeHash c i ac et ei an p ts prev = Inl err \<Longrightarrow> \<not> errors_Is err t"
  by (auto simp: ComputeHash_def canonicalJSON_error_plain split: sum.splits)

lemma memory_Record_refused:
  "closed a \<Longrightarrow> memory_Record now event a = (a, Inl (Sentinel ErrClosed), [])"
  "\<not> closed a \<Longrightarrow> Validate event = Inl err \<Longrightarrow> memory_Record now event a = (a, Inl (Errorf ''graudit: record'' [err]), [])"
  by (simp_all add: memory_Record_def)

text \<open>Past validation the hash decides.\<close>

lemma memory_Record_validated:
  assumes "\<not> closed a" "Validate event = Inr ()"
  shows "(\<exists>err. canonicalJSON (Payload event) = Inl err \<and>
      memory_Record now event a =
        (a, Inl (Errorf ''graudit: record'' [Errorf ''graudit: compute hash'' [err]]), [])) \<or>
    \<not> isl (canonicalJSON (Payload event)) \<and> \<not> isl (fst (snd (memory_Record now event a)))"
  using assms
  by (cases "canonicalJSON (Payload event)")
    (auto simp: memory_Record_def ComputeHash_def Let_def split: prod.splits option.splits)

section \<open>Properties\<close>

text \<open>
  C33. Which errors \<^verbatim>\<open>Record\<close> of the in-memory backend returns: it fails exactly when the log is
  closed, a required field is missing, the payload does not marshal, or it marshals and cannot be
  hashed; \<^verbatim>\<open>ErrClosed\<close> is wrapped in the first case only, \<^verbatim>\<open>ErrInvalidEvent\<close> in the second and third
  only, \<^verbatim>\<open>ErrChainIDRequired\<close> exactly when the log is open and the chain is missing, and no other
  sentinel ever.
\<close>

theorem memory_Record_errors:
  "let r = fst (snd (memory_Record now event a)) in
     (\<not> isl r \<longleftrightarrow> \<not> closed a \<and> recordable event \<and> \<not> isl (canonicalJSON (Payload event))) \<and>
     (fails_with r ErrClosed \<longleftrightarrow> closed a) \<and>
     (fails_with r ErrInvalidEvent \<longleftrightarrow> \<not> closed a \<and> \<not> recordable event) \<and>
     (fails_with r ErrChainIDRequired \<longleftrightarrow> \<not> closed a \<and> ChainID event = []) \<and>
     \<not> fails_with r ErrEntryNotFound \<and> \<not> fails_with r ErrChainCorrupted \<and>
     \<not> fails_with r ErrBackendUnavailable \<and> \<not> fails_with r ErrReplicaSetRequired"
proof (cases "closed a")
  case True
  then show ?thesis by (simp add: memory_Record_refused)
next
  case not_closed: False
  show ?thesis
  proof (cases "Validate event")
    case (Inl err)
    then have "\<not> recordable event" by (metis Inl_Inr_False Validate_ok_iff)
    with not_closed Inl Validate_error [OF Inl] Validate_error_only [OF Inl] show ?thesis
      by (auto simp: Let_def memory_Record_refused)
  next
    case (Inr u)
    then have ok: "Validate event = Inr ()" by simp
    then have rec: "recordable event" "ChainID event \<noteq> []" by (simp_all add: Validate_ok_iff recordable_def)
    from memory_Record_validated [OF not_closed ok, of now] show ?thesis
    proof (elim disjE exE conjE)
      fix err assume h: "canonicalJSON (Payload event) = Inl err"
        "memory_Record now event a =
           (a, Inl (Errorf ''graudit: record'' [Errorf ''graudit: compute hash'' [err]]), [])"
      with not_closed rec canonicalJSON_error_plain [OF h(1)] show ?thesis by (simp add: Let_def)
    next
      assume "\<not> isl (canonicalJSON (Payload event))" "\<not> isl (fst (snd (memory_Record now event a)))"
      with not_closed rec show ?thesis by (cases "fst (snd (memory_Record now event a))") (simp_all add: Let_def)
    qed
  qed
qed

section \<open>The same payload on three backends\<close>

lemma ComputeHash_unhashable:
  "canonicalJSON p = Inl err \<Longrightarrow> ComputeHash c i ac et ei an p ts prev = Inl (Errorf ''graudit: compute hash'' [err])"
  by (simp add: ComputeHash_def)

lemma callbacks_fail:
  assumes "canonicalJSON (Payload event) = Inl err"
  shows "record_tx env event raw srv \<noteq> Inr p" "mongo_record_tx menv event raw attempt msrv \<noteq> Inr q"
  using ComputeHash_unhashable [OF assms]
  by (auto simp: record_tx_def mongo_record_tx_def call_def split: prod.splits)

text \<open>
  C34. A payload that marshals and cannot be hashed passes validation everywhere, and no backend
  stores it; the in-memory backend reports an error that wraps no sentinel, the two databases
  report \<^verbatim>\<open>ErrBackendUnavailable\<close>, although nothing is unavailable, and none reports
  \<^verbatim>\<open>ErrInvalidEvent\<close>.
\<close>

theorem unhashable_payload:
  assumes "Validate event = Inr ()" "canonicalJSON (Payload event) = Inl err"
    and "\<not> closed m" "\<not> pclosed p" "\<not> mclosed g"
    and "transactional (BeginFunc penv)" "retrying (WithTransaction genv)"
  shows "(\<exists>merr. memory_Record now event m = (m, Inl merr, []) \<and> (\<forall>t. \<not> errors_Is merr t)) \<and>
    (\<exists>perr. postgres_Record penv event p = (p, Inl perr, []) \<and> (\<forall>t. errors_Is perr t \<longleftrightarrow> t = ErrBackendUnavailable)) \<and>
    (\<exists>gerr. mongo_Record genv event g = (g, Inl gerr, []) \<and> (\<forall>t. errors_Is gerr t \<longleftrightarrow> t = ErrBackendUnavailable))"
proof (intro conjI)
  obtain raw where raw: "marshalPayload (Payload event) = Inr raw" using marshalPayload_Validate [OF assms(1)] .
  have bad: "canonicalJSON (Payload (stamp now' event)) = Inl err" for now' using assms(2) by simp
  show "\<exists>merr. memory_Record now event m = (m, Inl merr, []) \<and> (\<forall>t. \<not> errors_Is merr t)"
    using memory_Record_validated [OF assms(3,1), of now] canonicalJSON_error_plain [OF assms(2)] assms(2) by auto
  let ?pe = "stamp (pg_now penv) event"
  obtain srv r where tx: "BeginFunc penv (record_tx penv ?pe raw) (server p) = (srv, r)" by fastforce
  then have "tx_outcome (\<lambda>q. record_tx penv ?pe raw (server p) = Inr q) (server p) (srv, r)"
    using assms(6) unfolding transactional_def by metis
  then obtain e where "r = Inl e" "srv = server p" using callbacks_fail(1) [OF bad] by (cases rule: tx_outcome_cases) auto
  with tx raw show "\<exists>perr. postgres_Record penv event p = (p, Inl perr, []) \<and> (\<forall>t. errors_Is perr t \<longleftrightarrow> t = ErrBackendUnavailable)"
    using assms(1,4) by (auto simp: postgres_Record_def Let_def stamp_def)
  let ?ge = "stamp (m_now genv) event"
  obtain gsrv q where gtx: "WithTransaction genv (mongo_record_tx genv ?ge raw) (client g) = (gsrv, q)" by fastforce
  then have "tx_outcome (\<lambda>q. \<exists>n. mongo_record_tx genv ?ge raw n (client g) = Inr q) (client g) (gsrv, q)"
    using assms(7) unfolding retrying_def by metis
  then obtain e' where "q = Inl e'" "gsrv = client g" using callbacks_fail(2) [OF bad] by (cases rule: tx_outcome_cases) auto
  with gtx raw show "\<exists>gerr. mongo_Record genv event g = (g, Inl gerr, []) \<and> (\<forall>t. errors_Is gerr t \<longleftrightarrow> t = ErrBackendUnavailable)"
    using assms(1,5) by (auto simp: mongo_Record_def Let_def stamp_def)
qed

section \<open>Witnesses\<close>

theorem unhashable_payload_witness:
  "\<exists>merr perr gerr. let event = sample_event\<lparr>Payload := deep_payload\<rparr> in
     memory_Record sample_time event (NewMemoryAuditLog []) = (NewMemoryAuditLog [], Inl merr, []) \<and>
     \<not> errors_Is merr ErrInvalidEvent \<and>
     postgres_Record good_env event sample_pg = (sample_pg, Inl perr, []) \<and> errors_Is perr ErrBackendUnavailable \<and>
     mongo_Record retry_env event sample_mongo = (sample_mongo, Inl gerr, []) \<and> errors_Is gerr ErrBackendUnavailable"
proof -
  let ?e = "sample_event\<lparr>Payload := deep_payload\<rparr>"
  have "Validate ?e = Inr ()"
    using deep_payload_rejected(1) by (simp add: Validate_ok_iff recordable_def event_simps)
  moreover have "canonicalJSON (Payload ?e) = Inl (Errorf ''canonicalJSON: normalize'' [Native ''json''])"
    using deep_payload_rejected(2) by simp
  moreover have "\<not> closed (NewMemoryAuditLog [])" by (simp add: NewMemoryAuditLog_def)
  moreover have "transactional (BeginFunc good_env)" using sample_pg_simps(4) by (simp add: pg_admissible_def)
  ultimately show ?thesis
    using unhashable_payload [OF _ _ _ sample_pg_simps(3) sample_mongo_simps(2) _ retry_env_transactions(1)]
    unfolding Let_def by blast
qed

end
