(* ===== verification/MemConcurrency.thy ===== *)
theory MemConcurrency
  imports Memory "HOL-Library.Multiset"
begin

text \<open>
  Concurrent use of one in-memory log: \<^verbatim>\<open>Record\<close> of \<^verbatim>\<open>memory.go\<close> taken apart into the checks before
  \<^verbatim>\<open>mu.Lock\<close>, the locked section, and the publishing after \<^verbatim>\<open>mu.Unlock\<close>, interleaved with other
  calls and with \<^verbatim>\<open>Close\<close> in any order.

  \<open>memory_Record_split\<close> shows that the three parts run in sequence are \<open>memory_Record\<close>.  The
  theorems: the chains are intact under every interleaving, and each stored entry is
  published exactly once, in a system at rest; and \<^verbatim>\<open>Close\<close> does not stop a call that has passed its check.
\<close>

section \<open>The parts of a call\<close>

text \<open>The locked section: read the tail, hash, append, and move the tail.\<close>

definition locked_section :: "AuditEvent \<Rightarrow> memoryAuditLog \<Rightarrow> memoryAuditLog \<times> AuditEvent result" where
  "locked_section event a =
     (let (prevHash, nextID) = (case chains a (ChainID event) of
            None \<Rightarrow> (GenesisPrevHash, 1)
          | Some tail \<Rightarrow> (lastHash tail, lastID tail + 1))
      in case ComputeHash (ChainID event) nextID (ActorID event) (EntityType event) (EntityID event)
             (Action event) (Payload event) (Timestamp event) prevHash of
           Inl err \<Rightarrow> (a, Inl (Errorf ''graudit: record'' [err]))
         | Inr hash \<Rightarrow>
             (let event = event\<lparr>ID := nextID, Hash := hash, PrevHash := prevHash\<rparr>
              in (a\<lparr>entries := entries a @ [event],
                    chains := (chains a)(ChainID event \<mapsto> \<lparr>lastID = nextID, lastHash = hash\<rparr>)\<rparr>,
                  Inr event)))"

text \<open>Where a call is: past its checks, past the locked section, or returned.\<close>

datatype thread =
    Checked AuditEvent
  | Stored AuditEvent
  | Returned "EntryID result"

record mem_system =
  shared :: memoryAuditLog
  threads :: "thread list"
  observed :: "effect list"

definition resumed :: "nat \<Rightarrow> thread \<Rightarrow> mem_system \<Rightarrow> mem_system" where
  "resumed p t s = s\<lparr>threads := (threads s)[p := t]\<rparr>"

inductive mem_step :: "mem_system \<Rightarrow> mem_system \<Rightarrow> bool" where
  closed_already: "closed (shared s) \<Longrightarrow>
    mem_step s (s\<lparr>threads := threads s @ [Returned (Inl (Sentinel ErrClosed))]\<rparr>)"
| invalid: "\<not> closed (shared s) \<Longrightarrow> Validate event = Inl err \<Longrightarrow>
    mem_step s (s\<lparr>threads := threads s @ [Returned (Inl (Errorf ''graudit: record'' [err]))]\<rparr>)"
| checked: "\<not> closed (shared s) \<Longrightarrow> Validate event = Inr () \<Longrightarrow>
    mem_step s (s\<lparr>threads := threads s @ [Checked (stamp now event)]\<rparr>)"
| not_hashed: "p < length (threads s) \<Longrightarrow> threads s ! p = Checked event \<Longrightarrow>
    locked_section event (shared s) = (a, Inl err) \<Longrightarrow> mem_step s (resumed p (Returned (Inl err)) (s\<lparr>shared := a\<rparr>))"
| stored: "p < length (threads s) \<Longrightarrow> threads s ! p = Checked event \<Longrightarrow>
    locked_section event (shared s) = (a, Inr e) \<Longrightarrow> mem_step s (resumed p (Stored e) (s\<lparr>shared := a\<rparr>))"
| published: "p < length (threads s) \<Longrightarrow> threads s ! p = Stored e \<Longrightarrow>
    mem_step s (resumed p (Returned (Inr (ID e)))
      (s\<lparr>observed := observed s @ PublishRecorded (bus (shared s)) (logger (shared s)) e\<rparr>))"
| closing: "mem_step s (s\<lparr>shared := memory_Close (shared s)\<rparr>)"

inductive mem_reachable :: "memoryAuditLog \<Rightarrow> mem_system \<Rightarrow> bool" for a where
  at_rest: "mem_reachable a \<lparr>shared = a, threads = [], observed = []\<rparr>"
| step: "mem_reachable a s \<Longrightarrow> mem_step s s' \<Longrightarrow> mem_reachable a s'"

section \<open>The parts make up the call\<close>

lemma memory_Record_split:
  "memory_Record now event a =
     (if closed a then (a, Inl (Sentinel ErrClosed), [])
      else case Validate event of
        Inl err \<Rightarrow> (a, Inl (Errorf ''graudit: record'' [err]), [])
      | Inr _ \<Rightarrow>
          (case locked_section (stamp now event) a of
             (a', Inl err) \<Rightarrow> (a', Inl err, [])
           | (a', Inr e) \<Rightarrow> (a', Inr (ID e), PublishRecorded (bus a') (logger a') e)))"
  unfolding memory_Record_def locked_section_def Let_def stamp_def [symmetric]
  by (auto split: sum.split prod.split)

lemma locked_section_seal:
  assumes "memory_inv a"
  shows "locked_section event a =
    (case seal (memory_chain a (ChainID event)) event of
       Inl err \<Rightarrow> (a, Inl (Errorf ''graudit: record'' [err]))
     | Inr e \<Rightarrow> (a\<lparr>entries := entries a @ [e],
         chains := (chains a)(ChainID event \<mapsto> \<lparr>lastID = ID e, lastHash = Hash e\<rparr>)\<rparr>, Inr e))"
  unfolding locked_section_def memory_tail [OF assms] Let_def
  by (simp add: seal_def Let_def entry_hash_def sealing_order map_result_def split: sum.split)

section \<open>The invariant\<close>

lemma mem_step_inv: "mem_step s s' \<Longrightarrow> memory_inv (shared s) \<Longrightarrow> memory_inv (shared s')"
proof (induction rule: mem_step.induct)
  case (stored p s event a e)
  then show ?case
    by (auto simp: resumed_def locked_section_seal split: sum.splits intro: memory_inv_append)
next
  case (not_hashed p s event a err)
  then show ?case by (auto simp: resumed_def locked_section_seal split: sum.splits)
qed (auto simp: resumed_def memory_Close_inv)

lemma mem_reachable_inv: "mem_reachable a s \<Longrightarrow> memory_inv a \<Longrightarrow> memory_inv (shared s)"
  by (induction rule: mem_reachable.induct) (auto intro: mem_step_inv)

lemma locked_section_frame:
  "locked_section event a = (a', r) \<Longrightarrow> bus a' = bus a \<and> logger a' = logger a \<and> closed a' = closed a"
  "locked_section event a = (a', Inl err) \<Longrightarrow> a' = a"
  "locked_section event a = (a', Inr e) \<Longrightarrow> entries a' = entries a @ [e]"
  by (auto simp: locked_section_def Let_def split: sum.splits prod.splits)

lemma resumed_simps [simp]:
  "shared (resumed p t s) = shared s" "threads (resumed p t s) = (threads s)[p := t]"
  "observed (resumed p t s) = observed s"
  by (simp_all add: resumed_def)

text \<open>A pending publication: an entry stored by a call that has not published it yet.\<close>

fun pending :: "thread \<Rightarrow> AuditEvent list" where
  "pending (Checked event) = []"
| "pending (Stored e) = [e]"
| "pending (Returned r) = []"

lemma mset_concat_update:
  assumes "p < length ts"
  shows "mset (concat (map f (ts[p := t]))) + mset (f (ts ! p)) = mset (concat (map f ts)) + mset (f t)"
proof -
  have "ts = take p ts @ ts ! p # drop (Suc p) ts" using assms by (rule id_take_nth_drop)
  then have "mset (concat (map f ts)) = mset (concat (map f (take p ts))) + mset (f (ts ! p)) + mset (concat (map f (drop (Suc p) ts)))"
    by (metis add.assoc concat.simps(2) concat_append list.simps(9) map_append mset_append)
  with assms show ?thesis by (simp add: upd_conv_take_nth_drop)
qed

lemma mset_concat_unpending:
  assumes "p < length ts" "pending (ts ! p) = []"
  shows "mset (concat (map pending (ts[p := t]))) = mset (concat (map pending ts)) + mset (pending t)"
  using mset_concat_update [OF assms(1), of pending t] assms(2) by simp

lemma mset_concat_published:
  assumes "p < length ts" "ts ! p = Stored e"
  shows "add_mset e (mset (concat (map pending (ts[p := Returned r])))) = mset (concat (map pending ts))"
  using mset_concat_update [OF assms(1), of pending "Returned r"] assms(2) by simp

lemma published_append: "published (xs @ ys) = published xs @ published ys"
  by (induction xs rule: published.induct) auto

definition all_published :: "mem_system \<Rightarrow> bool" where
  "all_published s \<longleftrightarrow> bus (shared s) \<noteq> None \<and>
     mset (published (observed s)) + image_mset recorded_event (mset (concat (map pending (threads s))))
       = image_mset recorded_event (mset (entries (shared s)))"

lemma mem_step_published: "mem_step s s' \<Longrightarrow> all_published s \<Longrightarrow> all_published s'"
proof (induction rule: mem_step.induct)
  case (not_hashed p s event a err)
  then show ?case
    using mset_concat_unpending [of p "threads s" "Returned (Inl err)"] locked_section_frame(2) [OF not_hashed(3)]
    by (simp add: all_published_def)
next
  case (stored p s event a e)
  then show ?case
    using mset_concat_unpending [of p "threads s" "Stored e"] locked_section_frame(1,3) [OF stored(3)]
    by (simp add: all_published_def)
next
  case (published p s e)
  let ?rest = "mset (concat (map pending ((threads s)[p := Returned (Inr (ID e))])))"
  have "bus (shared s) \<noteq> None" using published.prems by (simp add: all_published_def)
  moreover have "image_mset recorded_event (mset (concat (map pending (threads s)))) = add_mset (recorded_event e) (image_mset recorded_event ?rest)"
    using mset_concat_published [OF published.hyps] by (metis image_mset_add_mset)
  ultimately show ?case using published.prems
    by (auto simp: all_published_def published_append published_PublishRecorded)
next
  case (closing s)
  then show ?case by (simp add: all_published_def memory_Close_def)
qed (simp_all add: all_published_def)

lemma mem_reachable_published:
  "mem_reachable a s \<Longrightarrow> entries a = [] \<Longrightarrow> bus a \<noteq> None \<Longrightarrow> all_published s"
proof (induction rule: mem_reachable.induct)
  case (step s s')
  then show ?case using mem_step_published by blast
qed (simp add: all_published_def)

section \<open>Close and the calls in flight\<close>

fun passed_checks :: "thread \<Rightarrow> bool" where
  "passed_checks (Checked event) = True"
| "passed_checks (Stored e) = False"
| "passed_checks (Returned r) = False"

definition in_flight :: "mem_system \<Rightarrow> nat" where
  "in_flight s = length (filter passed_checks (threads s))"

lemma length_filter_update:
  assumes "p < length ts"
  shows "length (filter P (ts[p := t])) + (if P (ts ! p) then 1 else 0) = length (filter P ts) + (if P t then 1 else 0)"
proof -
  have "length (filter P ts) = length (filter P (take p ts @ ts ! p # drop (Suc p) ts))"
    by (simp only: id_take_nth_drop [OF assms, symmetric])
  with assms show ?thesis by (simp add: upd_conv_take_nth_drop)
qed

lemma in_flight_update:
  "p < length (threads s) \<Longrightarrow> threads s ! p = t \<Longrightarrow> \<not> passed_checks t' \<Longrightarrow>
     in_flight (resumed p t' s) + (if passed_checks t then 1 else 0) = in_flight s"
  using length_filter_update [of p "threads s" passed_checks t'] by (auto simp: in_flight_def)

lemma in_flight_shared [simp]:
  "in_flight (s\<lparr>shared := a\<rparr>) = in_flight s" "in_flight (s\<lparr>observed := fx\<rparr>) = in_flight s"
  by (simp_all add: in_flight_def)

lemma mem_step_closed:
  "mem_step s s' \<Longrightarrow> closed (shared s) \<Longrightarrow>
     closed (shared s') \<and> length (entries (shared s')) + in_flight s' \<le> length (entries (shared s)) + in_flight s"
proof (induction rule: mem_step.induct)
  case (not_hashed p s event a err)
  then show ?case
    using in_flight_update [of p "s\<lparr>shared := a\<rparr>" "Checked event" "Returned (Inl err)"]
      locked_section_frame(2) [OF not_hashed(3)] by simp
next
  case (stored p s event a e)
  then show ?case
    using in_flight_update [of p "s\<lparr>shared := a\<rparr>" "Checked event" "Stored e"] locked_section_frame(1,3) [OF stored(3)]
    by simp
next
  case (published p s e)
  let ?s = "s\<lparr>observed := observed s @ PublishRecorded (bus (shared s)) (logger (shared s)) e\<rparr>"
  show ?case using published in_flight_update [of p ?s "Stored e" "Returned (Inr (ID e))"] by simp
next
  case (closing s)
  then show ?case by (simp add: in_flight_def memory_Close_def)
qed (simp_all add: in_flight_def)

section \<open>Properties\<close>

lemma mem_step_stores:
  assumes "mem_step s s'" "memory_inv (shared s)"
  shows "entries (shared s') = entries (shared s) \<or>
    (\<exists>p event e. p < length (threads s) \<and> threads s ! p = Checked event \<and>
      seal (memory_chain (shared s) (ChainID event)) event = Inr e \<and>
      entries (shared s') = entries (shared s) @ [e] \<and> threads s' = (threads s)[p := Stored e])"
  using assms(1)
proof cases
  case (not_hashed p event a err)
  then show ?thesis using locked_section_frame(2) [OF not_hashed(4)] by simp
next
  case (stored p event a e)
  have "seal (memory_chain (shared s) (ChainID event)) event = Inr e"
    using stored(4) by (auto simp: locked_section_seal [OF assms(2)] split: sum.splits)
  with stored locked_section_frame(3) [OF stored(4)] show ?thesis by auto
qed simp_all

text \<open>
  C6. Concurrent calls on one in-memory log with a bus, \<^verbatim>\<open>Close\<close> among them, in any interleaving of
  the parts of \<^verbatim>\<open>Record\<close>: every chain stays linked and numbered without gaps, with its tail;
  each step stores nothing or the one entry that continues its chain at that moment; and
  the entries published together with those still to be published are, counted with
  repetition, the entries stored.
\<close>

theorem mem_concurrent_intact:
  assumes "mem_reachable (NewMemoryAuditLog opts) s" "list_all memory_option opts"
    and "bus (NewMemoryAuditLog opts) \<noteq> None" "mem_step s s'"
  shows "linked GenesisPrevHash (memory_chain (shared s) c) \<and> numbered 1 (memory_chain (shared s) c) \<and>
    chains (shared s) c = tail_of (memory_chain (shared s) c) \<and>
    mset (published (observed s)) + image_mset recorded_event (mset (concat (map pending (threads s))))
      = image_mset recorded_event (mset (entries (shared s))) \<and>
    (entries (shared s') = entries (shared s) \<or>
     (\<exists>p event e. p < length (threads s) \<and> threads s ! p = Checked event \<and>
       seal (memory_chain (shared s) (ChainID event)) event = Inr e \<and>
       entries (shared s') = entries (shared s) @ [e] \<and> threads s' = (threads s)[p := Stored e]))"
proof -
  have inv: "memory_inv (shared s)" by (rule mem_reachable_inv [OF assms(1) memory_inv_new [OF assms(2)]])
  have "entries (NewMemoryAuditLog opts) = []"
  proof -
    have opt: "entries (f a) = entries a" if "memory_option f" for f a
      using that by cases (simp_all add: WithLogger_def WithEventBus_def)
    have "list_all memory_option opts \<Longrightarrow> entries (fold (\<lambda>f a. f a) opts a) = entries a" for a
      by (induction opts arbitrary: a) (auto simp: opt)
    with assms(2) show ?thesis by (simp add: NewMemoryAuditLog_def)
  qed
  from mem_reachable_published [OF assms(1) this assms(3)] inv mem_step_stores [OF assms(4) inv]
  show ?thesis by (simp add: all_published_def memory_inv_def chain_ok_def)
qed

text \<open>
  \<^verbatim>\<open>Close\<close> beside calls in flight: once the log is closed, however the calls run on, no more
  entries are stored than there were calls past their closed check, and the log stays
  closed; such a call can complete normally, as the README says.
\<close>

theorem mem_close_in_flight:
  assumes "mem_step\<^sup>*\<^sup>* s s'" "closed (shared s)"
  shows "closed (shared s') \<and> length (entries (shared s')) + in_flight s' \<le> length (entries (shared s)) + in_flight s"
  using assms
proof (induction rule: rtranclp_induct)
  case (step t u)
  then show ?case using mem_step_closed [OF step.hyps(2)] by auto
qed simp

section \<open>Witnesses\<close>

text \<open>A call that passed its check, then \<^verbatim>\<open>Close\<close>, then the locked section of the call.\<close>

definition bus_options :: "MemoryOption list" where
  "bus_options = [WithEventBus (Some (\<lambda>ev. None))]"

lemma bus_options_simps:
  "list_all memory_option bus_options" "bus (NewMemoryAuditLog bus_options) \<noteq> None"
  "\<not> closed (NewMemoryAuditLog bus_options)" "entries (NewMemoryAuditLog bus_options) = []"
  "\<not> closeOnce (NewMemoryAuditLog bus_options)"
  by (simp_all add: bus_options_def memory_option.intros NewMemoryAuditLog_def WithEventBus_def)

lemma sample_close_run:
  obtains s s' where "mem_reachable (NewMemoryAuditLog bus_options) s" "mem_step s s'" "closed (shared s)"
    "entries (shared s) = []" "length (entries (shared s')) = 1" "in_flight s = 1"
proof -
  let ?a = "NewMemoryAuditLog bus_options"
  let ?s0 = "\<lparr>shared = ?a, threads = [], observed = []\<rparr>"
  let ?s1 = "\<lparr>shared = ?a, threads = [Checked sample_event], observed = []\<rparr>"
  let ?s2 = "\<lparr>shared = memory_Close ?a, threads = [Checked sample_event], observed = []\<rparr>"
  have st: "stamp sample_time sample_event = sample_event" by (simp add: stamp_def event_simps)
  have "mem_reachable ?a ?s1"
    using step [OF at_rest checked [of ?s0 sample_event sample_time]] bus_options_simps(3)
    by (simp add: st event_simps)
  from step [OF this closing] have r: "mem_reachable ?a ?s2" by simp
  have inv: "memory_inv (memory_Close ?a)" by (intro memory_Close_inv memory_inv_new bus_options_simps(1))
  obtain e where e: "seal (memory_chain (memory_Close ?a) (ChainID sample_event)) sample_event = Inr e"
    by (rule seal_no_payload [of sample_event]) (simp add: event_simps)
  then obtain a' where a': "locked_section sample_event (shared ?s2) = (a', Inr e)"
    by (simp add: locked_section_seal [OF inv])
  have st: "mem_step ?s2 (resumed 0 (Stored e) (?s2\<lparr>shared := a'\<rparr>))"
    by (rule stored [OF _ _ a']) simp_all
  show thesis
    by (rule that [OF r st]) (use locked_section_frame(3) [OF a'] bus_options_simps(4,5) in
      \<open>simp_all add: memory_Close_def in_flight_def\<close>)
qed

theorem mem_concurrent_intact_witness:
  "\<exists>s s'. mem_reachable (NewMemoryAuditLog bus_options) s \<and> mem_step s s' \<and>
     linked GenesisPrevHash (memory_chain (shared s) ''tenant-1'') \<and>
     (\<exists>e. entries (shared s') = entries (shared s) @ [e])"
proof -
  obtain s s' where s: "mem_reachable (NewMemoryAuditLog bus_options) s" "mem_step s s'" "entries (shared s) = []"
    "length (entries (shared s')) = 1" by (rule sample_close_run)
  then have "entries (shared s') \<noteq> entries (shared s)" by auto
  with mem_concurrent_intact [OF s(1) bus_options_simps(1,2) s(2), of "''tenant-1''"] s(1,2) show ?thesis by blast
qed

theorem mem_close_in_flight_witness:
  "\<exists>s s'. mem_reachable (NewMemoryAuditLog bus_options) s \<and> mem_step\<^sup>*\<^sup>* s s' \<and> closed (shared s) \<and>
     length (entries (shared s')) = length (entries (shared s)) + 1 \<and> closed (shared s') \<and> in_flight s' = 0"
proof -
  obtain s s' where s: "mem_reachable (NewMemoryAuditLog bus_options) s" "mem_step s s'" "closed (shared s)"
    "entries (shared s) = []" "length (entries (shared s')) = 1" "in_flight s = 1" by (rule sample_close_run)
  have run: "mem_step\<^sup>*\<^sup>* s s'" using s(2) by blast
  from mem_close_in_flight [OF this s(3)] s run show ?thesis by (intro exI [of _ s] exI [of _ s']) simp
qed

end
