(* ===== verification/PgConcurrency.thy ===== *)
theory PgConcurrency
  imports Postgres
begin

text \<open>
  Concurrent \<^verbatim>\<open>Record\<close> calls on one PostgreSQL table: the transaction of \<^verbatim>\<open>postgres.go\<close> taken apart
  into its statements, interleaved in any order.  A statement sees the committed rows; an
  inserted row is visible to others only after its commit; \<^verbatim>\<open>pg_advisory_xact_lock\<close> waits while
  another transaction holds the same pair of keys, and the lock goes at the end of the
  transaction.  A fault ends a transaction at any point, and a commit can be left in doubt: the row is
  stored and the call returns an error all the same.

  \<open>pg_step\<close> is the step relation.  In every reachable state, whatever the server's \<^verbatim>\<open>jsonb\<close> does to
  payloads, rows are numbered without gaps and hold the stored hash of the row before, and every
  step that changes the table is one complete run of \<open>record_tx\<close>, so that taking a transaction as
  one step (in \<^verbatim>\<open>Postgres\<close>) loses nothing.  That the hashes recompute needs more, that \<^verbatim>\<open>jsonb\<close> gives
  the payloads of the calls back as the same JSON: \<open>kept_step\<close> is a step of such a run and \<open>sys_inv\<close> its
  invariant.  There is no deadlock: all pending calls can always be completed.
\<close>

section \<open>Transactions in progress\<close>

datatype phase =
    Begun AuditEvent string
  | Locked AuditEvent string
  | Positioned AuditEvent string string EntryID
  | Inserted AuditEvent string AuditEvent
  | Finished "EntryID result"

record pg_system =
  table :: pg_server
  locks :: "int \<times> int \<Rightarrow> nat option"
  txns :: "phase list"

definition lock_key :: "AuditEvent \<Rightarrow> int \<times> int" where
  "lock_key event = (chainLockKey, chainLockSubKey (ChainID event))"

fun holds :: "phase \<Rightarrow> (int \<times> int) option" where
  "holds (Begun event raw) = None"
| "holds (Locked event raw) = Some (lock_key event)"
| "holds (Positioned event raw prevHash nextID) = Some (lock_key event)"
| "holds (Inserted event raw recorded) = Some (lock_key event)"
| "holds (Finished r) = None"

fun unfinished :: "phase \<Rightarrow> bool" where
  "unfinished (Finished r) = False"
| "unfinished _ = True"

definition moved :: "nat \<Rightarrow> phase \<Rightarrow> pg_system \<Rightarrow> pg_system" where
  "moved p ph s = s\<lparr>txns := (txns s)[p := ph]\<rparr>"

text \<open>The end of a transaction: its locks are released and the call returns.\<close>

definition ended :: "nat \<Rightarrow> EntryID result \<Rightarrow> pg_system \<Rightarrow> pg_system" where
  "ended p r s = (moved p (Finished r) s)\<lparr>locks := (\<lambda>k. if locks s k = Some p then None else locks s k)\<rparr>"

definition record_failed :: "EntryID result" where
  "record_failed = Inl (Errorf ''graudit: record'' [Sentinel ErrBackendUnavailable])"

definition inserted_row :: "pg_server \<Rightarrow> string \<Rightarrow> AuditEvent \<Rightarrow> GrauditEntry" where
  "inserted_row srv raw recorded = entry_params srv recorded raw (ID recorded) (Hash recorded) (PrevHash recorded)"

definition event_hash :: "AuditEvent \<Rightarrow> EntryID \<Rightarrow> string \<Rightarrow> string result" where
  "event_hash event nextID prevHash = ComputeHash (ChainID event) nextID (ActorID event) (EntityType event)
     (EntityID event) (Action event) (Payload event) (Timestamp event) prevHash"

text \<open>A step is the arrival of a call, an ordinary statement, or a fault.\<close>

datatype label = Call AuditEvent | Work | Fault

inductive pg_step :: "label \<Rightarrow> pg_system \<Rightarrow> pg_system \<Rightarrow> bool" where
  call_begins: "Validate event = Inr () \<Longrightarrow> marshalPayload (Payload event) = Inr raw \<Longrightarrow>
    pg_step (Call event) s (s\<lparr>txns := txns s @ [Begun (stamp now event) raw]\<rparr>)"
| lock_taken: "p < length (txns s) \<Longrightarrow> txns s ! p = Begun event raw \<Longrightarrow> locks s (lock_key event) = None \<Longrightarrow>
    pg_step Work s ((moved p (Locked event raw) s)\<lparr>locks := (locks s)(lock_key event \<mapsto> p)\<rparr>)"
| tail_read: "p < length (txns s) \<Longrightarrow> txns s ! p = Locked event raw \<Longrightarrow>
    next_position (GetLastEntry (ChainID event) (rows (table s))) = (prevHash, nextID) \<Longrightarrow>
    pg_step Work s (moved p (Positioned event raw prevHash nextID) s)"
| row_inserted: "p < length (txns s) \<Longrightarrow> txns s ! p = Positioned event raw prevHash nextID \<Longrightarrow>
    event_hash event nextID prevHash = Inr hash \<Longrightarrow>
    pg_step Work s (moved p (Inserted event raw (event\<lparr>ID := nextID, Hash := hash, PrevHash := prevHash\<rparr>)) s)"
| hash_failed: "p < length (txns s) \<Longrightarrow> txns s ! p = Positioned event raw prevHash nextID \<Longrightarrow>
    event_hash event nextID prevHash = Inl err \<Longrightarrow> pg_step Work s (ended p record_failed s)"
| committed: "p < length (txns s) \<Longrightarrow> txns s ! p = Inserted event raw recorded \<Longrightarrow>
    InsertEntry (inserted_row (table s) raw recorded) (rows (table s)) = Some rs \<Longrightarrow>
    pg_step Work s ((ended p (Inr (ID recorded)) s)\<lparr>table := (table s)\<lparr>rows := rs\<rparr>\<rparr>)"
| conflicted: "p < length (txns s) \<Longrightarrow> txns s ! p = Inserted event raw recorded \<Longrightarrow>
    InsertEntry (inserted_row (table s) raw recorded) (rows (table s)) = None \<Longrightarrow>
    pg_step Work s (ended p record_failed s)"
| commit_in_doubt: "p < length (txns s) \<Longrightarrow> txns s ! p = Inserted event raw recorded \<Longrightarrow>
    InsertEntry (inserted_row (table s) raw recorded) (rows (table s)) = Some rs \<Longrightarrow>
    pg_step Fault s ((ended p record_failed s)\<lparr>table := (table s)\<lparr>rows := rs\<rparr>\<rparr>)"
| fault: "p < length (txns s) \<Longrightarrow> unfinished (txns s ! p) \<Longrightarrow> pg_step Fault s (ended p record_failed s)"

inductive_cases pg_step_CallE: "pg_step (Call event) s s'"

text \<open>The arrival of a call stores nothing.\<close>

lemma call_stores_nothing: "pg_step (Call event) s s' \<Longrightarrow> table s' = table s"
  by (auto elim!: pg_step_CallE)

definition idle_system :: "pg_server \<Rightarrow> pg_system" where
  "idle_system srv = \<lparr>table = srv, locks = (\<lambda>k. None), txns = []\<rparr>"

inductive pg_reachable :: "pg_server \<Rightarrow> pg_system \<Rightarrow> bool" for srv where
  idle: "pg_reachable srv (idle_system srv)"
| step: "pg_reachable srv s \<Longrightarrow> pg_step l s s' \<Longrightarrow> pg_reachable srv s'"

text \<open>A step in which no call begins, or one whose payload the server gives back as the same JSON.\<close>

definition kept_call :: "pg_system \<Rightarrow> label \<Rightarrow> bool" where
  "kept_call s l = (case l of Call event \<Rightarrow> payload_kept (table s) event | _ \<Rightarrow> True)"

definition kept_step :: "pg_system \<Rightarrow> pg_system \<Rightarrow> bool" where
  "kept_step s s' \<longleftrightarrow> (\<exists>l. pg_step l s s' \<and> kept_call s l)"

lemma kept_reachable: "kept_step\<^sup>*\<^sup>* (idle_system srv) s \<Longrightarrow> pg_reachable srv s"
  by (induction rule: rtranclp_induct) (auto simp: kept_step_def intro: idle step)

section \<open>The invariant\<close>

text \<open>Exactly the transactions past the lock statement hold locks, each that of its own chain.\<close>

definition locks_ok :: "pg_system \<Rightarrow> bool" where
  "locks_ok s \<longleftrightarrow> (\<forall>k p. locks s k = Some p \<longleftrightarrow> p < length (txns s) \<and> holds (txns s ! p) = Some k)"

text \<open>What a transaction has read or inserted is still current in the committed table.\<close>

definition tail_current :: "pg_server \<Rightarrow> phase \<Rightarrow> bool" where
  "tail_current srv ph \<longleftrightarrow>
     (case ph of
        Begun event raw \<Rightarrow> marshalPayload (Payload event) = Inr raw \<and> payload_kept srv event
      | Locked event raw \<Rightarrow> marshalPayload (Payload event) = Inr raw \<and> payload_kept srv event
      | Positioned event raw prevHash nextID \<Rightarrow>
          marshalPayload (Payload event) = Inr raw \<and> payload_kept srv event \<and>
          (prevHash, nextID) = (last_hash GenesisPrevHash (table_chain srv (ChainID event)),
            of_nat (length (table_chain srv (ChainID event))) + 1)
      | Inserted event raw recorded \<Rightarrow>
          marshalPayload (Payload event) = Inr raw \<and> payload_kept srv event \<and>
          seal (table_chain srv (ChainID event)) event = Inr recorded
      | Finished r \<Rightarrow> True)"

definition sys_inv :: "pg_system \<Rightarrow> bool" where
  "sys_inv s \<longleftrightarrow> table_inv (table s) \<and> locks_ok s \<and> (\<forall>ph \<in> set (txns s). tail_current (table s) ph)"

definition table_room :: "pg_server \<Rightarrow> bool" where
  "table_room srv \<longleftrightarrow> (\<forall>c. length (chain_rows c (rows srv)) < 2 ^ 63 - 1)"

lemma moved_simps [simp]:
  "table (moved p ph s) = table s" "locks (moved p ph s) = locks s" "txns (moved p ph s) = (txns s)[p := ph]"
  by (simp_all add: moved_def)

lemma ended_simps [simp]:
  "table (ended p r s) = table s" "txns (ended p r s) = (txns s)[p := Finished r]"
  "locks (ended p r s) = (\<lambda>k. if locks s k = Some p then None else locks s k)"
  by (simp_all add: ended_def)

lemma locks_ok_moved:
  assumes "locks_ok s" "p < length (txns s)" "holds ph = holds (txns s ! p)"
  shows "locks_ok (moved p ph s)"
  using assms unfolding locks_ok_def by (auto simp: nth_list_update)

lemma locks_ok_ended: "locks_ok s \<Longrightarrow> p < length (txns s) \<Longrightarrow> locks_ok (ended p r s)"
  unfolding locks_ok_def by (auto simp: nth_list_update split: if_splits) (metis option.inject)+

lemma tail_current_Finished [simp]: "tail_current srv (Finished r)"
  by (simp add: tail_current_def)

lemma sys_inv_moved:
  assumes "sys_inv s" "table s' = table s" "txns s' = (txns s)[p := ph]" "locks_ok s'" "tail_current (table s) ph"
  shows "sys_inv s'"
  using assms set_update_subset_insert [of "txns s" p ph] unfolding sys_inv_def by auto

lemma tail_current_nth: "sys_inv s \<Longrightarrow> p < length (txns s) \<Longrightarrow> tail_current (table s) (txns s ! p)"
  by (simp add: sys_inv_def)

lemma sys_inv_ended:
  assumes "sys_inv s" "p < length (txns s)"
  shows "sys_inv (ended p r s)"
  by (rule sys_inv_moved [OF assms(1), of _ p "Finished r"])
    (use assms locks_ok_ended [of s p] in \<open>simp_all add: sys_inv_def\<close>)

lemma inserted_row_sealed: "inserted_row srv raw e = sealed_row srv raw e"
  by (simp add: inserted_row_def entry_params_def sealed_row_def)

lemma payload_kept_jsonb: "jsonb srv' = jsonb srv \<Longrightarrow> payload_kept srv' event = payload_kept srv event"
  by (simp add: payload_kept_def split: option.split)

lemma table_room_mono: "table_room (srv\<lparr>rows := rows srv @ xs\<rparr>) \<Longrightarrow> table_room srv"
proof -
  assume room: "table_room (srv\<lparr>rows := rows srv @ xs\<rparr>)"
  have "length (chain_rows c (rows srv)) \<le> length (chain_rows c (rows srv @ xs))" for c by (simp add: chain_rows_def)
  with room show ?thesis by (auto simp: table_room_def intro: le_less_trans)
qed

text \<open>What a commit does to the table of a system that satisfies the invariant.\<close>

lemma commit_effect:
  assumes "sys_inv s" "table_room (table s)" "p < length (txns s)" "txns s ! p = Inserted event raw recorded"
    and "InsertEntry (inserted_row (table s) raw recorded) (rows (table s)) = Some rs"
  shows "table_inv ((table s)\<lparr>rows := rs\<rparr>)"
    "c \<noteq> ChainID event \<Longrightarrow> table_chain ((table s)\<lparr>rows := rs\<rparr>) c = table_chain (table s) c"
    "rs = rows (table s) @ [sealed_row (table s) raw recorded]"
    "seal (table_chain (table s) (ChainID event)) event = Inr recorded"
    "table_chain ((table s)\<lparr>rows := rs\<rparr>) (ChainID event) = table_chain (table s) (ChainID event)
       @ [row_event (sealed_row (table s) raw recorded)]"
proof -
  have inv: "table_inv (table s)" using assms(1) by (simp add: sys_inv_def)
  have cur: "tail_current (table s) (Inserted event raw recorded)"
    using assms(1,3,4) nth_mem [of p "txns s"] by (auto simp: sys_inv_def)
  then have e: "marshalPayload (Payload event) = Inr raw" "seal (table_chain (table s) (ChainID event)) event = Inr recorded"
    and st: "storable (table s) event"
    using assms(2) by (simp_all add: tail_current_def storable_def table_room_def)
  show rs: "rs = rows (table s) @ [sealed_row (table s) raw recorded]"
    using InsertEntry_Some [OF assms(5)] by (simp add: inserted_row_sealed)
  show "seal (table_chain (table s) (ChainID event)) event = Inr recorded" by (rule e(2))
  note t = table_append [OF inv st e]
  show "table_inv ((table s)\<lparr>rows := rs\<rparr>)" using t(1) by (simp add: rs)
  show "table_chain ((table s)\<lparr>rows := rs\<rparr>) c = table_chain (table s) c" if "c \<noteq> ChainID event"
    using t(2) that by (simp add: rs)
  show "table_chain ((table s)\<lparr>rows := rs\<rparr>) (ChainID event) = table_chain (table s) (ChainID event)
      @ [row_event (sealed_row (table s) raw recorded)]"
    using t(2) by (simp add: rs)
qed

text \<open>
  A commit to one chain leaves what every other transaction has read current: one that
  has read the same chain would hold the same lock.
\<close>

lemma commit_keeps_others:
  assumes "sys_inv s" "table_room (table s)" "p < length (txns s)" "txns s ! p = Inserted event raw recorded"
    and "InsertEntry (inserted_row (table s) raw recorded) (rows (table s)) = Some rs"
    and "q < length (txns s)" "q \<noteq> p"
  shows "tail_current ((table s)\<lparr>rows := rs\<rparr>) (txns s ! q)"
proof -
  let ?srv' = "(table s)\<lparr>rows := rs\<rparr>"
  have cur: "tail_current (table s) (txns s ! q)" using assms(1,6) by (simp add: sys_inv_def)
  have "locks_ok s" using assms(1) by (simp add: sys_inv_def)
  then have lock: "locks s k = Some r \<longleftrightarrow> r < length (txns s) \<and> holds (txns s ! r) = Some k" for k r
    unfolding locks_ok_def by blast
  have other: "ChainID event' \<noteq> ChainID event" if "holds (txns s ! q) = Some (lock_key event')" for event'
  proof
    assume "ChainID event' = ChainID event"
    then have "locks s (lock_key event) = Some q" using that assms(6) by (simp add: lock lock_key_def)
    moreover have "locks s (lock_key event) = Some p" using assms(3,4) by (simp add: lock)
    ultimately show False using assms(7) by simp
  qed
  note chain = commit_effect(2) [OF assms(1-5)]
  have kept: "payload_kept ?srv' ev = payload_kept (table s) ev" for ev by (rule payload_kept_jsonb) simp
  show ?thesis
    using cur other by (cases "txns s ! q") (simp_all add: tail_current_def kept chain)
qed

lemma commit_inv:
  assumes "sys_inv s" "table_room (table s)" "p < length (txns s)" "txns s ! p = Inserted event raw recorded"
    and "InsertEntry (inserted_row (table s) raw recorded) (rows (table s)) = Some rs"
  shows "sys_inv ((ended p r s)\<lparr>table := (table s)\<lparr>rows := rs\<rparr>\<rparr>)"
proof -
  have "tail_current ((table s)\<lparr>rows := rs\<rparr>) ph" if ph: "ph \<in> set ((txns s)[p := Finished r])" for ph
  proof -
    obtain q where q: "q < length (txns s)" "ph = (txns s)[p := Finished r] ! q"
      using ph by (auto simp: in_set_conv_nth)
    then show ?thesis using commit_keeps_others [OF assms q(1)] by (cases "q = p") simp_all
  qed
  moreover have "locks_ok ((ended p r s)\<lparr>table := (table s)\<lparr>rows := rs\<rparr>\<rparr>)"
    using locks_ok_ended [of s p] assms by (simp add: sys_inv_def locks_ok_def)
  ultimately show ?thesis using commit_effect(1) [OF assms] by (simp add: sys_inv_def)
qed

lemma pg_step_inv:
  assumes "pg_step l s s'" "sys_inv s" "table_room (table s)" "kept_call s l"
  shows "sys_inv s'"
  using assms
proof (induction rule: pg_step.induct)
  case (call_begins event raw s now)
  then have "tail_current (table s) (Begun (stamp now event) raw)"
    by (simp add: tail_current_def payload_kept_def kept_call_def)
  then show ?case using call_begins.prems
    by (auto simp: sys_inv_def locks_ok_def nth_append split: if_splits)
next
  case (lock_taken p s event raw)
  have "locks_ok ((moved p (Locked event raw) s)\<lparr>locks := (locks s)(lock_key event \<mapsto> p)\<rparr>)"
    using lock_taken unfolding sys_inv_def locks_ok_def by (auto simp: nth_list_update) (metis option.distinct(1))+
  moreover have "tail_current (table s) (Locked event raw)"
    using tail_current_nth [OF lock_taken.prems(1) lock_taken.hyps(1)] lock_taken.hyps(2) by (simp add: tail_current_def)
  ultimately show ?case by (intro sys_inv_moved [OF lock_taken.prems(1), of _ p]) simp_all
next
  case (tail_read p s event raw prevHash nextID)
  have inv: "table_inv (table s)" "locks_ok s" using tail_read.prems by (simp_all add: sys_inv_def)
  have "tail_current (table s) (Positioned event raw prevHash nextID)"
    using tail_current_nth [OF tail_read.prems(1) tail_read.hyps(1)] tail_read.hyps(2,3) table_last [OF inv(1)]
    by (simp add: tail_current_def)
  then show ?case using tail_read.hyps
    by (intro sys_inv_moved [OF tail_read.prems(1), of _ p] locks_ok_moved inv) simp_all
next
  case (row_inserted p s event raw prevHash nextID hash)
  have "tail_current (table s) (Inserted event raw (event\<lparr>ID := nextID, Hash := hash, PrevHash := prevHash\<rparr>))"
    using tail_current_nth [OF row_inserted.prems(1) row_inserted.hyps(1)] row_inserted.hyps(2,3)
    by (simp add: tail_current_def seal_def Let_def entry_hash_def event_hash_def sealing_order)
  moreover have "locks_ok s" using row_inserted.prems by (simp add: sys_inv_def)
  ultimately show ?case using row_inserted.hyps
    by (intro sys_inv_moved [OF row_inserted.prems(1), of _ p] locks_ok_moved) simp_all
qed (blast intro: sys_inv_ended commit_inv)+

text \<open>Rows are only ever added.\<close>

lemma pg_step_rows: "pg_step l s s' \<Longrightarrow> \<exists>xs. table s' = (table s)\<lparr>rows := rows (table s) @ xs\<rparr>"
proof (induction rule: pg_step.induct)
  case (committed p s event raw recorded rs)
  then show ?case using InsertEntry_Some [OF committed(3)] by auto
next
  case (commit_in_doubt p s event raw recorded rs)
  then show ?case using InsertEntry_Some [OF commit_in_doubt(3)] by auto
qed (auto intro: exI [of _ "[]"])

lemma kept_run_inv:
  assumes "kept_step\<^sup>*\<^sup>* (idle_system srv) s" "table_inv srv" "table_room (table s)"
  shows "sys_inv s"
  using assms(1,3)
proof (induction rule: rtranclp_induct)
  case base
  then show ?case using assms(2) by (simp add: sys_inv_def idle_system_def locks_ok_def)
next
  case (step s s')
  obtain l where l: "pg_step l s s'" "kept_call s l" using step.hyps(2) by (auto simp: kept_step_def)
  have "table_room (table s)" using step.prems pg_step_rows [OF l(1)] table_room_mono by metis
  with step l show ?case using pg_step_inv by blast
qed

section \<open>Readers\<close>

lemma pg_step_grows:
  assumes "pg_step l s s'" "sys_inv s" "table_room (table s)"
  shows "\<exists>ext. table_chain (table s') c = table_chain (table s) c @ ext"
  using assms(1)
proof cases
  case (committed p event raw recorded rs)
  note e = commit_effect [OF assms(2,3) committed(3-5)]
  show ?thesis
    using e(2,5) committed(2) by (cases "c = ChainID event") auto
next
  case (commit_in_doubt p event raw recorded rs)
  note e = commit_effect [OF assms(2,3) commit_in_doubt(3-5)]
  show ?thesis
    using e(2,5) commit_in_doubt(2) by (cases "c = ChainID event") auto
qed simp_all

interpretation pg_shared: shared_store kept_step "\<lambda>s. table_chain (table s)" sys_inv
  "\<lambda>s. table_room (table s)"
proof unfold_locales
  fix s s' c
  show "kept_step s s' \<Longrightarrow> sys_inv s \<Longrightarrow> table_room (table s) \<Longrightarrow> sys_inv s'"
    using pg_step_inv unfolding kept_step_def by blast
  show "kept_step s s' \<Longrightarrow> sys_inv s \<Longrightarrow> table_room (table s) \<Longrightarrow>
      \<exists>ext. table_chain (table s') c = table_chain (table s) c @ ext"
    using pg_step_grows unfolding kept_step_def by blast
  show "kept_step s s' \<Longrightarrow> table_room (table s') \<Longrightarrow> table_room (table s)"
    using pg_step_rows table_room_mono unfolding kept_step_def by metis
  show "sys_inv s \<Longrightarrow> chain_ok c (table_chain (table s) c) \<and> length (table_chain (table s) c) < 2 ^ 63"
    by (simp add: sys_inv_def table_inv_def table_chain_def)
qed

section \<open>Progress\<close>

text \<open>The statements a call has still to execute.\<close>

fun remaining :: "phase \<Rightarrow> nat" where
  "remaining (Begun event raw) = 4"
| "remaining (Locked event raw) = 3"
| "remaining (Positioned event raw prevHash nextID) = 2"
| "remaining (Inserted event raw recorded) = 1"
| "remaining (Finished r) = 0"

definition work_left :: "pg_system \<Rightarrow> nat" where
  "work_left s = sum_list (map remaining (txns s))"

lemma work_left_le: "work_left s \<le> 4 * length (txns s)"
proof -
  have "remaining ph \<le> 4" for ph by (cases ph) auto
  then have "sum_list (map remaining phs) \<le> 4 * length phs" for phs
    by (induction phs) (auto intro: add_mono)
  then show ?thesis by (simp add: work_left_def)
qed

lemma work_left_update:
  assumes "p < length phs" "remaining ph < remaining (phs ! p)"
  shows "sum_list (map remaining (phs[p := ph])) < sum_list (map remaining phs)"
proof -
  have "remaining (phs ! p) \<le> sum_list (map remaining phs)"
    using assms(1) elem_le_sum_list [of p "map remaining phs"] by simp
  with assms show ?thesis by (simp add: map_update sum_list_update)
qed

lemma unfinished_remaining: "unfinished ph \<longleftrightarrow> 0 < remaining ph"
  by (cases ph) auto

fun is_call :: "label \<Rightarrow> bool" where
  "is_call (Call event) = True"
| "is_call _ = False"

lemma step_works: "pg_step l s s' \<Longrightarrow> \<not> is_call l \<Longrightarrow> work_left s' < work_left s"
  by (induction rule: pg_step.induct) (simp_all add: work_left_def work_left_update unfinished_remaining)

lemma step_locks: "pg_step l s s' \<Longrightarrow> locks_ok s \<Longrightarrow> locks_ok s'"
proof (induction rule: pg_step.induct)
  case (lock_taken p s event raw)
  then show ?case unfolding locks_ok_def by (auto simp: nth_list_update) (metis option.distinct(1))+
next
  case (committed p s event raw recorded rs)
  then show ?case using locks_ok_ended [of s p] by (simp add: locks_ok_def)
next
  case (commit_in_doubt p s event raw recorded rs)
  then show ?case using locks_ok_ended [of s p] by (simp add: locks_ok_def)
qed (auto intro: locks_ok_moved locks_ok_ended, auto simp: locks_ok_def nth_append split: if_splits)

lemma reachable_locks: "pg_reachable srv s \<Longrightarrow> locks_ok s"
proof (induction rule: pg_reachable.induct)
  case (step s l s')
  then show ?case using step_locks by blast
qed (simp add: idle_system_def locks_ok_def)

text \<open>A transaction that holds a lock can always execute its next statement.\<close>

lemma holder_works:
  assumes "p < length (txns s)" "holds (txns s ! p) = Some k"
  shows "\<exists>s'. pg_step Work s s'"
proof (cases "txns s ! p")
  case (Locked event raw)
  with assms(1) show ?thesis
    by (cases "next_position (GetLastEntry (ChainID event) (rows (table s)))") (blast intro: tail_read)
next
  case (Positioned event raw prevHash nextID)
  with assms(1) show ?thesis
    by (cases "event_hash event nextID prevHash") (blast intro: row_inserted hash_failed)+
next
  case (Inserted event raw recorded)
  with assms(1) show ?thesis
    by (cases "InsertEntry (inserted_row (table s) raw recorded) (rows (table s))") (blast intro: committed conflicted)+
qed (use assms(2) in simp_all)

lemma no_deadlock:
  assumes "locks_ok s" "p < length (txns s)" "unfinished (txns s ! p)"
  shows "\<exists>s'. pg_step Work s s'"
proof (cases "holds (txns s ! p)")
  case None
  then obtain event raw where ph: "txns s ! p = Begun event raw" using assms(3) by (cases "txns s ! p") auto
  show ?thesis
  proof (cases "locks s (lock_key event)")
    case None
    with assms(2) ph show ?thesis by (blast intro: lock_taken)
  next
    case (Some q)
    then show ?thesis using assms(1) holder_works unfolding locks_ok_def by blast
  qed
qed (use assms(2) holder_works in blast)

lemma completes:
  "locks_ok s \<Longrightarrow> \<exists>s'. (pg_step Work)\<^sup>*\<^sup>* s s' \<and> \<not> list_ex unfinished (txns s')"
proof (induction "work_left s" arbitrary: s rule: less_induct)
  case less
  show ?case
  proof (cases "list_ex unfinished (txns s)")
    case True
    then obtain p where "p < length (txns s)" "unfinished (txns s ! p)" by (auto simp: list_ex_length)
    with less.prems obtain t where t: "pg_step Work s t" using no_deadlock by blast
    have "work_left t < work_left s" using step_works [OF t] by simp
    from less.hyps [OF this step_locks [OF t less.prems]] t show ?thesis
      by (meson converse_rtranclp_into_rtranclp)
  qed auto
qed

section \<open>Properties\<close>

definition succeeded :: "phase \<Rightarrow> bool" where
  "succeeded ph = (case ph of Finished r \<Rightarrow> \<not> fails_with r ErrBackendUnavailable | _ \<Rightarrow> False)"

lemma succeeded_simps [simp]:
  "\<not> succeeded (Begun event raw)" "\<not> succeeded (Locked event raw)" "\<not> succeeded (Positioned event raw prevHash nextID)"
  "\<not> succeeded (Inserted event raw recorded)" "succeeded (Finished (Inr i))" "\<not> succeeded (Finished record_failed)"
  by (simp_all add: succeeded_def record_failed_def)




section \<open>What holds whatever happens to the payloads\<close>

text \<open>What a transaction has read is still the last row of its chain, and what it inserted follows it.\<close>

definition tail_kept :: "pg_server \<Rightarrow> phase \<Rightarrow> bool" where
  "tail_kept srv ph \<longleftrightarrow>
     (case ph of
        Positioned event raw prevHash nextID \<Rightarrow>
          next_position (GetLastEntry (ChainID event) (rows srv)) = (prevHash, nextID)
      | Inserted event raw recorded \<Rightarrow>
          (\<exists>hash prevHash nextID. next_position (GetLastEntry (ChainID event) (rows srv)) = (prevHash, nextID) \<and>
            event_hash event nextID prevHash = Inr hash \<and>
            recorded = event\<lparr>ID := nextID, Hash := hash, PrevHash := prevHash\<rparr>)
      | _ \<Rightarrow> True)"

lemma tail_kept_simps [simp]:
  "tail_kept srv (Begun event raw)" "tail_kept srv (Locked event raw)" "tail_kept srv (Finished r)"
  "tail_kept srv (Positioned event raw prevHash nextID) \<longleftrightarrow>
     next_position (GetLastEntry (ChainID event) (rows srv)) = (prevHash, nextID)"
  by (simp_all add: tail_kept_def)

lemma sole_holder:
  assumes "locks_ok s" "p < length (txns s)" "holds (txns s ! p) = Some k" "q < length (txns s)" "holds (txns s ! q) = Some k"
  shows "q = p"
  using assms unfolding locks_ok_def by (metis option.inject)

lemma GetLastEntry_other: "gChainID r \<noteq> c \<Longrightarrow> GetLastEntry c (rs @ [r]) = GetLastEntry c rs"
  by (simp add: GetLastEntry_def chain_rows_def)

lemma tail_kept_commit:
  assumes "locks_ok s" "\<forall>ph \<in> set (txns s). tail_kept (table s) ph"
    and "p < length (txns s)" "txns s ! p = Inserted event raw recorded"
    and "InsertEntry (inserted_row (table s) raw recorded) (rows (table s)) = Some rs"
    and "ph \<in> set ((txns s)[p := Finished r])"
  shows "tail_kept ((table s)\<lparr>rows := rs\<rparr>) ph"
proof -
  obtain q where q: "q < length (txns s)" "ph = (txns s)[p := Finished r] ! q"
    using assms(6) by (auto simp: in_set_conv_nth)
  have "tail_kept (table s) (Inserted event raw recorded)" using assms(2-4) by (metis nth_mem)
  then have "ChainID recorded = ChainID event" by (auto simp: tail_kept_def)
  then have c: "gChainID (inserted_row (table s) raw recorded) = ChainID event" by (simp add: inserted_row_sealed)
  have rs: "rs = rows (table s) @ [inserted_row (table s) raw recorded]" using InsertEntry_Some [OF assms(5)] by simp
  have last: "GetLastEntry (ChainID event') rs = GetLastEntry (ChainID event') (rows (table s))"
    if "q \<noteq> p" "holds (txns s ! q) = Some (lock_key event')" for event'
  proof -
    have "ChainID event' \<noteq> ChainID event"
      using sole_holder [OF assms(1,3) _ q(1) that(2)] assms(4) that(1) by (auto simp: lock_key_def)
    then show ?thesis using GetLastEntry_other c by (simp add: rs)
  qed
  have "tail_kept (table s) (txns s ! q)" using assms(2) q(1) by simp
  then show ?thesis using last q by (cases "q = p"; cases "txns s ! q") (auto simp: tail_kept_def)
qed

lemma step_tails:
  assumes "pg_step l s s'" "locks_ok s" "\<forall>ph \<in> set (txns s). tail_kept (table s) ph"
  shows "\<forall>ph \<in> set (txns s'). tail_kept (table s') ph"
proof -
  have upd: "\<forall>ph \<in> set ((txns s)[p := ph']). tail_kept (table s) ph" if "tail_kept (table s) ph'" for p ph'
    using that assms(3) set_update_subset_insert [of "txns s" p ph'] by blast
  from assms(1) show ?thesis
  proof cases
    case (row_inserted p event raw prevHash nextID hash)
    have "tail_kept (table s) (Positioned event raw prevHash nextID)" using assms(3) row_inserted by (metis nth_mem)
    then have "tail_kept (table s) (Inserted event raw (event\<lparr>ID := nextID, Hash := hash, PrevHash := prevHash\<rparr>))"
      using row_inserted by (auto simp: tail_kept_def)
    from upd [OF this, of p] row_inserted show ?thesis by simp
  next
    case (committed p event raw recorded rs)
    with tail_kept_commit [OF assms(2,3) committed(3-5)] show ?thesis by simp
  next
    case (commit_in_doubt p event raw recorded rs)
    with tail_kept_commit [OF assms(2,3) commit_in_doubt(3-5)] show ?thesis by simp
  qed (use assms(3) in \<open>auto simp: moved_def ended_def dest!: set_update_subset_insert [THEN subsetD]\<close>)
qed

lemma reachable_tails: "pg_reachable srv s \<Longrightarrow> \<forall>ph \<in> set (txns s). tail_kept (table s) ph"
proof (induction rule: pg_reachable.induct)
  case (step s l s')
  with step_tails [OF step.hyps(2) reachable_locks [OF step.hyps(1)]] show ?case by blast
qed (simp add: idle_system_def)






text \<open>
  C24. Interleaved transactions refine the atomic one: every step of a reachable system either
  leaves the table alone or changes it as one undisturbed run of the transaction of \<^verbatim>\<open>Record\<close>
  on the committed table does.  That step is the end of the call: it returns its position, or, when
  its commit is left in doubt, \<^verbatim>\<open>ErrBackendUnavailable\<close>.  Nothing is assumed of the server's \<^verbatim>\<open>jsonb\<close>.
\<close>

theorem pg_interleaving_refines:
  assumes "pg_reachable srv s" "pg_step l s s'"
  shows "table s' = table s \<or>
    (\<exists>env event raw recorded p r. \<not> lock_fails env \<and> \<not> last_fails env \<and> \<not> insert_fails env \<and>
      p < length (txns s) \<and> txns s ! p = Inserted event raw recorded \<and>
      record_tx env event raw (table s) = Inr (table s', recorded) \<and>
      txns s' = (txns s)[p := Finished r] \<and>
      (l = Work \<and> r = Inr (ID recorded) \<or> l = Fault \<and> r = record_failed))"
proof -
  define env :: pg_env where "env = \<lparr>pg_now = zero_time, lock_fails = False, last_fails = False,
    insert_fails = False, read_fails = False, BeginFunc = commit_always\<rparr>"
  have f: "\<not> lock_fails env" "\<not> last_fails env" "\<not> insert_fails env" by (simp_all add: env_def)
  have run: "record_tx env event raw (table s) = Inr ((table s)\<lparr>rows := rs\<rparr>, recorded)"
    if "p < length (txns s)" "txns s ! p = Inserted event raw recorded"
      "InsertEntry (inserted_row (table s) raw recorded) (rows (table s)) = Some rs" for p event raw recorded rs
  proof -
    have "tail_kept (table s) (Inserted event raw recorded)"
      using reachable_tails [OF assms(1)] that(1,2) by (metis nth_mem)
    with that(3) f show ?thesis
      by (auto simp: tail_kept_def record_tx_def event_hash_def inserted_row_def entry_params_def)
  qed
  from assms(2) show ?thesis
  proof cases
    case (committed p event raw recorded rs)
    with f run [OF committed(3-5)] show ?thesis by (intro disjI2 exI [of _ env] exI [of _ event]) auto
  next
    case (commit_in_doubt p event raw recorded rs)
    with f run [OF commit_in_doubt(3-5)] show ?thesis by (intro disjI2 exI [of _ env] exI [of _ event]) auto
  qed simp_all
qed

text \<open>
  C28. No deadlock: from every reachable state, whatever locks are held and whoever waits, the
  pending calls can all be completed by ordinary statements, without any fault.
\<close>

theorem pg_calls_complete:
  assumes "pg_reachable srv s"
  shows "\<exists>s'. (pg_step Work)\<^sup>*\<^sup>* s s' \<and> \<not> list_ex unfinished (txns s')"
  by (rule completes [OF reachable_locks [OF assms]])

text \<open>
  C29. No livelock: as long as no new call arrives, at most four steps per call remain, in
  every schedule, faults and commits left in doubt included.
\<close>

theorem pg_steps_bounded:
  assumes "((\<lambda>s s'. \<exists>l. \<not> is_call l \<and> pg_step l s s') ^^ n) s s'"
  shows "n \<le> 4 * length (txns s)"
proof -
  have "((\<lambda>s s'. \<exists>l. \<not> is_call l \<and> pg_step l s s') ^^ n) s s' \<Longrightarrow> n + work_left s' \<le> work_left s" for n s'
  proof (induction n arbitrary: s')
    case (Suc n)
    from Suc.prems obtain t l where "((\<lambda>s s'. \<exists>l. \<not> is_call l \<and> pg_step l s s') ^^ n) s t" "\<not> is_call l" "pg_step l t s'"
      by auto
    with Suc.IH [of t] step_works [of l t s'] show ?case by simp
  qed simp
  from this [OF assms] work_left_le [of s] show ?thesis by simp
qed

text \<open>
  C8. A reader beside writers whose payloads the server's \<^verbatim>\<open>jsonb\<close> gives back as the same JSON
  (\<open>kept_step\<close>; the code does not check this): when such calls execute any steps, faults and commits
  in doubt included, between the two statements of \<^verbatim>\<open>Verify\<close>, a verification from position 1 still
  never reports a break, is reported empty exactly when the chain was empty at its first statement,
  and what the chain held then is still there, unchanged, at the second.
\<close>

theorem pg_verify_beside_writers:
  assumes "kept_step\<^sup>*\<^sup>* (idle_system srv) s1" "rows srv = []" "keeps_ms (timestamptz srv)"
    and "kept_step\<^sup>*\<^sup>* s1 s2" "table_room (table s2)"
    and "server a = table s1" "\<not> pclosed a" "c \<noteq> []" "unat to < 2 ^ 63" "\<not> last_fails env" "\<not> read_fails env"
  shows "postgres_Verify_between env c 1 to a (table s2)
      = Inr (True, if to = 0 \<and> table_chain (table s1) c = [] then verify_empty else verify_ok) \<and>
    take (length (table_chain (table s1) c)) (table_chain (table s2) c) = table_chain (table s1) c"
proof -
  have "table_inv srv" using assms(2,3) by (simp add: table_inv_def chain_rows_def table_chain_def)
  from kept_run_inv [OF assms(1) this pg_shared.later_room [OF assms(4,5)]] have s1: "sys_inv s1" .
  note s2 = pg_shared.later_inv [OF assms(4) s1 assms(5)]
  have inv: "pg_inv a" "table_inv (table s2)" using s1 s2 by (simp_all add: pg_inv_def assms(6) sys_inv_def)
  have "pg_chain a c = table_chain (table s1) c" by (simp add: pg_chain_def assms(6))
  moreover have "unat (1 :: EntryID) < 2 ^ 63" by simp
  ultimately show ?thesis
    using postgres_Verify_between_spec [OF inv assms(7,8) _ assms(9), of 1 env] assms(10,11)
      pg_shared.later_walk [OF assms(4) s1 assms(5)] pg_shared.later_extends [OF assms(4) s1 assms(5), of c]
    by auto
qed

section \<open>Witnesses\<close>

text \<open>
  One call on an empty table, up to its commit, beside calls that wait for the lock.  Every step of
  it is one of a run in which payloads are kept: the sample event has none.
\<close>

definition sample_system :: "(int \<times> int \<Rightarrow> nat option) \<Rightarrow> phase \<Rightarrow> phase list \<Rightarrow> pg_system" where
  "sample_system lks ph rest = \<lparr>table = sample_server, locks = lks, txns = ph # rest\<rparr>"

definition sample_lock :: "int \<times> int \<Rightarrow> nat option" where
  "sample_lock = [lock_key sample_event \<mapsto> 0]"

lemma sample_arrives:
  "pg_step (Call sample_event) s (s\<lparr>txns := txns s @ [Begun sample_event []]\<rparr>)" "payload_kept srv sample_event"
proof -
  have ok: "Validate sample_event = Inr ()" "marshalPayload (Payload sample_event) = Inr []"
    "stamp sample_time sample_event = sample_event"
    by (simp_all add: event_simps marshalPayload_def stamp_def)
  show "pg_step (Call sample_event) s (s\<lparr>txns := txns s @ [Begun sample_event []]\<rparr>)"
    using call_begins [OF ok(1,2), of s sample_time] by (simp add: ok(3))
  show "payload_kept srv sample_event" by (simp add: payload_kept_def event_simps)
qed

lemma kept_work: "pg_step Work s s' \<Longrightarrow> kept_step s s'"
  "pg_step Fault s s' \<Longrightarrow> kept_step s s'"
  by (auto simp: kept_step_def kept_call_def intro: exI [of _ Work] exI [of _ Fault])

lemma sample_begun:
  "kept_step\<^sup>*\<^sup>* (idle_system sample_server) (sample_system (\<lambda>k. None) (Begun sample_event []) [Begun sample_event []])"
proof -
  have one: "kept_step s (s\<lparr>txns := txns s @ [Begun sample_event []]\<rparr>)" for s
    unfolding kept_step_def by (rule exI [of _ "Call sample_event"]) (simp add: sample_arrives kept_call_def)
  have "kept_step (idle_system sample_server) (sample_system (\<lambda>k. None) (Begun sample_event []) [])"
    using one [of "idle_system sample_server"] by (simp add: idle_system_def sample_system_def)
  moreover have "kept_step (sample_system (\<lambda>k. None) (Begun sample_event []) [])
      (sample_system (\<lambda>k. None) (Begun sample_event []) [Begun sample_event []])"
    using one [of "sample_system (\<lambda>k. None) (Begun sample_event []) []"] by (simp add: sample_system_def)
  ultimately show ?thesis by (simp add: converse_rtranclp_into_rtranclp)
qed

text \<open>The three statements of the call before its commit, and the commit.\<close>

lemma sample_statements:
  obtains e where "ID e = 1"
    "\<forall>rest. pg_step Work (sample_system (\<lambda>k. None) (Begun sample_event []) rest)
       (sample_system sample_lock (Locked sample_event []) rest)"
    "\<forall>rest. pg_step Work (sample_system sample_lock (Locked sample_event []) rest)
       (sample_system sample_lock (Positioned sample_event [] GenesisPrevHash 1) rest)"
    "\<forall>rest. pg_step Work (sample_system sample_lock (Positioned sample_event [] GenesisPrevHash 1) rest)
       (sample_system sample_lock (Inserted sample_event [] e) rest)"
proof -
  let ?s = "sample_system sample_lock"
  have pos: "next_position (GetLastEntry (ChainID sample_event) (rows (table (?s ph rest)))) = (GenesisPrevHash, 1)" for ph rest
    by (simp add: sample_system_def sample_server_def GetLastEntry_def chain_rows_def next_position_def)
  obtain h where h: "event_hash sample_event 1 GenesisPrevHash = Inr h"
    by (simp add: event_hash_def ComputeHash_def canonicalJSON_def event_simps)
  show thesis
  proof (rule that [of "sample_event\<lparr>ID := 1, Hash := h, PrevHash := GenesisPrevHash\<rparr>"])
    show "\<forall>rest. pg_step Work (sample_system (\<lambda>k. None) (Begun sample_event []) rest) (?s (Locked sample_event []) rest)"
      using lock_taken [of 0 "sample_system (\<lambda>k. None) (Begun sample_event []) rest" sample_event "[]" for rest]
      by (simp add: sample_system_def sample_lock_def moved_def)
    show "\<forall>rest. pg_step Work (?s (Locked sample_event []) rest) (?s (Positioned sample_event [] GenesisPrevHash 1) rest)"
      using tail_read [OF _ _ pos, of 0 "Locked sample_event []" _ "[]"] by (simp add: sample_system_def moved_def)
    show "\<forall>rest. pg_step Work (?s (Positioned sample_event [] GenesisPrevHash 1) rest)
        (?s (Inserted sample_event [] (sample_event\<lparr>ID := 1, Hash := h, PrevHash := GenesisPrevHash\<rparr>)) rest)"
      using row_inserted [OF _ _ h, of 0 "?s (Positioned sample_event [] GenesisPrevHash 1) rest" "[]" for rest]
      by (simp add: sample_system_def moved_def)
  qed (simp_all add: event_simps)
qed

definition sample_stored :: "pg_system \<Rightarrow> EntryID result \<Rightarrow> AuditEvent \<Rightarrow> pg_system" where
  "sample_stored s r e = (ended 0 r s)\<lparr>table := sample_server\<lparr>rows := [inserted_row sample_server [] e]\<rparr>\<rparr>"

lemma sample_commit:
  assumes "s = sample_system sample_lock (Inserted sample_event [] e) rest"
  shows "pg_step Work s (sample_stored s (Inr (ID e)) e)" "pg_step Fault s (sample_stored s record_failed e)"
  using committed [of 0 s sample_event "[]" e "[inserted_row sample_server [] e]"]
    commit_in_doubt [of 0 s sample_event "[]" e "[inserted_row sample_server [] e]"]
  by (simp_all add: assms sample_system_def InsertEntry_def sample_server_def sample_stored_def)

lemma sample_inserted:
  obtains e where "kept_step\<^sup>*\<^sup>* (idle_system sample_server)
      (sample_system sample_lock (Inserted sample_event [] e) [Begun sample_event []])" "ID e = 1"
proof -
  obtain e where e: "ID e = 1"
    "\<forall>rest. pg_step Work (sample_system (\<lambda>k. None) (Begun sample_event []) rest)
       (sample_system sample_lock (Locked sample_event []) rest)"
    "\<forall>rest. pg_step Work (sample_system sample_lock (Locked sample_event []) rest)
       (sample_system sample_lock (Positioned sample_event [] GenesisPrevHash 1) rest)"
    "\<forall>rest. pg_step Work (sample_system sample_lock (Positioned sample_event [] GenesisPrevHash 1) rest)
       (sample_system sample_lock (Inserted sample_event [] e) rest)"
    by (rule sample_statements)
  show thesis
    by (rule that [OF _ e(1)])
      (rule rtranclp.rtrancl_into_rtrancl [OF rtranclp.rtrancl_into_rtrancl [OF rtranclp.rtrancl_into_rtrancl
        [OF sample_begun e(2) [rule_format, THEN kept_work(1)]] e(3) [rule_format, THEN kept_work(1)]]
        e(4) [rule_format, THEN kept_work(1)]])
qed

lemma sample_server_simps: "rows sample_server = []" "keeps_ms (timestamptz sample_server)" "table_room sample_server"
  by (simp_all add: sample_server_def keeps_ms_Truncate chain_rows_def table_room_def)

lemma sample_stored_simps:
  "length (rows (table (sample_stored s r e))) = 1" "table_room (table (sample_stored s r e))"
  by (simp_all add: sample_stored_def table_room_def chain_rows_def)


theorem pg_interleaving_refines_witness:
  "\<exists>s s' env event raw recorded. pg_reachable sample_server s \<and> pg_step Fault s s' \<and> table s' \<noteq> table s \<and>
     record_tx env event raw (table s) = Inr (table s', recorded) \<and> txns s' ! 0 = Finished record_failed"
proof -
  obtain e where r: "kept_step\<^sup>*\<^sup>* (idle_system sample_server)
      (sample_system sample_lock (Inserted sample_event [] e) [Begun sample_event []])"
    by (rule sample_inserted)
  let ?s = "sample_system sample_lock (Inserted sample_event [] e) [Begun sample_event []]"
  let ?t = "sample_stored ?s record_failed e"
  have "rows (table ?t) \<noteq> rows (table ?s)" using sample_server_simps(1) by (simp add: sample_system_def sample_stored_def)
  then have ne: "table ?t \<noteq> table ?s" by metis
  have "txns ?t ! 0 = Finished record_failed" by (simp add: sample_stored_def sample_system_def)
  with pg_interleaving_refines [OF kept_reachable [OF r] sample_commit(2) [OF refl]] ne kept_reachable [OF r]
    sample_commit(2) [OF refl, of e]
  show ?thesis by blast
qed

theorem pg_calls_complete_witness:
  "\<exists>s'. (pg_step Work)\<^sup>*\<^sup>* (sample_system (\<lambda>k. None) (Begun sample_event []) [Begun sample_event []]) s' \<and>
     \<not> list_ex unfinished (txns s')"
  by (rule pg_calls_complete [OF kept_reachable [OF sample_begun]])

text \<open>The bound is tight: a call that nothing disturbs takes its four steps.\<close>

theorem pg_steps_bounded_witness:
  "\<exists>s s'. length (txns s) = 1 \<and> ((\<lambda>s s'. \<exists>l. \<not> is_call l \<and> pg_step l s s') ^^ 4) s s' \<and>
     4 \<le> 4 * length (txns s) \<and> txns s' = [Finished (Inr 1)] \<and> length (rows (table s')) = 1"
proof -
  obtain e where e: "ID e = 1"
    "\<forall>rest. pg_step Work (sample_system (\<lambda>k. None) (Begun sample_event []) rest)
       (sample_system sample_lock (Locked sample_event []) rest)"
    "\<forall>rest. pg_step Work (sample_system sample_lock (Locked sample_event []) rest)
       (sample_system sample_lock (Positioned sample_event [] GenesisPrevHash 1) rest)"
    "\<forall>rest. pg_step Work (sample_system sample_lock (Positioned sample_event [] GenesisPrevHash 1) rest)
       (sample_system sample_lock (Inserted sample_event [] e) rest)"
    by (rule sample_statements)
  let ?R = "\<lambda>s s'. \<exists>l. \<not> is_call l \<and> pg_step l s s'"
  let ?s = "sample_system (\<lambda>k. None) (Begun sample_event []) []"
  let ?i = "sample_system sample_lock (Inserted sample_event [] e) []"
  let ?t = "sample_stored ?i (Inr 1) e"
  have w: "pg_step Work s s' \<Longrightarrow> ?R s s'" for s s' by (intro exI [of _ Work]) simp
  have last: "?R ?i ?t" using w [OF sample_commit(1) [OF refl, of e "[]"]] e(1) by simp
  have run: "(?R ^^ 4) ?s ?t"
    using relpowp_Suc_I [OF relpowp_Suc_I [OF relpowp_Suc_I [OF relpowp_Suc_I [OF relpowp_0_I [of ?R ?s]
      w [OF e(2) [rule_format]]] w [OF e(3) [rule_format]]] w [OF e(4) [rule_format]]] last] by (simp add: eval_nat_numeral)
  have "txns ?t = [Finished (Inr 1)]" by (simp add: sample_stored_def sample_system_def)
  with pg_steps_bounded [OF run] run show ?thesis
    by (intro exI [of _ ?s] exI [of _ ?t]) (simp add: sample_system_def sample_stored_simps)
qed

theorem pg_verify_beside_writers_witness:
  "\<exists>s1 s2. kept_step\<^sup>*\<^sup>* (idle_system sample_server) s1 \<and> kept_step\<^sup>*\<^sup>* s1 s2 \<and>
     rows (table s2) \<noteq> rows (table s1) \<and>
     postgres_Verify_between good_env ''tenant-1'' 1 0 (sample_pg\<lparr>server := table s1\<rparr>) (table s2) = Inr (True, verify_empty)"
proof -
  obtain e where r: "kept_step\<^sup>*\<^sup>* (idle_system sample_server)
      (sample_system sample_lock (Inserted sample_event [] e) [Begun sample_event []])"
    by (rule sample_inserted)
  let ?s = "sample_system sample_lock (Inserted sample_event [] e) [Begun sample_event []]"
  let ?t = "sample_stored ?s (Inr (ID e)) e"
  have run: "kept_step\<^sup>*\<^sup>* ?s ?t" by (rule r_into_rtranclp, rule kept_work(1), rule sample_commit(1) [OF refl])
  have a: "server (sample_pg\<lparr>server := table ?s\<rparr>) = table ?s" "\<not> pclosed (sample_pg\<lparr>server := table ?s\<rparr>)"
    "unat (0 :: EntryID) < 2 ^ 63" "\<not> last_fails good_env" "\<not> read_fails good_env"
    by (simp_all add: sample_pg_def good_env_def)
  have "table_chain (table ?s) ''tenant-1'' = []" using sample_server_simps(1)
    by (simp add: sample_system_def table_chain_def chain_rows_def)
  with pg_verify_beside_writers [OF r sample_server_simps(1,2) run sample_stored_simps(2) a(1,2) _ a(3-5), of "''tenant-1''"]
  have "postgres_Verify_between good_env ''tenant-1'' 1 0 (sample_pg\<lparr>server := table ?s\<rparr>) (table ?t) = Inr (True, verify_empty)"
    by simp
  moreover have "rows (table ?t) \<noteq> rows (table ?s)" using sample_server_simps(1)
    by (simp add: sample_system_def sample_stored_def)
  ultimately show ?thesis using r run by (intro exI [of _ ?s] exI [of _ ?t] conjI)
qed

end
