(* ===== verification/MongoConcurrency.thy ===== *)
theory MongoConcurrency
  imports Mongo
begin

text \<open>
  Concurrent \<^verbatim>\<open>Record\<close> calls on one MongoDB deployment, without a lock: a transaction runs its
  callback on the snapshot it was started from.  Its writes, the entry inserted and the chain-state
  document replaced, are refused when the chain-state document has been written since the snapshot
  or has a write of another open transaction pending (the first writer wins); once made they stay
  pending until they are committed or the transaction is given up.  After a refusal, or any other
  transient error, the driver runs the callback again on a new snapshot, or gives up.  A commit can
  be left in doubt: the writes are applied, but the call returns an error.

  The callback is one step, taken at its first write: what it reads is its snapshot's, and a pending
  insert at a position keeps every other transaction on the chain out until it ends.

  \<open>commit_is_callback\<close> is the reason why this works: a commit does to the deployment what the
  callback run on it at that moment would do.  The theorem extends it to all interleavings.
\<close>

section \<open>Transactions on snapshots\<close>

datatype session =
    Started AuditEvent string mongo_server
  | Ready AuditEvent string mongo_server mongo_server AuditEvent
  | Returned "EntryID result"

record mongo_system =
  deployment :: mongo_server
  sessions :: "session list"

definition no_conflict :: "AuditEvent \<Rightarrow> mongo_server \<Rightarrow> mongo_server \<Rightarrow> bool" where
  "no_conflict event snap srv \<longleftrightarrow> chain_state srv (ChainID event) = chain_state snap (ChainID event)"

text \<open>The write set of a transaction whose callback turned its snapshot into \<open>out\<close>, applied to the deployment.\<close>

definition apply_writes :: "AuditEvent \<Rightarrow> mongo_server \<Rightarrow> mongo_server \<Rightarrow> mongo_server option" where
  "apply_writes event out srv =
     map_option (\<lambda>srv1. srv1\<lparr>chain_state := (chain_state srv)(ChainID event := chain_state out (ChainID event))\<rparr>)
       (InsertOne (last (docs out)) srv)"

text \<open>A session whose writes to the chain are made and not yet committed.\<close>

fun pending_writer :: "string \<Rightarrow> session \<Rightarrow> bool" where
  "pending_writer c (Ready event raw snap out recorded) = (ChainID event = c)"
| "pending_writer c ses = False"

definition record_unavailable :: "EntryID result" where
  "record_unavailable = Inl (Errorf ''graudit: record'' [Sentinel ErrBackendUnavailable])"

inductive mongo_step :: "mongo_system \<Rightarrow> mongo_system \<Rightarrow> bool" where
  call_begins: "Validate event = Inr () \<Longrightarrow> marshalPayload (Payload event) = Inr raw \<Longrightarrow>
    mongo_step s (s\<lparr>sessions := sessions s @ [Started (stamp now event) raw (deployment s)]\<rparr>)"
| callback_ran: "p < length (sessions s) \<Longrightarrow> sessions s ! p = Started event raw snap \<Longrightarrow>
    mongo_record_tx env event raw attempt snap = Inr (out, recorded) \<Longrightarrow>
    no_conflict event snap (deployment s) \<Longrightarrow> \<not> list_ex (pending_writer (ChainID event)) (sessions s) \<Longrightarrow>
    mongo_step s (s\<lparr>sessions := (sessions s)[p := Ready event raw snap out recorded]\<rparr>)"
| committed: "p < length (sessions s) \<Longrightarrow> sessions s ! p = Ready event raw snap out recorded \<Longrightarrow>
    apply_writes event out (deployment s) = Some srv \<Longrightarrow>
    mongo_step s \<lparr>deployment = srv, sessions = (sessions s)[p := Returned (Inr (ID recorded))]\<rparr>"
| commit_in_doubt: "p < length (sessions s) \<Longrightarrow> sessions s ! p = Ready event raw snap out recorded \<Longrightarrow>
    apply_writes event out (deployment s) = Some srv \<Longrightarrow>
    mongo_step s \<lparr>deployment = srv, sessions = (sessions s)[p := Returned record_unavailable]\<rparr>"
| retried: "p < length (sessions s) \<Longrightarrow> sessions s ! p = Started event raw snap \<or> sessions s ! p = Ready event raw snap out recorded \<Longrightarrow>
    mongo_step s (s\<lparr>sessions := (sessions s)[p := Started event raw (deployment s)]\<rparr>)"
| gave_up: "p < length (sessions s) \<Longrightarrow> sessions s ! p = Started event raw snap \<or> sessions s ! p = Ready event raw snap out recorded \<Longrightarrow>
    mongo_step s (s\<lparr>sessions := (sessions s)[p := Returned record_unavailable]\<rparr>)"

inductive mongo_reachable :: "mongo_server \<Rightarrow> mongo_system \<Rightarrow> bool" for srv where
  idle: "mongo_reachable srv \<lparr>deployment = srv, sessions = []\<rparr>"
| step: "mongo_reachable srv s \<Longrightarrow> mongo_step s s' \<Longrightarrow> mongo_reachable srv s'"

section \<open>A commit is a run of the callback\<close>

text \<open>When the callback succeeds on a deployment, and with what.\<close>

definition sealed_at :: "mongo_server \<Rightarrow> AuditEvent \<Rightarrow> AuditEvent \<Rightarrow> bool" where
  "sealed_at srv event recorded \<longleftrightarrow>
     (\<exists>hash prevHash nextID.
       next_tail (chain_state srv (ChainID event)) = (prevHash, nextID) \<and>
       ComputeHash (ChainID event) nextID (ActorID event) (EntityType event) (EntityID event) (Action event)
         (Payload event) (Timestamp event) prevHash = Inr hash \<and>
       recorded = event\<lparr>ID := nextID, Hash := hash, PrevHash := prevHash\<rparr>)"

lemma record_tx_iff:
  "mongo_record_tx env event raw attempt srv = Inr (out, recorded) \<longleftrightarrow>
     \<not> tail_fails env attempt \<and> \<not> insertOne_fails env attempt \<and> \<not> replace_fails env attempt \<and>
     sealed_at srv event recorded \<and> InsertOne (sealed_doc srv raw recorded) srv \<noteq> None \<and>
     out = stored_doc srv raw recorded"
proof (cases "next_tail (chain_state srv (ChainID event))")
  case (Pair prevHash nextID)
  let ?e = "\<lambda>hash. event\<lparr>ID := nextID, Hash := hash, PrevHash := prevHash\<rparr>"
  have doc: "sealed_doc srv raw (?e hash) = \<lparr>dChainID = ChainID event, dEntryID = nextID, dActorID = ActorID event,
      dEntityType = EntityType event, dEntityID = EntityID event, dAction = Action event, dPayload = raw,
      dTimestamp = bson_time srv (Timestamp event), dHash = hash, dPrevHash = prevHash\<rparr>" for hash
    by (simp add: sealed_doc_def)
  show ?thesis
  proof (cases "ComputeHash (ChainID event) nextID (ActorID event) (EntityType event) (EntityID event) (Action event)
      (Payload event) (Timestamp event) prevHash")
    case (Inl err)
    then show ?thesis by (auto simp: mongo_record_tx_def sealed_at_def Pair call_def)
  next
    case (Inr hash)
    show ?thesis
    proof (cases "InsertOne (sealed_doc srv raw (?e hash)) srv")
      case None
      then show ?thesis by (auto simp: mongo_record_tx_def sealed_at_def Pair Inr call_def doc [symmetric])
    next
      case (Some srv1)
      with InsertOne_Some [OF Some] show ?thesis
        by (auto simp: mongo_record_tx_def sealed_at_def Pair Inr call_def doc [symmetric] ReplaceOne_def stored_doc_def)
    qed
  qed
qed

text \<open>What a snapshot must share with the deployment for its transaction to make sense later.\<close>

definition same_driver :: "mongo_server \<Rightarrow> mongo_server \<Rightarrow> bool" where
  "same_driver snap srv \<longleftrightarrow> bson_time snap = bson_time srv \<and> bson_uint64 snap = bson_uint64 srv"

lemma commit_is_callback:
  assumes "mongo_record_tx env event raw attempt snap = Inr (out, recorded)" "same_driver snap srv"
    and "no_conflict event snap srv" "apply_writes event out srv = Some srv'"
  shows "mongo_record_tx env event raw attempt srv = Inr (srv', recorded)"
proof -
  note w = assms(1) [unfolded record_tx_iff]
  then have out: "out = stored_doc snap raw recorded" by blast
  have doc: "sealed_doc snap raw recorded = sealed_doc srv raw recorded"
    using assms(2) by (simp add: sealed_doc_def same_driver_def)
  obtain srv1 where ins: "InsertOne (sealed_doc srv raw recorded) srv = Some srv1"
    and srv': "srv' = srv1\<lparr>chain_state := (chain_state srv)(ChainID event := chain_state out (ChainID event))\<rparr>"
    using assms(4) by (auto simp: apply_writes_def out doc)
  have at: "sealed_at srv event recorded" using w assms(3) by (simp add: sealed_at_def no_conflict_def)
  then have "ChainID recorded = ChainID event" by (auto simp: sealed_at_def)
  with InsertOne_Some [OF ins] srv' have "srv' = stored_doc srv raw recorded"
    by (simp add: out stored_doc_def)
  with w at ins show ?thesis by (simp add: record_tx_iff)
qed

section \<open>All interleavings\<close>

text \<open>Every session works with a snapshot of this deployment, and a ready one with what its callback computed.\<close>

definition session_ok :: "mongo_server \<Rightarrow> session \<Rightarrow> bool" where
  "session_ok srv ses \<longleftrightarrow>
     (case ses of
        Started event raw snap \<Rightarrow> marshalPayload (Payload event) = Inr raw \<and> same_driver snap srv
      | Ready event raw snap out recorded \<Rightarrow> marshalPayload (Payload event) = Inr raw \<and> same_driver snap srv \<and>
          (\<exists>env attempt. mongo_record_tx env event raw attempt snap = Inr (out, recorded))
      | Returned r \<Rightarrow> True)"

lemma session_ok_simps [simp]:
  "session_ok srv (Started event raw snap) \<longleftrightarrow> marshalPayload (Payload event) = Inr raw \<and> same_driver snap srv"
  "session_ok srv (Ready event raw snap out recorded) \<longleftrightarrow> marshalPayload (Payload event) = Inr raw \<and> same_driver snap srv \<and>
     (\<exists>env attempt. mongo_record_tx env event raw attempt snap = Inr (out, recorded))"
  "session_ok srv (Returned r)"
  by (simp_all add: session_ok_def)

lemma same_driver_refl [simp]: "same_driver srv srv"
  by (simp add: same_driver_def)

lemma session_ok_driver: "same_driver srv srv' \<Longrightarrow> session_ok srv ses = session_ok srv' ses"
  by (cases ses) (auto simp: same_driver_def)

text \<open>The first writer wins: a pending write is the only one on its chain, and its snapshot is current there.\<close>

definition writers_ok :: "mongo_system \<Rightarrow> bool" where
  "writers_ok s \<longleftrightarrow> (\<forall>p event raw snap out recorded.
     p < length (sessions s) \<and> sessions s ! p = Ready event raw snap out recorded \<longrightarrow>
       no_conflict event snap (deployment s) \<and>
       (\<forall>q < length (sessions s). pending_writer (ChainID event) (sessions s ! q) \<longrightarrow> q = p))"

definition sessions_ok :: "mongo_system \<Rightarrow> bool" where
  "sessions_ok s \<longleftrightarrow> (\<forall>ses \<in> set (sessions s). session_ok (deployment s) ses) \<and> writers_ok s"

definition msys_inv :: "mongo_system \<Rightarrow> bool" where
  "msys_inv s \<longleftrightarrow> coll_inv (deployment s) \<and> sessions_ok s"

lemma writers_okD:
  assumes "writers_ok s" "p < length (sessions s)" "sessions s ! p = Ready event raw snap out recorded"
  shows "no_conflict event snap (deployment s)"
    "q < length (sessions s) \<Longrightarrow> pending_writer (ChainID event) (sessions s ! q) \<Longrightarrow> q = p"
  using assms unfolding writers_ok_def by blast+

lemma pending_writer_iff: "pending_writer c ses \<longleftrightarrow>
    (\<exists>event raw snap out recorded. ses = Ready event raw snap out recorded \<and> ChainID event = c)"
  by (cases ses) auto

lemma writers_ok_quit:
  assumes "writers_ok s" "p < length (sessions s)" "deployment s' = deployment s" "sessions s' = (sessions s)[p := ses]"
    and "\<And>c. \<not> pending_writer c ses"
  shows "writers_ok s'"
proof -
  have other: "q \<noteq> p \<and> sessions s ! q = Ready event raw snap out recorded"
    if "q < length (sessions s)" "sessions s' ! q = Ready event raw snap out recorded" for q event raw snap out recorded
    using that assms(2,4) assms(5) [of "ChainID event"] by (auto simp: nth_list_update split: if_splits)
  have "pending_writer c (sessions s ! q)" if "q < length (sessions s)" "pending_writer c (sessions s' ! q)" for q c
    using that assms(2,4,5) by (auto simp: nth_list_update split: if_splits)
  with other writers_okD [OF assms(1)] assms(3,4) show ?thesis unfolding writers_ok_def by (metis length_list_update)
qed

lemma writers_ok_commit:
  assumes "writers_ok s" "p < length (sessions s)" "sessions s ! p = Ready event raw snap out recorded"
    and "apply_writes event out (deployment s) = Some srv"
  shows "writers_ok \<lparr>deployment = srv, sessions = (sessions s)[p := Returned r]\<rparr>"
  unfolding writers_ok_def
proof (intro allI impI, elim conjE)
  fix q ev raw' snap' out' rec'
  assume q: "q < length (sessions \<lparr>deployment = srv, sessions = (sessions s)[p := Returned r]\<rparr>)"
    "sessions \<lparr>deployment = srv, sessions = (sessions s)[p := Returned r]\<rparr> ! q = Ready ev raw' snap' out' rec'"
  then have q': "q \<noteq> p" "q < length (sessions s)" "sessions s ! q = Ready ev raw' snap' out' rec'"
    using assms(2) by (auto simp: nth_list_update split: if_splits)
  note w = writers_okD [OF assms(1) q'(2,3)]
  have "ChainID ev \<noteq> ChainID event" using w(2) [OF assms(2)] assms(3) q'(1) by auto
  then have "chain_state srv (ChainID ev) = chain_state (deployment s) (ChainID ev)"
    using assms(4) by (auto simp: apply_writes_def dest!: InsertOne_Some)
  with w show "no_conflict ev snap' (deployment \<lparr>deployment = srv, sessions = (sessions s)[p := Returned r]\<rparr>) \<and>
      (\<forall>k < length (sessions \<lparr>deployment = srv, sessions = (sessions s)[p := Returned r]\<rparr>).
        pending_writer (ChainID ev) (sessions \<lparr>deployment = srv, sessions = (sessions s)[p := Returned r]\<rparr> ! k) \<longrightarrow> k = q)"
    using assms(2) by (auto simp: no_conflict_def nth_list_update split: if_splits)
qed

lemma mongo_step_writers: "mongo_step s s' \<Longrightarrow> writers_ok s \<Longrightarrow> writers_ok s'"
proof (induction rule: mongo_step.induct)
  case (call_begins event raw s now)
  then show ?case unfolding writers_ok_def by (auto simp: nth_append less_Suc_eq split: if_splits)
next
  case (callback_ran p s event raw snap env attempt out recorded)
  have none: "ChainID ev \<noteq> ChainID event"
    if "q < length (sessions s)" "sessions s ! q = Ready ev raw' snap' out' rec'" for q ev raw' snap' out' rec'
    using callback_ran.hyps(5) that by (auto simp: list_ex_length pending_writer_iff)
  show ?case unfolding writers_ok_def
    using callback_ran.hyps(1,4) none none [symmetric] writers_okD [OF callback_ran.prems]
    by (auto simp: nth_list_update pending_writer_iff split: if_splits) blast+
next
  case (committed p s event raw snap out recorded srv)
  then show ?case using writers_ok_commit by blast
next
  case (commit_in_doubt p s event raw snap out recorded srv)
  then show ?case using writers_ok_commit by blast
qed (auto intro: writers_ok_quit)

definition deployment_room :: "mongo_server \<Rightarrow> bool" where
  "deployment_room srv \<longleftrightarrow> (\<forall>c. length (coll_chain srv c) < 2 ^ 63 - 1)"

lemma sessions_update:
  assumes "\<forall>ses \<in> set xs. P ses" "P ses'"
  shows "\<forall>ses \<in> set (xs[p := ses']). P ses"
  using assms set_update_subset_insert [of xs p ses'] by blast

text \<open>Every step leaves the deployment alone or is one undisturbed run of the callback on it.\<close>

lemma mongo_step_refines:
  assumes "mongo_step s s'" "sessions_ok s"
  shows "deployment s' = deployment s \<or>
    (\<exists>env event raw attempt recorded p snap out r. marshalPayload (Payload event) = Inr raw \<and>
      mongo_record_tx env event raw attempt (deployment s) = Inr (deployment s', recorded) \<and>
      p < length (sessions s) \<and> sessions s ! p = Ready event raw snap out recorded \<and>
      sessions s' = (sessions s)[p := Returned r] \<and> (r = Inr (ID recorded) \<or> r = record_unavailable))"
proof -
  have ran: "\<exists>env attempt. marshalPayload (Payload event) = Inr raw \<and>
      mongo_record_tx env event raw attempt (deployment s) = Inr (srv, recorded)"
    if "p < length (sessions s)" "sessions s ! p = Ready event raw snap out recorded"
      "apply_writes event out (deployment s) = Some srv" for p event raw snap out recorded srv
  proof -
    have "session_ok (deployment s) (Ready event raw snap out recorded)"
      using assms(2) that(1,2) nth_mem unfolding sessions_ok_def by metis
    then obtain env attempt where "marshalPayload (Payload event) = Inr raw" "same_driver snap (deployment s)"
      "mongo_record_tx env event raw attempt snap = Inr (out, recorded)" by auto
    moreover have "no_conflict event snap (deployment s)"
      using assms(2) writers_okD(1) [OF _ that(1,2)] by (simp add: sessions_ok_def)
    ultimately show ?thesis using commit_is_callback that(3) by blast
  qed
  from assms(1) show ?thesis
  proof cases
    case (committed p event raw snap out recorded srv)
    with ran [OF committed(2-4)] show ?thesis unfolding committed(1) mongo_system.simps by blast
  next
    case (commit_in_doubt p event raw snap out recorded srv)
    with ran [OF commit_in_doubt(2-4)] show ?thesis unfolding commit_in_doubt(1) mongo_system.simps by blast
  qed simp_all
qed

lemma mongo_step_tx:
  assumes "mongo_step s s'" "sessions_ok s"
  obtains (same) "deployment s' = deployment s"
  | (ran) env event raw attempt recorded where "marshalPayload (Payload event) = Inr raw"
      "mongo_record_tx env event raw attempt (deployment s) = Inr (deployment s', recorded)"
  using mongo_step_refines [OF assms] by blast

lemma mongo_step_sessions:
  assumes "mongo_step s s'" "sessions_ok s"
  shows "sessions_ok s'"
proof -
  have ok: "\<forall>ses \<in> set (sessions s). session_ok (deployment s) ses" using assms(2) by (simp add: sessions_ok_def)
  have stored: "\<forall>ses \<in> set ((sessions s)[p := Returned r]). session_ok srv ses"
    if "apply_writes event out (deployment s) = Some srv" for event out srv p r
  proof -
    have "same_driver (deployment s) srv"
      using that by (auto simp: apply_writes_def same_driver_def dest: InsertOne_Some)
    with ok have "\<forall>ses \<in> set (sessions s). session_ok srv ses" by (simp add: session_ok_driver)
    from sessions_update [OF this, of "Returned r" p] show ?thesis by simp
  qed
  from assms(1) have "\<forall>ses \<in> set (sessions s'). session_ok (deployment s') ses"
  proof cases
    case (callback_ran p event raw snap env attempt out recorded)
    have "session_ok (deployment s) (Started event raw snap)" using ok callback_ran(2,3) nth_mem by metis
    then have "session_ok (deployment s) (Ready event raw snap out recorded)" using callback_ran(4) by auto
    with callback_ran(1) sessions_update [OF ok this, of p] show ?thesis by simp
  next
    case (committed p event raw snap out recorded srv)
    with stored [OF committed(4)] show ?thesis by simp
  next
    case (commit_in_doubt p event raw snap out recorded srv)
    with stored [OF commit_in_doubt(4)] show ?thesis by simp
  next
    case (retried p event raw snap out recorded)
    have "session_ok (deployment s) (sessions s ! p)" using ok retried(2) by simp
    then have "session_ok (deployment s) (Started event raw (deployment s))" using retried(3) by auto
    with retried(1) sessions_update [OF ok this, of p] show ?thesis by simp
  next
    case (gave_up p event raw snap out recorded)
    with sessions_update [OF ok, of "Returned record_unavailable" p] show ?thesis by simp
  qed (use ok in auto)
  with mongo_step_writers [OF assms(1)] assms(2) show ?thesis by (simp add: sessions_ok_def)
qed

lemma mongo_step_inv:
  assumes "mongo_step s s'" "msys_inv s" "deployment_room (deployment s)"
  shows "msys_inv s'"
proof -
  have ok: "sessions_ok s" and inv: "coll_inv (deployment s)" using assms(2) by (simp_all add: msys_inv_def)
  from assms(1) ok have "coll_inv (deployment s')"
  proof (cases rule: mongo_step_tx)
    case (ran env event raw attempt recorded)
    note t = mongo_record_tx_seal [OF inv ran(2)]
    have "has_room (deployment s) event" using assms(3) by (simp add: deployment_room_def has_room_def)
    from stored_doc_inv(1) [OF inv this ran(1) t(1)] show ?thesis by (simp add: t(2))
  qed (simp add: inv)
  with mongo_step_sessions [OF assms(1) ok] show ?thesis by (simp add: msys_inv_def)
qed

lemma mongo_step_docs: "mongo_step s s' \<Longrightarrow> \<exists>xs. docs (deployment s') = docs (deployment s) @ xs"
  by (induction rule: mongo_step.induct) (auto simp: apply_writes_def dest!: InsertOne_Some)

lemma deployment_room_mono: "docs srv' = docs srv @ xs \<Longrightarrow> deployment_room srv' \<Longrightarrow> deployment_room srv"
proof -
  assume "docs srv' = docs srv @ xs" "deployment_room srv'"
  moreover from this(1) have "length (coll_chain srv c) \<le> length (coll_chain srv' c)" for c
    by (simp add: coll_chain_def chain_docs_def)
  ultimately show ?thesis by (auto simp: deployment_room_def intro: le_less_trans)
qed

lemma mongo_reachable_inv:
  assumes "mongo_reachable srv s" "coll_inv srv" "deployment_room (deployment s)"
  shows "msys_inv s"
  using assms(1,3)
proof (induction rule: mongo_reachable.induct)
  case (step s s')
  have "deployment_room (deployment s)" using mongo_step_docs [OF step.hyps(2)] step.prems deployment_room_mono by blast
  with step show ?case using mongo_step_inv by blast
qed (simp add: msys_inv_def sessions_ok_def writers_ok_def assms(2))

section \<open>Readers\<close>

lemma mongo_step_grows:
  assumes "mongo_step s s'" "msys_inv s" "deployment_room (deployment s)"
  shows "\<exists>ext. coll_chain (deployment s') c = coll_chain (deployment s) c @ ext"
proof -
  have ok: "sessions_ok s" and inv: "coll_inv (deployment s)"
    using assms(2) by (simp_all add: msys_inv_def)
  from assms(1) ok show ?thesis
  proof (cases rule: mongo_step_tx)
    case (ran env event raw attempt recorded)
    note t = mongo_record_tx_seal [OF inv ran(2)]
    have "has_room (deployment s) event" using assms(3) by (simp add: deployment_room_def has_room_def)
    from stored_doc_inv(2) [OF inv this ran(1) t(1)] show ?thesis by (simp add: t(2))
  qed simp
qed

interpretation mg_shared: shared_store mongo_step "\<lambda>s. coll_chain (deployment s)" msys_inv
  "\<lambda>s. deployment_room (deployment s)"
proof unfold_locales
  fix s s' c
  show "mongo_step s s' \<Longrightarrow> msys_inv s \<Longrightarrow> deployment_room (deployment s) \<Longrightarrow> msys_inv s'"
    by (rule mongo_step_inv)
  show "mongo_step s s' \<Longrightarrow> msys_inv s \<Longrightarrow> deployment_room (deployment s) \<Longrightarrow>
      \<exists>ext. coll_chain (deployment s') c = coll_chain (deployment s) c @ ext"
    by (rule mongo_step_grows)
  show "mongo_step s s' \<Longrightarrow> deployment_room (deployment s') \<Longrightarrow> deployment_room (deployment s)"
    using mongo_step_docs deployment_room_mono by blast
  show "msys_inv s \<Longrightarrow> chain_ok c (coll_chain (deployment s) c) \<and> length (coll_chain (deployment s) c) < 2 ^ 63"
    by (simp add: msys_inv_def coll_inv_def)
qed

section \<open>Properties\<close>

text \<open>
  C5. Optimistic concurrency keeps the chains: under every interleaving of any number of
  \<^verbatim>\<open>Record\<close> calls on an initially empty deployment, with conflicts, retries, failures and commits left
  in doubt at any point, every chain is linked from the genesis hash and numbered without gaps, its
  chain-state document is at its end, and each step that changes the deployment is one undisturbed
  run of the callback of \<^verbatim>\<open>Record\<close>, at the end of a call that has its writes pending.  That call
  returns its position, or, when its commit is left in doubt, \<^verbatim>\<open>ErrBackendUnavailable\<close>.
\<close>

theorem mongo_concurrent_intact:
  assumes "mongo_reachable srv s" "empty_deployment srv" "deployment_room (deployment s)" "mongo_step s s'"
  shows "linked GenesisPrevHash (coll_chain (deployment s) c) \<and> numbered 1 (coll_chain (deployment s) c) \<and>
    chain_state (deployment s) c = state_of c (coll_chain (deployment s) c) \<and>
    (deployment s' = deployment s \<or>
     (\<exists>env event raw attempt recorded p snap out r.
       mongo_record_tx env event raw attempt (deployment s) = Inr (deployment s', recorded) \<and>
       p < length (sessions s) \<and> sessions s ! p = Ready event raw snap out recorded \<and>
       sessions s' = (sessions s)[p := Returned r] \<and> (r = Inr (ID recorded) \<or> r = record_unavailable)))"
proof -
  have "coll_inv srv" using assms(2)
    by (simp add: empty_deployment_def coll_inv_def coll_chain_def chain_docs_def state_of_def)
  from mongo_reachable_inv [OF assms(1) this assms(3)]
  have inv: "coll_inv (deployment s)" "sessions_ok s" by (simp_all add: msys_inv_def)
  have "linked GenesisPrevHash (coll_chain (deployment s) c) \<and> numbered 1 (coll_chain (deployment s) c) \<and>
      chain_state (deployment s) c = state_of c (coll_chain (deployment s) c)"
    using inv(1) by (simp add: coll_inv_def chain_ok_def)
  with mongo_step_refines [OF assms(4) inv(2)] show ?thesis by blast
qed

text \<open>
  C23. A reader beside writers: when other calls execute any steps between the read of the
  chain-state document and the \<^verbatim>\<open>Find\<close> of \<^verbatim>\<open>Verify\<close>, a verification from position 1 still never
  reports a break, is reported empty exactly when the chain was empty at its first read, and
  what the chain held then is still there, unchanged, at the second.
\<close>

theorem mongo_verify_beside_writers:
  assumes "mongo_reachable srv s1" "empty_deployment srv" "mongo_step\<^sup>*\<^sup>* s1 s2" "deployment_room (deployment s2)"
    and "client a = deployment s1" "\<not> mclosed a" "c \<noteq> []" "unat to < 2 ^ 63" "encodes (client a)"
    and "\<not> latest_fails env" "\<not> find_fails env" "\<not> cursor_fails env"
  shows "mongo_Verify_between env c 1 to a (deployment s2)
      = Inr (True, if to = 0 \<and> coll_chain (deployment s1) c = [] then verify_empty else verify_ok) \<and>
    take (length (coll_chain (deployment s1) c)) (coll_chain (deployment s2) c) = coll_chain (deployment s1) c"
proof -
  have "coll_inv srv" using assms(2)
    by (simp add: empty_deployment_def coll_inv_def coll_chain_def chain_docs_def state_of_def)
  from mongo_reachable_inv [OF assms(1) this mg_shared.later_room [OF assms(3,4)]] have s1: "msys_inv s1" .
  note s2 = mg_shared.later_inv [OF assms(3) s1 assms(4)]
  have inv: "mongo_inv a" "coll_inv (deployment s2)" using s1 s2 by (simp_all add: mongo_inv_def assms(5) msys_inv_def)
  have chain: "mongo_chain a c = coll_chain (deployment s1) c" by (simp add: mongo_chain_def assms(5))
  have "unat (of_nat (length (mongo_chain a c)) :: EntryID) < 2 ^ 63"
    using mg_shared.inv_intact [OF s1, of c] by (simp add: chain unsigned_of_nat take_bit_nat_eq_self)
  moreover have "unat (max 1 1 :: EntryID) < 2 ^ 63" by simp
  ultimately have "bson_uint64 (client a) (max 1 1)"
    "bson_uint64 (client a) (if to = 0 then of_nat (length (mongo_chain a c)) else to)"
    using assms(8,9) unfolding encodes_def by (simp_all del: max.idem)
  from mongo_Verify_between_spec [OF inv assms(6,7) _ assms(11,12) this] assms(10)
    mg_shared.later_walk [OF assms(3) s1 assms(4)] mg_shared.later_extends [OF assms(3) s1 assms(4), of c]
  show ?thesis by (auto simp: chain)
qed

section \<open>Witnesses\<close>

text \<open>One call on an empty deployment, with its callback run, and its commit.\<close>

lemma sample_ready:
  obtains e where "ChainID e = ''tenant-1''"
    "mongo_record_tx retry_env sample_event [] 1 sample_deployment = Inr (stored_doc sample_deployment [] e, e)"
    "apply_writes sample_event (stored_doc sample_deployment [] e) sample_deployment = Some (stored_doc sample_deployment [] e)"
    "mongo_reachable sample_deployment \<lparr>deployment = sample_deployment,
       sessions = [Ready sample_event [] sample_deployment (stored_doc sample_deployment [] e) e]\<rparr>"
proof -
  let ?d = sample_deployment
  have d: "client sample_mongo = ?d" by (simp add: sample_mongo_def)
  obtain e where e: "mongo_record_tx retry_env sample_event [] 1 ?d = Inr (stored_doc ?d [] e, e)" "ChainID e = ''tenant-1''"
    by (rule sample_mongo_tx [unfolded d])
  have ok: "Validate sample_event = Inr ()" "marshalPayload (Payload sample_event) = Inr []"
    "stamp sample_time sample_event = sample_event" "ChainID sample_event = ''tenant-1''"
    by (simp_all add: event_simps marshalPayload_def stamp_def)
  let ?s1 = "\<lparr>deployment = ?d, sessions = [Started sample_event [] ?d]\<rparr>"
  have "mongo_reachable ?d ?s1"
    using step [OF idle call_begins [OF ok(1,2), of _ sample_time]] by (simp add: ok(3))
  from step [OF this callback_ran [of 0 ?s1, OF _ _ e(1)]]
  have r: "mongo_reachable ?d \<lparr>deployment = ?d, sessions = [Ready sample_event [] ?d (stored_doc ?d [] e) e]\<rparr>"
    by (simp add: no_conflict_def)
  have "InsertOne (sealed_doc ?d [] e) ?d \<noteq> None" using e(1) by (simp add: record_tx_iff)
  then have "apply_writes sample_event (stored_doc ?d [] e) ?d = Some (stored_doc ?d [] e)"
    by (auto simp: apply_writes_def ok(4) e(2) stored_doc_def dest: InsertOne_Some)
  from that [OF e(2,1) this r] show thesis .
qed

lemma sample_commit_step:
  obtains s s' s'' where "mongo_reachable sample_deployment s" "mongo_step s s'" "deployment s = sample_deployment"
    "docs (deployment s') \<noteq> []" "deployment_room (deployment s')"
    "mongo_step s s''" "deployment s'' = deployment s'" "sessions s'' = [Returned record_unavailable]"
proof -
  let ?d = sample_deployment
  obtain e where e: "apply_writes sample_event (stored_doc ?d [] e) ?d = Some (stored_doc ?d [] e)"
    "mongo_reachable ?d \<lparr>deployment = ?d, sessions = [Ready sample_event [] ?d (stored_doc ?d [] e) e]\<rparr>"
    (is "mongo_reachable _ ?s2") by (rule sample_ready)
  have st: "mongo_step ?s2 \<lparr>deployment = stored_doc ?d [] e, sessions = [Returned r]\<rparr>"
    if "r = Inr (ID e) \<or> r = record_unavailable" for r
    using committed [of 0 ?s2 sample_event "[]" ?d "stored_doc ?d [] e" e "stored_doc ?d [] e"]
      commit_in_doubt [of 0 ?s2 sample_event "[]" ?d "stored_doc ?d [] e" e "stored_doc ?d [] e"] e(1) that by auto
  show thesis
    by (rule that [OF e(2) st [of "Inr (ID e)"] _ _ _ st [of record_unavailable]])
      (simp_all add: stored_doc_def deployment_room_def coll_chain_def chain_docs_def sample_deployment_def)
qed

lemma sample_deployment_simps: "empty_deployment sample_deployment" "deployment_room sample_deployment"
  using sample_mongo_simps(1)
  by (simp_all add: sample_mongo_def deployment_room_def coll_chain_def chain_docs_def sample_deployment_def)

theorem mongo_concurrent_intact_witness:
  "\<exists>s s' env event raw attempt recorded. mongo_reachable sample_deployment s \<and> mongo_step s s' \<and>
     deployment s' \<noteq> deployment s \<and> linked GenesisPrevHash (coll_chain (deployment s) ''tenant-1'') \<and>
     mongo_record_tx env event raw attempt (deployment s) = Inr (deployment s', recorded) \<and>
     sessions s' = [Returned record_unavailable]"
proof -
  obtain s s' s'' where s: "mongo_reachable sample_deployment s" "mongo_step s s'" "deployment s = sample_deployment"
    "docs (deployment s') \<noteq> []" "deployment_room (deployment s')"
    "mongo_step s s''" "deployment s'' = deployment s'" "sessions s'' = [Returned record_unavailable]"
    by (rule sample_commit_step)
  then have "deployment s'' \<noteq> deployment s" by (auto simp: sample_deployment_def)
  moreover have "deployment_room (deployment s)" by (simp add: s(3) sample_deployment_simps)
  ultimately show ?thesis
    using mongo_concurrent_intact [OF s(1) sample_deployment_simps(1) _ s(6), of "''tenant-1''"] s(1,6,8) by blast
qed

theorem mongo_verify_beside_writers_witness:
  "\<exists>s1 s2. mongo_reachable sample_deployment s1 \<and> mongo_step s1 s2 \<and> docs (deployment s2) \<noteq> docs (deployment s1) \<and>
     mongo_Verify_between retry_env ''tenant-1'' 1 0 sample_mongo (deployment s2) = Inr (True, verify_empty)"
proof -
  obtain s s' where s: "mongo_reachable sample_deployment s" "mongo_step s s'" "deployment s = sample_deployment"
    "docs (deployment s') \<noteq> []" "deployment_room (deployment s')" by (rule sample_commit_step)
  have a: "client sample_mongo = deployment s" by (simp add: s(3) sample_mongo_def)
  have run: "mongo_step\<^sup>*\<^sup>* s s'" using s(2) by blast
  have "encodes (client sample_mongo)" by (auto simp: sample_mongo_def sample_deployment_def encodes_def)
  moreover have "coll_chain (deployment s) ''tenant-1'' = []"
    by (simp add: s(3) sample_deployment_def coll_chain_def chain_docs_def)
  moreover have "docs (deployment s) = []" by (simp add: s(3) sample_deployment_def)
  moreover have "unat (0 :: EntryID) < 2 ^ 63" by simp
  ultimately have "mongo_Verify_between retry_env ''tenant-1'' 1 0 sample_mongo (deployment s') = Inr (True, verify_empty)"
    "docs (deployment s') \<noteq> docs (deployment s)"
    using mongo_verify_beside_writers [OF s(1) sample_deployment_simps(1) run s(5) a sample_mongo_simps(2),
        of "''tenant-1''" 0 retry_env] sample_mongo_simps(6-8) s(4)
    by simp_all
  with s(1,2) show ?thesis by (intro exI [of _ s] exI [of _ s'] conjI)
qed

end
