(* ===== verification/MongoProgress.thy ===== *)
theory MongoProgress
  imports MongoConcurrency
begin

text \<open>
  Progress of the optimistic \<^verbatim>\<open>Record\<close> of \<^verbatim>\<open>mongo.go\<close>, on the step relation of \<open>MongoConcurrency\<close>
  and with the indexes \<^verbatim>\<open>ensureAuditIndexes\<close> creates.  Writes conflict only with an entry stored on the
  same chain since the snapshot or with writes on it that are pending, and pending writes can always be
  committed.  And no call is stuck: from every reachable state all pending calls can succeed.

  The proofs rest on what a snapshot is (\<open>earlier\<close>): a state the deployment went through, so that
  every chain of it is a prefix of the chain now.
\<close>

section \<open>Snapshots are past states\<close>

fun snapshot :: "session \<Rightarrow> mongo_server option" where
  "snapshot (Started event raw snap) = Some snap"
| "snapshot (Ready event raw snap out recorded) = Some snap"
| "snapshot (Returned r) = None"

text \<open>The event a session still has to record, with the bytes of its payload.\<close>

fun pending :: "session \<Rightarrow> (AuditEvent \<times> string) option" where
  "pending (Started event raw snap) = Some (event, raw)"
| "pending (Ready event raw snap out recorded) = Some (event, raw)"
| "pending (Returned r) = None"

definition earlier :: "mongo_server \<Rightarrow> mongo_server \<Rightarrow> bool" where
  "earlier snap srv \<longleftrightarrow> coll_inv snap \<and> (\<forall>c. \<exists>ext. coll_chain srv c = coll_chain snap c @ ext)"

definition past_ok :: "mongo_server \<Rightarrow> session \<Rightarrow> bool" where
  "past_ok srv ses \<longleftrightarrow> (\<forall>snap. snapshot ses = Some snap \<longrightarrow> earlier snap srv)"

lemma earlier_refl: "coll_inv srv \<Longrightarrow> earlier srv srv"
  by (simp add: earlier_def)

lemma earlier_extends:
  assumes "earlier snap srv" "\<And>c. \<exists>ext. coll_chain srv' c = coll_chain srv c @ ext"
  shows "earlier snap srv'"
  unfolding earlier_def
proof (intro conjI allI)
  fix c
  obtain x y where "coll_chain srv c = coll_chain snap c @ x" "coll_chain srv' c = coll_chain srv c @ y"
    using assms by (metis earlier_def)
  then show "\<exists>ext. coll_chain srv' c = coll_chain snap c @ ext" by simp
qed (use assms(1) in \<open>simp add: earlier_def\<close>)

lemma past_ok_simps [simp]:
  "past_ok srv (Started event raw snap) = earlier snap srv"
  "past_ok srv (Ready event raw snap out recorded) = earlier snap srv"
  "past_ok srv (Returned r)"
  by (simp_all add: past_ok_def)

lemma mongo_step_past:
  assumes "mongo_step s s'" "msys_inv s" "deployment_room (deployment s)"
    and "\<forall>ses \<in> set (sessions s). past_ok (deployment s) ses"
  shows "\<forall>ses \<in> set (sessions s'). past_ok (deployment s') ses"
proof -
  have now: "\<forall>ses \<in> set (sessions s). past_ok (deployment s') ses"
    using assms(4) earlier_extends mongo_step_grows [OF assms(1-3)] unfolding past_ok_def by blast
  have "coll_inv (deployment s)" using assms(2) by (simp add: msys_inv_def)
  note self = earlier_extends [OF earlier_refl [OF this] mongo_step_grows [OF assms(1-3)]]
  from assms(1) show ?thesis
  proof cases
    case (call_begins event raw at)
    with now self show ?thesis by simp
  next
    case (callback_ran p event raw snap env attempt out recorded)
    have "past_ok (deployment s') (sessions s ! p)" using now callback_ran(2) by simp
    with callback_ran sessions_update [OF now, of "Ready event raw snap out recorded" p] show ?thesis by simp
  next
    case (committed p event raw snap out recorded srv)
    with sessions_update [OF now, of "Returned (Inr (ID recorded))" p] show ?thesis by simp
  next
    case (commit_in_doubt p event raw snap out recorded srv)
    with sessions_update [OF now, of "Returned record_unavailable" p] show ?thesis by simp
  next
    case (retried p event raw snap out recorded)
    with sessions_update [OF now, of "Started event raw (deployment s)" p] self show ?thesis by simp
  next
    case (gave_up p event raw snap out recorded)
    with sessions_update [OF now, of "Returned record_unavailable" p]
    show ?thesis by simp
  qed
qed

lemma mongo_reachable_past:
  assumes "mongo_reachable srv s" "coll_inv srv" "deployment_room (deployment s)"
  shows "\<forall>ses \<in> set (sessions s). past_ok (deployment s) ses"
  using assms(1,3)
proof (induction rule: mongo_reachable.induct)
  case (step s s')
  have "deployment_room (deployment s)" using mongo_step_docs [OF step.hyps(2)] step.prems deployment_room_mono by blast
  with mongo_step_past [OF step.hyps(2) mongo_reachable_inv [OF step.hyps(1) assms(2) this] this] step.IH
  show ?case by blast
qed simp

lemma mongo_steps_past:
  assumes "mongo_step\<^sup>*\<^sup>* s t" "msys_inv s" "deployment_room (deployment t)"
    and "\<forall>ses \<in> set (sessions s). past_ok (deployment s) ses"
  shows "\<forall>ses \<in> set (sessions t). past_ok (deployment t) ses"
  using assms(1,3)
proof (induction rule: rtranclp_induct)
  case base
  then show ?case using assms(4) by blast
next
  case (step t u)
  have room: "deployment_room (deployment t)" using mongo_step_docs [OF step.hyps(2)] step.prems deployment_room_mono by blast
  with mg_shared.later_inv [OF step.hyps(1) assms(2)] have "msys_inv t" .
  with mongo_step_past [OF step.hyps(2) _ room] step.IH [OF room] show ?case by blast
qed

text \<open>What no step changes.\<close>

lemma mongo_step_static:
  "mongo_step s s' \<Longrightarrow> indexes (deployment s') = indexes (deployment s) \<and>
     bson_uint64 (deployment s') = bson_uint64 (deployment s)"
  by (induction rule: mongo_step.induct) (auto simp: apply_writes_def dest!: InsertOne_Some)

lemma mongo_reachable_static:
  "mongo_reachable srv s \<Longrightarrow> indexes (deployment s) = indexes srv \<and> bson_uint64 (deployment s) = bson_uint64 srv"
  by (induction rule: mongo_reachable.induct) (auto dest: mongo_step_static)

section \<open>A free position can be taken\<close>

definition only_position_unique :: "mongo_server \<Rightarrow> bool" where
  "only_position_unique srv \<longleftrightarrow> (\<forall>ix \<in> set (indexes srv). Unique ix \<longrightarrow> ix = position_index)"

lemma audit_index_models_unique: "ix \<in> set audit_index_models \<Longrightarrow> Unique ix \<Longrightarrow> ix = position_index"
  by (auto simp: audit_index_models_def position_index_def)

lemma ensured_indexes:
  "ensureAuditIndexes drv srv = Inr srv' \<Longrightarrow> only_position_unique srv \<Longrightarrow> only_position_unique srv'"
  by (auto simp: ensureAuditIndexes_def only_position_unique_def audit_index_models_unique split: if_splits)

lemma InsertOne_free:
  assumes "coll_inv srv" "only_position_unique srv" "bson_uint64 srv (dEntryID d)"
    and "dEntryID d = of_nat (Suc (length (coll_chain srv (dChainID d))))"
  shows "InsertOne d srv \<noteq> None"
proof -
  let ?n = "length (coll_chain srv (dChainID d))"
  have len: "?n < 2 ^ 63" using assms(1) by (simp add: coll_inv_def)
  have "map (doc_field q) (Keys position_index) \<noteq> map (doc_field d) (Keys position_index)" if q: "q \<in> set (docs srv)" for q
  proof
    assume "map (doc_field q) (Keys position_index) = map (doc_field d) (Keys position_index)"
    then have eq: "dChainID q = dChainID d" "dEntryID q = dEntryID d"
      by (simp_all add: position_index_def doc_field_def)
    obtain k where k: "k < ?n" "dEntryID d = of_nat (Suc k)"
      using doc_position [OF assms(1) q] unfolding eq by blast
    have "(of_nat (Suc k) :: u64) = of_nat (Suc ?n)" using k(2) assms(4) by (simp only:)
    moreover have "Suc k < 2 ^ 64" "Suc ?n < 2 ^ 64" using k(1) len by simp_all
    ultimately have "Suc k = Suc ?n" using of_nat_u64_le by (metis order_antisym order_refl)
    with k(1) show False by simp
  qed
  then show ?thesis using assms(2,3) by (auto simp: InsertOne_def list_ex_iff only_position_unique_def)
qed

section \<open>Conflicts\<close>

text \<open>The chain-state document tells the chain apart from every shorter one.\<close>

lemma no_conflict_iff:
  assumes "earlier snap srv" "coll_inv srv"
  shows "no_conflict event snap srv \<longleftrightarrow>
    length (coll_chain srv (ChainID event)) = length (coll_chain snap (ChainID event))"
proof -
  let ?c = "ChainID event"
  have st: "chain_state srv ?c = state_of ?c (coll_chain srv ?c)" "chain_state snap ?c = state_of ?c (coll_chain snap ?c)"
    using assms by (simp_all add: earlier_def coll_inv_def)
  have len: "length (coll_chain srv ?c) < 2 ^ 63" "length (coll_chain snap ?c) < 2 ^ 63"
    using assms by (simp_all add: earlier_def coll_inv_def)
  obtain ext where ext: "coll_chain srv ?c = coll_chain snap ?c @ ext" using assms(1) by (auto simp: earlier_def)
  have "(of_nat (length (coll_chain srv ?c)) :: u64) = of_nat (length (coll_chain snap ?c)) \<longleftrightarrow>
      length (coll_chain srv ?c) = length (coll_chain snap ?c)"
    using of_nat_u64_le [of "length (coll_chain srv ?c)" "length (coll_chain snap ?c)"]
      of_nat_u64_le [of "length (coll_chain snap ?c)" "length (coll_chain srv ?c)"] len by fastforce
  with st ext show ?thesis by (auto simp: no_conflict_def state_of_def split: if_splits)
qed

lemma apply_writes_free:
  assumes "coll_inv srv" "only_position_unique srv" "earlier snap srv" "same_driver snap srv"
    and "mongo_record_tx env event raw attempt snap = Inr (out, recorded)" "no_conflict event snap srv"
  shows "apply_writes event out srv \<noteq> None"
proof -
  let ?d = "sealed_doc snap raw recorded" and ?c = "ChainID event"
  note tx = assms(5) [unfolded record_tx_iff]
  have out: "last (docs out) = ?d" using tx by simp
  have rec: "ChainID recorded = ?c" "ID recorded = of_nat (Suc (length (coll_chain snap ?c)))"
    using mongo_record_tx_seal(1) [OF _ assms(5)] assms(3) by (simp_all add: earlier_def seal_Inr)
  have "bson_uint64 snap (dEntryID ?d)" using tx by (auto dest: InsertOne_Some)
  then have "bson_uint64 srv (dEntryID ?d)" using assms(4) by (simp add: same_driver_def)
  moreover have "dEntryID ?d = of_nat (Suc (length (coll_chain srv (dChainID ?d))))"
    using assms(6) unfolding no_conflict_iff [OF assms(3,1)] by (simp add: rec)
  ultimately have "InsertOne ?d srv \<noteq> None" using InsertOne_free [OF assms(1,2)] by blast
  then show ?thesis by (auto simp: apply_writes_def out)
qed

lemma empty_deployment_inv: "empty_deployment srv \<Longrightarrow> coll_inv srv"
  by (simp add: empty_deployment_def coll_inv_def coll_chain_def chain_docs_def state_of_def)

text \<open>Writes that were accepted had nothing in their way.\<close>

lemma accepted_only:
  assumes "mongo_step s s'" "p < length (sessions s)" "sessions s ! p = Started event raw snap"
    and "sessions s' = (sessions s)[p := Ready event raw snap out recorded]"
  shows "no_conflict event snap (deployment s)" "\<not> list_ex (pending_writer (ChainID event)) (sessions s)"
proof -
  have at: "sessions s' ! p = Ready event raw snap out recorded" using assms(2,4) by simp
  from assms(1) have "no_conflict event snap (deployment s) \<and> \<not> list_ex (pending_writer (ChainID event)) (sessions s)"
  proof cases
    case (call_begins event' raw' at')
    then have "length (sessions s') \<noteq> length (sessions s)" by simp
    with assms(4) show ?thesis by simp
  next
    case (callback_ran q event' raw' snap' env attempt out' recorded')
    show ?thesis
    proof (cases "q = p")
      case True
      with callback_ran(3,5,6) assms(3) show ?thesis by simp
    next
      case False
      with callback_ran(1) at assms(3) show ?thesis by simp
    qed
  qed (use at assms(2,3) in \<open>auto simp: nth_list_update split: if_splits\<close>)
  then show "no_conflict event snap (deployment s)" "\<not> list_ex (pending_writer (ChainID event)) (sessions s)" by blast+
qed

text \<open>Pending writes can be committed, which is a run of the callback on the deployment.\<close>

lemma ready_commits:
  assumes "msys_inv s" "only_position_unique (deployment s)" "\<forall>ses \<in> set (sessions s). past_ok (deployment s) ses"
    and "p < length (sessions s)" "sessions s ! p = Ready event raw snap out recorded"
  obtains srv env attempt where "apply_writes event out (deployment s) = Some srv"
    "marshalPayload (Payload event) = Inr raw"
    "mongo_record_tx env event raw attempt (deployment s) = Inr (srv, recorded)"
proof -
  have mem: "Ready event raw snap out recorded \<in> set (sessions s)" using assms(4,5) nth_mem by metis
  have inv: "coll_inv (deployment s)" "session_ok (deployment s) (Ready event raw snap out recorded)"
    and past: "earlier snap (deployment s)"
    using assms(1,3) mem by (auto simp: msys_inv_def sessions_ok_def)
  have nc: "no_conflict event snap (deployment s)"
    using assms(1) writers_okD(1) [OF _ assms(4,5)] by (simp add: msys_inv_def sessions_ok_def)
  obtain env attempt where tx: "marshalPayload (Payload event) = Inr raw" "same_driver snap (deployment s)"
    "mongo_record_tx env event raw attempt snap = Inr (out, recorded)"
    using inv(2) by auto
  obtain srv where srv: "apply_writes event out (deployment s) = Some srv"
    using apply_writes_free [OF inv(1) assms(2) past tx(2,3) nc] by blast
  from that [OF this tx(1) commit_is_callback [OF tx(3,2) nc this]] show thesis .
qed

section \<open>A call left alone\<close>

text \<open>The payload of a pending event can be hashed; only nesting deeper than the decoder accepts prevents it.\<close>

definition hashable :: "session \<Rightarrow> bool" where
  "hashable ses \<longleftrightarrow>
     (case pending ses of None \<Rightarrow> True | Some (event, raw) \<Rightarrow> \<not> isl (canonicalJSON (Payload event)))"

lemma callback_succeeds:
  assumes "coll_inv srv" "only_position_unique srv" "encodes srv" "has_room srv event"
    and "\<not> isl (canonicalJSON (Payload event))"
  obtains recorded where "mongo_record_tx retry_env event raw 1 srv = Inr (stored_doc srv raw recorded, recorded)"
    "ID recorded = of_nat (Suc (length (coll_chain srv (ChainID event))))" "ChainID recorded = ChainID event"
proof -
  let ?es = "coll_chain srv (ChainID event)"
  obtain h where h: "ComputeHash (ChainID event) (of_nat (length ?es) + 1) (ActorID event) (EntityType event)
      (EntityID event) (Action event) (Payload event) (Timestamp event) (last_hash GenesisPrevHash ?es) = Inr h"
    using assms(5) by (cases "canonicalJSON (Payload event)") (auto simp: ComputeHash_def)
  let ?e = "event\<lparr>ID := of_nat (length ?es) + 1, Hash := h, PrevHash := last_hash GenesisPrevHash ?es\<rparr>"
  have at: "sealed_at srv event ?e" using h by (simp add: sealed_at_def coll_state [OF assms(1)])
  have "length ?es < 2 ^ 63 - 1" using assms(4) by (simp add: has_room_def)
  then have "bson_uint64 srv (of_nat (Suc (length ?es)))"
    using assms(3) unfolding encodes_def by (simp add: unsigned_of_nat take_bit_nat_eq_self del: of_nat_Suc)
  then have "InsertOne (sealed_doc srv raw ?e) srv \<noteq> None"
    by (intro InsertOne_free [OF assms(1,2)]) (simp_all add: add.commute)
  with at show thesis by (intro that [of ?e]) (simp_all add: record_tx_iff retry_env_simps add.commute)
qed

lemma call_alone:
  assumes "msys_inv s" "only_position_unique (deployment s)" "encodes (deployment s)" "deployment_room (deployment s)"
    and "p < length (sessions s)" "sessions s ! p = Started event raw snap" "hashable (sessions s ! p)"
    and "\<not> list_ex (pending_writer (ChainID event)) (sessions s)"
  obtains s' where "mongo_step\<^sup>*\<^sup>* s s'"
    "sessions s' = (sessions s)[p := Returned (Inr (of_nat (Suc (length (coll_chain (deployment s) (ChainID event))))))]"
    "\<forall>c. length (coll_chain (deployment s') c) = length (coll_chain (deployment s) c) + of_bool (c = ChainID event)"
    "indexes (deployment s') = indexes (deployment s)" "bson_uint64 (deployment s') = bson_uint64 (deployment s)"
proof -
  let ?srv = "deployment s"
  have inv: "coll_inv ?srv" and ok: "session_ok ?srv (sessions s ! p)"
    using assms(1,5) by (simp_all add: msys_inv_def sessions_ok_def)
  have raw: "marshalPayload (Payload event) = Inr raw" using ok assms(6) by simp
  have room: "has_room ?srv event" using assms(4) by (simp add: deployment_room_def has_room_def)
  have "\<not> isl (canonicalJSON (Payload event))" using assms(6,7) by (simp add: hashable_def)
  then obtain e where e: "mongo_record_tx retry_env event raw 1 ?srv = Inr (stored_doc ?srv raw e, e)"
      "ID e = of_nat (Suc (length (coll_chain ?srv (ChainID event))))" "ChainID e = ChainID event"
    by (rule callback_succeeds [OF inv assms(2,3) room])
  let ?s1 = "s\<lparr>sessions := (sessions s)[p := Started event raw ?srv]\<rparr>"
  let ?s2 = "s\<lparr>sessions := (sessions s)[p := Ready event raw ?srv (stored_doc ?srv raw e) e]\<rparr>"
  let ?s3 = "\<lparr>deployment = stored_doc ?srv raw e, sessions = (sessions s)[p := Returned (Inr (ID e))]\<rparr>"
  have 1: "mongo_step s ?s1" using retried [OF assms(5)] assms(6) by blast
  have "\<not> list_ex (pending_writer (ChainID event)) (sessions ?s1)"
    using assms(5,8) by (auto simp: list_ex_length nth_list_update split: if_splits)
  then have 2: "mongo_step ?s1 ?s2"
    using callback_ran [of p ?s1 event raw ?srv retry_env 1, OF _ _ e(1)] assms(5) by (simp add: no_conflict_def)
  have "InsertOne (sealed_doc ?srv raw e) ?srv \<noteq> None" using e(1) by (simp add: record_tx_iff)
  then have "apply_writes event (stored_doc ?srv raw e) ?srv = Some (stored_doc ?srv raw e)"
    by (auto simp: apply_writes_def e(3) stored_doc_def dest: InsertOne_Some)
  then have 3: "mongo_step ?s2 ?s3"
    using committed [of p ?s2 event raw ?srv "stored_doc ?srv raw e" e] assms(5) by simp
  have run: "mongo_step\<^sup>*\<^sup>* s ?s3" using 1 2 3 by (meson rtranclp.rtrancl_into_rtrancl rtranclp.rtrancl_refl)
  have "coll_chain (stored_doc ?srv raw e) = (coll_chain ?srv)
      (ChainID event := coll_chain ?srv (ChainID event) @ [doc_event (sealed_doc ?srv raw e)])"
    using stored_doc_inv(2) [OF inv room raw mongo_record_tx_seal(1) [OF inv e(1)]] .
  with run show thesis by (intro that [of ?s3]) (simp_all add: e(2) stored_doc_def)
qed

section \<open>All calls, one after the other\<close>

definition pending_calls :: "mongo_system \<Rightarrow> nat" where
  "pending_calls s = length (filter (\<lambda>ses. pending ses \<noteq> None) (sessions s))"

text \<open>Nothing happens to a session, or it was pending and its call succeeds.\<close>

definition succeeds_from :: "session \<Rightarrow> session \<Rightarrow> bool" where
  "succeeds_from ses ses' \<longleftrightarrow> ses' = ses \<or> pending ses \<noteq> None \<and> (\<exists>i. ses' = Returned (Inr i))"

lemma succeeds_from_trans: "succeeds_from x y \<Longrightarrow> succeeds_from y z \<Longrightarrow> succeeds_from x z"
  by (auto simp: succeeds_from_def)

lemma filter_update_less:
  "p < length xs \<Longrightarrow> P (xs ! p) \<Longrightarrow> \<not> P x \<Longrightarrow> length (filter P (xs[p := x])) < length (filter P xs)"
proof (induction xs arbitrary: p)
  case (Cons y ys)
  then show ?case by (cases p) auto
qed simp

text \<open>One of the pending calls succeeds: one whose writes are pending, if there is one.\<close>

lemma one_succeeds:
  assumes "msys_inv s" "only_position_unique (deployment s)" "encodes (deployment s)" "deployment_room (deployment s)"
    and "\<forall>ses \<in> set (sessions s). past_ok (deployment s) ses" "\<forall>ses \<in> set (sessions s). hashable ses"
    and "pending_calls s \<noteq> 0"
  obtains t p c i where "mongo_step\<^sup>*\<^sup>* s t" "p < length (sessions s)" "pending (sessions s ! p) \<noteq> None"
    "sessions t = (sessions s)[p := Returned (Inr i)]"
    "\<forall>d. length (coll_chain (deployment t) d) = length (coll_chain (deployment s) d) + of_bool (d = c)"
    "indexes (deployment t) = indexes (deployment s)" "bson_uint64 (deployment t) = bson_uint64 (deployment s)"
proof (cases "\<exists>p event raw snap out recorded. p < length (sessions s) \<and> sessions s ! p = Ready event raw snap out recorded")
  case True
  then obtain p event raw snap out recorded where
    p: "p < length (sessions s)" "sessions s ! p = Ready event raw snap out recorded" by blast
  obtain srv env attempt where srv: "apply_writes event out (deployment s) = Some srv"
    "marshalPayload (Payload event) = Inr raw"
    "mongo_record_tx env event raw attempt (deployment s) = Inr (srv, recorded)"
    by (rule ready_commits [OF assms(1,2,5) p])
  have inv: "coll_inv (deployment s)" using assms(1) by (simp add: msys_inv_def)
  have room: "has_room (deployment s) event" using assms(4) by (simp add: deployment_room_def has_room_def)
  note t = mongo_record_tx_seal [OF inv srv(3)]
  note step = committed [OF p srv(1)]
  from stored_doc_inv(2) [OF inv room srv(2) t(1)]
  show thesis using mongo_step_static [OF step] step p
    by (intro that [of "\<lparr>deployment = srv, sessions = (sessions s)[p := Returned (Inr (ID recorded))]\<rparr>" p
          "ID recorded" "ChainID event"]) (simp_all add: t(2))
next
  case False
  obtain p event raw where p: "p < length (sessions s)" "pending (sessions s ! p) = Some (event, raw)"
    using assms(7) by (auto simp: pending_calls_def filter_empty_conv in_set_conv_nth)
  with False obtain snap where st: "sessions s ! p = Started event raw snap" by (cases "sessions s ! p") auto
  have none: "\<not> list_ex (pending_writer (ChainID event)) (sessions s)"
    using False by (auto simp: list_ex_length pending_writer_iff)
  have "hashable (sessions s ! p)" using assms(6) p(1) by simp
  from assms(1-4) p(1) st this none obtain t where t: "mongo_step\<^sup>*\<^sup>* s t"
    "sessions t = (sessions s)[p := Returned (Inr (of_nat (Suc (length (coll_chain (deployment s) (ChainID event))))))]"
    "\<forall>d. length (coll_chain (deployment t) d) = length (coll_chain (deployment s) d) + of_bool (d = ChainID event)"
    "indexes (deployment t) = indexes (deployment s)" "bson_uint64 (deployment t) = bson_uint64 (deployment s)"
    by (rule call_alone)
  show thesis by (rule that [OF t(1) p(1) _ t(2-5)]) (simp add: p(2))
qed

lemma all_succeed:
  assumes "msys_inv s" "only_position_unique (deployment s)" "encodes (deployment s)"
    and "\<forall>ses \<in> set (sessions s). hashable ses"
    and "\<forall>c. length (coll_chain (deployment s) c) + pending_calls s < 2 ^ 63 - 1"
    and "\<forall>ses \<in> set (sessions s). past_ok (deployment s) ses"
  shows "\<exists>s'. mongo_step\<^sup>*\<^sup>* s s' \<and> list_all2 succeeds_from (sessions s) (sessions s') \<and> pending_calls s' = 0"
  using assms
proof (induction "pending_calls s" arbitrary: s rule: less_induct)
  case less
  show ?case
  proof (cases "pending_calls s = 0")
    case True
    then have "list_all2 succeeds_from (sessions s) (sessions s)"
      by (auto simp: list_all2_conv_all_nth succeeds_from_def pending_calls_def filter_empty_conv)
    with True show ?thesis by blast
  next
    case False
    have room: "deployment_room (deployment s)"
      using less.prems(5) by (auto simp: deployment_room_def intro: le_less_trans [OF le_add1])
    obtain t p c i where t: "mongo_step\<^sup>*\<^sup>* s t" "p < length (sessions s)" "pending (sessions s ! p) \<noteq> None"
      "sessions t = (sessions s)[p := Returned (Inr i)]"
      "\<forall>d. length (coll_chain (deployment t) d) = length (coll_chain (deployment s) d) + of_bool (d = c)"
      "indexes (deployment t) = indexes (deployment s)" "bson_uint64 (deployment t) = bson_uint64 (deployment s)"
      by (rule one_succeeds [OF less.prems(1-3) room less.prems(6,4) False])
    have fewer: "pending_calls t < pending_calls s"
      unfolding pending_calls_def t(4) by (rule filter_update_less) (simp_all add: t(2,3))
    have "length (coll_chain (deployment t) d) + pending_calls t < 2 ^ 63 - 1" for d
      using less.prems(5) [rule_format, of d] t(5) [rule_format, of d] fewer by (cases "d = c") simp_all
    moreover from this have "deployment_room (deployment t)"
      by (auto simp: deployment_room_def intro: le_less_trans [OF le_add1])
    moreover from this have "msys_inv t" "\<forall>ses \<in> set (sessions t). past_ok (deployment t) ses"
      using mg_shared.later_inv [OF t(1) less.prems(1)] mongo_steps_past [OF t(1) less.prems(1) _ less.prems(6)] by blast+
    moreover have "\<forall>ses \<in> set (sessions t). hashable ses"
      unfolding t(4) by (rule sessions_update [OF less.prems(4)]) (simp add: hashable_def)
    ultimately obtain s' where s': "mongo_step\<^sup>*\<^sup>* t s'" "list_all2 succeeds_from (sessions t) (sessions s')" "pending_calls s' = 0"
      using less.hyps [OF fewer] less.prems(2,3) t(6,7) by (auto simp: only_position_unique_def encodes_def)
    have "list_all2 succeeds_from (sessions s) (sessions t)"
      using t(2,3) by (auto simp: t(4) list_all2_conv_all_nth nth_list_update succeeds_from_def)
    then have "list_all2 succeeds_from (sessions s) (sessions s')"
      by (rule list_all2_trans [rotated, OF _ s'(2)]) (rule succeeds_from_trans)
    with t(1) s' show ?thesis by (meson rtranclp_trans)
  qed
qed

section \<open>Properties\<close>

text \<open>
  C20. Conflicts have a cause.  In every reachable state, what a snapshot held of a chain is still the
  chain's beginning.  The writes of a call whose callback succeeds on its snapshot are accepted exactly
  when no entry has been stored on its chain since the snapshot and no other call has writes pending on
  it.  And a call with writes pending, on whose account others are refused, can commit at once and
  return its position: its commit is never refused by a conflict or by a unique index.
\<close>

theorem mongo_conflicts_explained:
  assumes "mongo_reachable srv s" "empty_deployment srv" "only_position_unique srv" "deployment_room (deployment s)"
    and "p < length (sessions s)"
  shows "case sessions s ! p of
      Started event raw snap \<Rightarrow>
        take (length (coll_chain snap (ChainID event))) (coll_chain (deployment s) (ChainID event)) =
          coll_chain snap (ChainID event) \<and>
        (\<forall>env attempt out recorded. mongo_record_tx env event raw attempt snap = Inr (out, recorded) \<longrightarrow>
          ((\<exists>s'. mongo_step s s' \<and> sessions s' = (sessions s)[p := Ready event raw snap out recorded]) \<longleftrightarrow>
            length (coll_chain (deployment s) (ChainID event)) = length (coll_chain snap (ChainID event)) \<and>
            \<not> list_ex (pending_writer (ChainID event)) (sessions s)))
    | Ready event raw snap out recorded \<Rightarrow>
        coll_chain (deployment s) (ChainID event) = coll_chain snap (ChainID event) \<and>
        (\<exists>s'. mongo_step s s' \<and> sessions s' = (sessions s)[p := Returned (Inr (ID recorded))])
    | Returned r \<Rightarrow> True"
proof -
  have inv: "msys_inv s" using assms mongo_reachable_inv empty_deployment_inv by blast
  then have coll: "coll_inv (deployment s)" by (simp add: msys_inv_def)
  note past = mongo_reachable_past [OF assms(1) empty_deployment_inv [OF assms(2)] assms(4)]
  have only: "only_position_unique (deployment s)"
    using assms(3) mongo_reachable_static [OF assms(1)] by (simp add: only_position_unique_def)
  show ?thesis
  proof (cases "sessions s ! p")
    case (Started event raw snap)
    have snap: "earlier snap (deployment s)" using past assms(5) Started nth_mem by fastforce
    have "take (length (coll_chain snap (ChainID event))) (coll_chain (deployment s) (ChainID event)) =
        coll_chain snap (ChainID event)"
      using snap unfolding earlier_def by (metis append_eq_conv_conj)
    moreover have "(\<exists>s'. mongo_step s s' \<and> sessions s' = (sessions s)[p := Ready event raw snap out recorded]) \<longleftrightarrow>
        no_conflict event snap (deployment s) \<and> \<not> list_ex (pending_writer (ChainID event)) (sessions s)"
      if tx: "mongo_record_tx env event raw attempt snap = Inr (out, recorded)" for env attempt out recorded
      using accepted_only [OF _ assms(5) Started, of _ out recorded] callback_ran [OF assms(5) Started tx] by force
    ultimately show ?thesis unfolding Started using no_conflict_iff [OF snap coll] by simp
  next
    case (Ready event raw snap out recorded)
    have snap: "earlier snap (deployment s)" using past assms(5) Ready nth_mem by fastforce
    have "no_conflict event snap (deployment s)"
      using inv writers_okD(1) [OF _ assms(5) Ready] by (simp add: msys_inv_def sessions_ok_def)
    then have "length (coll_chain (deployment s) (ChainID event)) = length (coll_chain snap (ChainID event))"
      using no_conflict_iff [OF snap coll] by simp
    moreover obtain ext where "coll_chain (deployment s) (ChainID event) = coll_chain snap (ChainID event) @ ext"
      using snap by (auto simp: earlier_def)
    ultimately have "coll_chain (deployment s) (ChainID event) = coll_chain snap (ChainID event)" by simp
    moreover have "\<exists>s'. mongo_step s s' \<and> sessions s' = (sessions s)[p := Returned (Inr (ID recorded))]"
      by (rule ready_commits [OF inv only past assms(5) Ready]) (use committed [OF assms(5) Ready] in force)
    ultimately show ?thesis unfolding Ready by simp
  qed simp
qed

text \<open>
  C10. No call is stuck: from every reachable state, whatever has been retried or overtaken
  before, there is a continuation in which every pending call returns its position and no
  other call is disturbed, as long as the positions of the chain can be encoded and the
  payloads of the calls can be hashed.
\<close>

theorem mongo_calls_can_succeed:
  assumes "mongo_reachable srv s" "empty_deployment srv" "only_position_unique srv" "encodes srv"
    and "list_all hashable (sessions s)"
    and "\<And>c. length (coll_chain (deployment s) c) + pending_calls s < 2 ^ 63 - 1"
  shows "\<exists>s'. mongo_step\<^sup>*\<^sup>* s s' \<and> list_all2 succeeds_from (sessions s) (sessions s') \<and> pending_calls s' = 0"
proof -
  have "deployment_room (deployment s)"
    using assms(6) by (auto simp: deployment_room_def intro: le_less_trans [OF le_add1])
  with mongo_reachable_inv [OF assms(1) empty_deployment_inv [OF assms(2)]]
    mongo_reachable_past [OF assms(1) empty_deployment_inv [OF assms(2)]]
  have "msys_inv s" "\<forall>ses \<in> set (sessions s). past_ok (deployment s) ses" by blast+
  moreover have "only_position_unique (deployment s)" "encodes (deployment s)"
    using assms(3,4) mongo_reachable_static [OF assms(1)] by (simp_all add: only_position_unique_def encodes_def)
  ultimately show ?thesis using all_succeed assms(5,6) by (simp add: list_all_iff)
qed

section \<open>Witnesses\<close>

text \<open>
  Two calls on an empty deployment that start together: the writes of the first keep those of the
  other out, while they are pending and after they are committed.
\<close>

lemma sample_race:
  obtains e where "ChainID e = ''tenant-1''"
    "mongo_record_tx retry_env sample_event [] 1 sample_deployment = Inr (stored_doc sample_deployment [] e, e)"
    "mongo_reachable sample_deployment \<lparr>deployment = sample_deployment,
       sessions = [Started sample_event [] sample_deployment, Started sample_event [] sample_deployment]\<rparr>"
    "mongo_reachable sample_deployment \<lparr>deployment = sample_deployment,
       sessions = [Ready sample_event [] sample_deployment (stored_doc sample_deployment [] e) e,
         Started sample_event [] sample_deployment]\<rparr>"
    "mongo_reachable sample_deployment \<lparr>deployment = stored_doc sample_deployment [] e,
       sessions = [Returned (Inr (ID e)), Started sample_event [] sample_deployment]\<rparr>"
proof -
  let ?d = sample_deployment
  obtain e where e: "ChainID e = ''tenant-1''"
    "mongo_record_tx retry_env sample_event [] 1 ?d = Inr (stored_doc ?d [] e, e)"
    "apply_writes sample_event (stored_doc ?d [] e) ?d = Some (stored_doc ?d [] e)"
    "mongo_reachable ?d \<lparr>deployment = ?d, sessions = [Ready sample_event [] ?d (stored_doc ?d [] e) e]\<rparr>"
    by (rule sample_ready)
  have ok: "Validate sample_event = Inr ()" "marshalPayload (Payload sample_event) = Inr []"
    "stamp sample_time sample_event = sample_event"
    by (simp_all add: event_simps marshalPayload_def stamp_def)
  let ?st = "Started sample_event [] ?d" and ?rd = "Ready sample_event [] ?d (stored_doc ?d [] e) e"
  have "mongo_reachable ?d \<lparr>deployment = ?d, sessions = [?st]\<rparr>"
    using step [OF idle call_begins [OF ok(1,2), of _ sample_time]] by (simp add: ok(3))
  from step [OF this call_begins [OF ok(1,2), of _ sample_time]]
  have both: "mongo_reachable ?d \<lparr>deployment = ?d, sessions = [?st, ?st]\<rparr>" by (simp add: ok(3))
  from step [OF e(4) call_begins [OF ok(1,2), of _ sample_time]]
  have first: "mongo_reachable ?d \<lparr>deployment = ?d, sessions = [?rd, ?st]\<rparr>" by (simp add: ok(3))
  let ?s = "\<lparr>deployment = ?d, sessions = [?rd, ?st]\<rparr>"
  have "mongo_step ?s \<lparr>deployment = stored_doc ?d [] e, sessions = [Returned (Inr (ID e)), ?st]\<rparr>"
    using committed [of 0 ?s sample_event "[]" ?d "stored_doc ?d [] e" e "stored_doc ?d [] e"] e(3) by simp
  from that [OF e(1,2) both first step [OF first this]] show thesis .
qed

lemma sample_deployment_progress: "only_position_unique sample_deployment" "encodes sample_deployment"
  by (auto simp: only_position_unique_def sample_deployment_def encodes_def audit_index_models_unique)

text \<open>
  The second call is accepted when neither has written, refused while the first has its writes pending, and
  refused after the first has committed; the first can commit.
\<close>

theorem mongo_conflicts_explained_witness:
  "\<exists>e s0 s1 s2. list_all (mongo_reachable sample_deployment) [s0, s1, s2] \<and>
     list_all (\<lambda>s. sessions s ! 1 = Started sample_event [] sample_deployment) [s0, s1, s2] \<and>
     map (\<lambda>s. \<exists>s'. mongo_step s s' \<and> sessions s' = (sessions s)[1 := Ready sample_event [] sample_deployment
         (stored_doc sample_deployment [] e) e]) [s0, s1, s2] = [True, False, False] \<and>
     (\<exists>s'. mongo_step s1 s' \<and> sessions s' = (sessions s1)[0 := Returned (Inr (ID e))])"
proof -
  let ?d = sample_deployment and ?c = "''tenant-1''"
  obtain e where e: "ChainID e = ?c" "mongo_record_tx retry_env sample_event [] 1 ?d = Inr (stored_doc ?d [] e, e)"
    "mongo_reachable ?d \<lparr>deployment = ?d, sessions = [Started sample_event [] ?d, Started sample_event [] ?d]\<rparr>"
      (is "mongo_reachable _ ?s0")
    "mongo_reachable ?d \<lparr>deployment = ?d,
       sessions = [Ready sample_event [] ?d (stored_doc ?d [] e) e, Started sample_event [] ?d]\<rparr>"
      (is "mongo_reachable _ ?s1")
    "mongo_reachable ?d \<lparr>deployment = stored_doc ?d [] e, sessions = [Returned (Inr (ID e)), Started sample_event [] ?d]\<rparr>"
      (is "mongo_reachable _ ?s2")
    by (rule sample_race)
  have c: "ChainID sample_event = ?c" by (simp add: event_simps)
  have chain: "length (coll_chain (deployment ?s2) ?c) \<noteq> length (coll_chain ?d ?c)"
    using e(1) by (simp add: coll_chain_def chain_docs_def)
  have room: "deployment_room (deployment ?s2)"
    by (auto simp: deployment_room_def coll_chain_def chain_docs_def) (auto simp: sample_deployment_def)
  let ?go = "\<lambda>s. \<exists>s'. mongo_step s s' \<and> sessions s' = (sessions s)[1 := Ready sample_event [] ?d (stored_doc ?d [] e) e]"
  have "?go ?s0"
    using mongo_conflicts_explained [OF e(3) sample_deployment_simps(1) sample_deployment_progress(1), of 1] e(2)
      sample_deployment_simps(2) by simp
  moreover have "\<not> ?go ?s1"
    using mongo_conflicts_explained [OF e(4) sample_deployment_simps(1) sample_deployment_progress(1), of 1] e(2)
      sample_deployment_simps(2) by (simp add: c)
  moreover have "\<not> ?go ?s2"
    using mongo_conflicts_explained [OF e(5) sample_deployment_simps(1) sample_deployment_progress(1) room, of 1] e(2) chain
    by (simp add: c)
  moreover have "\<exists>s'. mongo_step ?s1 s' \<and> sessions s' = (sessions ?s1)[0 := Returned (Inr (ID e))]"
    using mongo_conflicts_explained [OF e(4) sample_deployment_simps(1) sample_deployment_progress(1), of 0]
      sample_deployment_simps(2) by simp
  ultimately show ?thesis using e(3-5)
    by (intro exI [of _ e] exI [of _ ?s0] exI [of _ ?s1] exI [of _ ?s2]) simp
qed

theorem mongo_calls_can_succeed_witness:
  "\<exists>s s'. mongo_reachable sample_deployment s \<and> pending_calls s = 2 \<and> mongo_step\<^sup>*\<^sup>* s s' \<and>
     list_all2 succeeds_from (sessions s) (sessions s') \<and> pending_calls s' = 0"
proof -
  let ?s = "\<lparr>deployment = sample_deployment,
       sessions = [Started sample_event [] sample_deployment, Started sample_event [] sample_deployment]\<rparr>"
  have "mongo_reachable sample_deployment ?s" using sample_race by metis
  moreover have "list_all hashable (sessions ?s)" by (simp add: hashable_def canonicalJSON_def event_simps)
  moreover have calls: "pending_calls ?s = 2" by (simp add: pending_calls_def)
  moreover have "length (coll_chain (deployment ?s) c) + pending_calls ?s < 2 ^ 63 - 1" for c
    unfolding calls by (simp add: coll_chain_def chain_docs_def) (simp add: sample_deployment_def)
  ultimately show ?thesis
    using mongo_calls_can_succeed [OF _ sample_deployment_simps(1) sample_deployment_progress] by blast
qed

end
