(* ===== verification/Spec2Isabelle.thy ===== *)
theory Spec2Isabelle
  imports Example SharedPayloads StoredTampering DiffLossless RecordErrors MemConcurrency PgConcurrency MongoProgress
begin

text \<open>
  Verification of \<^verbatim>\<open>graudit\<close>, a tamper-evident audit log library in Go.

  \<^bold>\<open>The program.\<close>  An \<^verbatim>\<open>AuditLog\<close> keeps independent chains of entries.  \<^verbatim>\<open>Record\<close> gives an event the
  next position of its chain and a SHA-256 hash over its fields and the hash of the entry
  before it; \<^verbatim>\<open>RecordChange\<close> records the difference of two snapshots; \<^verbatim>\<open>Verify\<close> recomputes the hashes
  of a range and checks the links; \<^verbatim>\<open>Query\<close>, \<^verbatim>\<open>GetEntry\<close> and \<^verbatim>\<open>LatestEntryID\<close> read.  There are three
  backends: in memory, on PostgreSQL and on MongoDB.  All hash with \<^verbatim>\<open>hash.go\<close>, build change events
  with \<^verbatim>\<open>diff.go\<close> and publish successful records through \<^verbatim>\<open>events.go\<close>.

  \<^bold>\<open>The theories.\<close>
    \<^item> \<^verbatim>\<open>Prelude\<close>: generic lemmas and the collection \<open>event_simps\<close>.
    \<^item> \<^verbatim>\<open>Errors\<close> (\<^verbatim>\<open>errors.go\<close>): sentinels, wrapped errors, \<^verbatim>\<open>errors.Is\<close>, results as sums.
    \<^item> \<^verbatim>\<open>GoUtf8\<close>, \<^verbatim>\<open>GoJsonString\<close>, \<^verbatim>\<open>GoJson\<close>, \<^verbatim>\<open>GoMarshal\<close>, \<^verbatim>\<open>GoNormal\<close>, \<^verbatim>\<open>GoTime\<close>, \<^verbatim>\<open>GoSha256\<close>: what the sources
      use of Go's standard library, executable: UTF-8, JSON marshalling and decoding with
      numbers kept as text, the RFC 3339 format with milliseconds, SHA-256 and hex.
    \<^item> \<^verbatim>\<open>AuditTypes\<close> (\<^verbatim>\<open>audit.go\<close>): events, filters, verification results, \<open>Validate\<close>.
    \<^item> \<^verbatim>\<open>ChainHash\<close> (\<^verbatim>\<open>hash.go\<close>): \<open>canonicalJSON\<close>, \<open>ComputeHash\<close>, stored payloads.  The canonical text identifies
      a payload up to its JSON value, storing and reading back does not change a hash, and an
      edit of one hashed field changes the hash unless SHA-256 collides.
    \<^item> \<^verbatim>\<open>ChainSpec\<close>: the abstract specification: \<open>linked\<close> and \<open>numbered\<close> chains, \<open>seal\<close>, \<open>verify_walk\<close>.
    \<^item> \<^verbatim>\<open>Backend\<close>: the contract of the \<^verbatim>\<open>AuditLog\<close> interface as locales \<open>chain_store\<close> and \<open>audit_reader\<close>, with
      what a caller may conclude from it, \<open>shared_store\<close>, a store others write to while it is read, and
      \<open>store_pair\<close>, the agreement of two backends.
    \<^item> \<^verbatim>\<open>Events\<close> (\<^verbatim>\<open>events.go\<close>, \<^verbatim>\<open>logger.go\<close>): publishing, logging, and opening and closing connections
      as lists of effects.
    \<^item> \<^verbatim>\<open>Diff\<close> (\<^verbatim>\<open>diff.go\<close>): \<open>computeDiff\<close> reports exactly the difference, in every map iteration order.
    \<^item> \<^verbatim>\<open>DiffLossless\<close>: with one snapshot at hand, a diff determines the other.
    \<^item> \<^verbatim>\<open>Memory\<close> (\<^verbatim>\<open>memory.go\<close>): the record \<open>memoryAuditLog\<close>, one definition per method, the invariant \<open>memory_inv\<close>,
      the interpretation \<open>mem\<close>.  Each call is one step here.
    \<^item> \<^verbatim>\<open>MemConcurrency\<close>: \<^verbatim>\<open>Record\<close> as its checks, its section under the mutex and its publishing, interleaved with
      other calls and \<^verbatim>\<open>Close\<close>: chains intact, every stored entry published once, what \<^verbatim>\<open>Close\<close> still lets through.
    \<^item> \<^verbatim>\<open>Tampering\<close> (\<^verbatim>\<open>memory_test.go\<close>): a stored payload overwritten, by the tests or through the caller's own
      map, and what \<^verbatim>\<open>Verify\<close> and \<^verbatim>\<open>GetEntry\<close> make of it.
    \<^item> \<^verbatim>\<open>SharedPayloads\<close>: payloads as references into a heap, so that entries, callers and readers may share
      them; \<^verbatim>\<open>Verify\<close> after any history of calls and of writes to shared maps.
    \<^item> \<^verbatim>\<open>StoredTampering\<close> (\<^verbatim>\<open>postgres_test.go\<close>, \<^verbatim>\<open>mongo_test.go\<close>): one row or document edited behind the
      library's back, and what \<^verbatim>\<open>Verify\<close> makes of it; the locale \<open>row_verifier\<close>, of which the loops of the three
      backends are instances, shows that they are one.  Also what becomes of a payload that \<^verbatim>\<open>jsonb\<close> rewrites.
    \<^item> \<^verbatim>\<open>DecoderLimit\<close>: the payloads that marshal and cannot be decoded again.
    \<^item> \<^verbatim>\<open>RecordErrors\<close>: which sentinel an error of \<^verbatim>\<open>Record\<close> wraps.
    \<^item> \<^verbatim>\<open>Example\<close> (\<^verbatim>\<open>example/example.go\<close>): the example program as a function on its world, and its output.
    \<^item> \<^verbatim>\<open>Database\<close>: what the two database backends rely on in their drivers.
    \<^item> \<^verbatim>\<open>Postgres\<close> (\<^verbatim>\<open>postgres.go\<close>, \<^verbatim>\<open>internal/postgresdb\<close>): the statements on a list of rows, the transaction
      \<open>record_tx\<close>, every method, construction, \<open>pg_inv\<close>, the interpretation \<open>pg\<close>.
    \<^item> \<^verbatim>\<open>PgConcurrency\<close>: the transaction statement by statement, interleaved under the advisory lock, with faults
      and commits left in doubt; rows are numbered and linked in every reachable state, each change is one run
      of \<open>record_tx\<close>, pending calls can always complete, and every schedule of them ends.  When \<^verbatim>\<open>jsonb\<close> keeps
      the payloads (\<open>kept_step\<close>) the hashes recompute, and a reader beside the writers, with its two
      statements at different times, finds no break (\<open>pg_shared\<close>).
    \<^item> \<^verbatim>\<open>Mongo\<close> (\<^verbatim>\<open>mongo.go\<close>): documents, chain-state documents and indexes, every method, construction with
      its probe, \<open>mongo_inv\<close>, the interpretation \<open>mg\<close>.
    \<^item> \<^verbatim>\<open>MongoConcurrency\<close>: transactions on snapshots, the first writer of a chain-state document winning, with
      retries and commits left in doubt, and a reader beside them (\<open>mg_shared\<close>).
    \<^item> \<^verbatim>\<open>MongoProgress\<close>: writes conflict only with an entry stored since or with writes that are pending and can
      be committed, and every pending call can still succeed.
    \<^item> This theory: the three backends agree.

  \<^bold>\<open>Assumptions.\<close>  The drivers, servers, bus and logger are not part of the repository.  They are
  parameters: functions in the environment or the server record of an operation, so that a
  theorem covers all their behaviours.  The named hypotheses are \<open>transactional\<close>, \<open>retrying\<close>,
  \<open>certain\<close>, \<open>keeps_ms\<close>, \<open>encodes\<close> and, for \<^verbatim>\<open>jsonb\<close>, \<open>payload_kept\<close>, with \<open>storable\<close>, \<open>pg_admissible\<close> and
  \<open>kept_step\<close>, which are built on it; each has an instance in a witness.  PostgreSQL's \<^verbatim>\<open>jsonb\<close> does not satisfy
  \<open>payload_kept\<close> for numbers with an exponent (\<open>float_payload_not_accepted\<close>); the code does not check it.  SHA-256 is
  the concrete function; theorems on tampering conclude that the bytes are the same or that
  two given entries collide.

  \<^bold>\<open>Bounds.\<close>  Positions are 64-bit words.  Results on whole chains ask for fewer than 2^64 entries in
  memory and 2^63 in a database, where positions are signed.  The recursions of the model are total; the JSON
  decoder recurses on the remaining input, so no fuel is chosen anywhere but in its nesting
  limit of 10000, which is the one of \<^verbatim>\<open>encoding/json\<close>.

  \<^bold>\<open>Not modelled.\<close>  Contexts and timeouts other than as failures of driver calls; the text of the
  SQL schema (its keys and indexes are in \<open>InsertEntry\<close>); \<^verbatim>\<open>docs.go\<close> and \<^verbatim>\<open>version.go\<close>, which hold comments and
  a constant, and the plumbing \<^verbatim>\<open>db.go\<close> and \<^verbatim>\<open>querier.go\<close>, which only passes a driver handle on.  A commit
  left in doubt takes effect in the step that ends its call: one that takes effect after its caller has given
  up holds the advisory lock, or its pending writes, until then, so the end of the call is only reported earlier.
  A MongoDB callback is one step, taken at its first write.  Verifications beside writers start at
  position 1; the read of rows is one statement, so a MongoDB cursor that sees writes while it is being
  read is taken at one moment.  Edits behind the library's back are
  of one row or document at a time, or arbitrary for two accepted chains of the same length and last hash.
\<close>

section \<open>The backends agree\<close>


interpretation mem_mg: store_pair memory_chain closed memory_inv "\<lambda>now. now" "\<lambda>_ _ _. True" memory_record_op
  mongo_chain mclosed mongo_inv m_now mongo_admissible mongo_record_op
  by unfold_locales

lemma memory_fresh: "memory_inv (NewMemoryAuditLog [])" "memory_chain (NewMemoryAuditLog []) c = []"
  using memory_inv_new [of "[]"] by simp_all


text \<open>
  C25. The MongoDB backend refines the in-memory one in the same sense, with every pattern of
  retried attempts.
\<close>

theorem mongo_agrees_with_memory:
  assumes "empty_deployment (client a)"
    and "along_run mongo_admissible mongo_record_op calls a" "run_records mongo_record_op calls a = (a', rs)"
    and "run_records memory_record_op mcalls (NewMemoryAuditLog []) = (m, ms)"
    and "same_calls (\<lambda>now. now) m_now mcalls calls" "map isl ms = map isl rs"
  shows "same_chain (memory_chain m c) (mongo_chain a' c) \<and> list_all2 (\<lambda>r q. isl r \<or> r = q) ms rs"
proof -
  have "mongo_chain a c = []" for c
    using assms(1) by (simp add: empty_deployment_def mongo_chain_def coll_chain_def chain_docs_def)
  then have "\<forall>c. same_chain (memory_chain (NewMemoryAuditLog []) c) (mongo_chain a c)"
    by (simp add: memory_fresh(2) same_chain_def)
  from mem_mg.runs_agree [OF memory_fresh(1) along_run_True assms(4) mongo_inv_empty [OF assms(1)] assms(2,3,5,6) this]
  show ?thesis by blast
qed

section \<open>Witnesses\<close>

lemma memory_one_success:
  "map isl (snd (run_records memory_record_op [(sample_time, sample_event)] (NewMemoryAuditLog []))) = [False]"
  using memory_Record_sample(4) [of "NewMemoryAuditLog []" sample_time]
  by (auto simp: memory_record_op_def case_prod_beta Let_def)


theorem mongo_agrees_with_memory_witness:
  "same_chain (memory_chain (fst (run_records memory_record_op [(sample_time, sample_event)] (NewMemoryAuditLog []))) ''tenant-1'')
     (mongo_chain (fst (run_records mongo_record_op mongo_calls sample_mongo)) ''tenant-1'')"
proof -
  let ?m = "run_records memory_record_op [(sample_time, sample_event)] (NewMemoryAuditLog [])"
  obtain e where "mongo_record_op retry_env sample_event sample_mongo
      = (sample_mongo\<lparr>client := stored_doc (client sample_mongo) [] e\<rparr>, Inr (ID e))" by (rule sample_mongo_record)
  then have ok: "map isl (snd ?m) = map isl (snd (run_records mongo_record_op mongo_calls sample_mongo))"
    using memory_one_success by (simp add: mongo_calls_def)
  have calls: "same_calls (\<lambda>now. now) m_now [(sample_time, sample_event)] mongo_calls"
    by (simp add: same_calls_def mongo_calls_def retry_env_simps)
  have "?m = (fst ?m, snd ?m)" by simp
  from mongo_agrees_with_memory [OF sample_mongo_simps(1) sample_mongo_run(1) mongo_run_pair this calls ok]
  show ?thesis by blast
qed

end
